(* ===== verification/RedisPrelude.thy ===== *)
theory RedisPrelude
  imports Complex_Main "HOL-Library.Word" "HOL-Library.Monad_Syntax"
begin

text \<open>
  The shared vocabulary of the development.

  \<^item> Raw memory is a list of bytes; a C buffer access is \<open>rd\<close> or \<open>wr\<close>, and
    an access outside the buffer is the value \<open>None\<close>. Throughout the development
    \<open>None\<close> in an \<open>option\<close> computation means that the C code would run into
    undefined behaviour or a failed assertion; a theorem that shows a \<open>Some\<close> is
    therefore also a memory-safety theorem.
  \<^item> \<open>le_enc\<close>/\<open>le_dec\<close> are the little-endian layouts that Redis uses for every
    integer it stores in a packed structure (\<open>memrevNNifbe\<close> of \<open>endianconv.h\<close> is
    the identity on the little-endian hosts modelled here).
  \<^item> \<open>dec\<close> and \<open>dec_int\<close> are the canonical decimal representation, the reference
    for the printers and parsers of \<open>util.c\<close>.
\<close>

section \<open>Types and automation\<close>

type_synonym byte = "8 word"
type_synonym buffer = "byte list"

named_theorems mem_simps \<open>equations of the memory primitives\<close>
named_theorems le_simps \<open>equations of the little-endian layouts\<close>

abbreviation LLONG_MIN :: int where "LLONG_MIN \<equiv> - (2 ^ 63)"
abbreviation LLONG_MAX :: int where "LLONG_MAX \<equiv> 2 ^ 63 - 1"

definition INT_MAX :: int where "INT_MAX = 2 ^ 31 - 1"

abbreviation in_llong :: "int \<Rightarrow> bool" where "in_llong x \<equiv> LLONG_MIN \<le> x \<and> x \<le> LLONG_MAX"

section \<open>Memory primitives\<close>

definition rd :: "'a list \<Rightarrow> int \<Rightarrow> 'a option" where
  "rd b i = (if 0 \<le> i \<and> i < int (length b) then Some (b ! nat i) else None)"

definition wr :: "'a list \<Rightarrow> int \<Rightarrow> 'a \<Rightarrow> 'a list option" where
  "wr b i x = (if 0 \<le> i \<and> i < int (length b) then Some (b[nat i := x]) else None)"

lemma rd_Some [mem_simps]: "0 \<le> i \<Longrightarrow> i < int (length b) \<Longrightarrow> rd b i = Some (b ! nat i)"
  by (simp add: rd_def)

lemma rd_nat [mem_simps]: "n < length b \<Longrightarrow> rd b (int n) = Some (b ! n)"
  by (simp add: rd_def)

lemma wr_Some [mem_simps]:
  "0 \<le> i \<Longrightarrow> i < int (length b) \<Longrightarrow> wr b i x = Some (b[nat i := x])"
  by (simp add: wr_def)

lemma wr_nat [mem_simps]: "n < length b \<Longrightarrow> wr b (int n) x = Some (b[n := x])"
  by (simp add: wr_def)

lemma wr_length: "wr b i x = Some b' \<Longrightarrow> length b' = length b"
  by (auto simp: wr_def split: if_splits)

text \<open>Replacing a block inside a list: the effect of \<open>memcpy\<close> into a buffer.\<close>

definition blit :: "'a list \<Rightarrow> nat \<Rightarrow> 'a list \<Rightarrow> 'a list" where
  "blit b i xs = take i b @ xs @ drop (i + length xs) b"

lemma length_blit [simp]: "i + length xs \<le> length b \<Longrightarrow> length (blit b i xs) = length b"
  by (simp add: blit_def)

lemma take_blit_below: "j \<le> i \<Longrightarrow> i \<le> length b \<Longrightarrow> take j (blit b i xs) = take j b"
  by (simp add: blit_def min_def)

lemma drop_blit_above:
  "i + length xs \<le> j \<Longrightarrow> i + length xs \<le> length b \<Longrightarrow> drop j (blit b i xs) = drop j b"
  by (simp add: blit_def)

lemma read_blit_same: "i + length xs \<le> length b \<Longrightarrow> take (length xs) (drop i (blit b i xs)) = xs"
  by (simp add: blit_def)

lemma nth_blit:
  assumes "i + length xs \<le> length b" "k < length b"
  shows "blit b i xs ! k = (if i \<le> k \<and> k < i + length xs then xs ! (k - i) else b ! k)"
  using assms by (auto simp: blit_def nth_append min_def)

text \<open>
  \<open>peek\<close> and \<open>poke\<close> read and write a block of a buffer; \<open>memcpy\<close> and \<open>memmove\<close> are a
  \<open>peek\<close> followed by a \<open>poke\<close>. \<open>realloc\<close> keeps the common prefix; what lies beyond is
  the content of fresh memory.
\<close>

definition peek :: "'a list \<Rightarrow> int \<Rightarrow> nat \<Rightarrow> 'a list option" where
  "peek b i n = (if 0 \<le> i \<and> nat i + n \<le> length b then Some (take n (drop (nat i) b)) else None)"

definition poke :: "'a list \<Rightarrow> int \<Rightarrow> 'a list \<Rightarrow> 'a list option" where
  "poke b i xs = (if 0 \<le> i \<and> nat i + length xs \<le> length b then Some (blit b (nat i) xs) else None)"

definition realloc :: "(nat \<Rightarrow> byte) \<Rightarrow> buffer \<Rightarrow> nat \<Rightarrow> buffer" where
  "realloc fresh b n = take n b @ map fresh [length b..<n]"

lemma length_realloc [simp]: "length (realloc fresh b n) = n"
  by (simp add: realloc_def)

lemma realloc_shrink: "n \<le> length b \<Longrightarrow> realloc fresh b n = take n b"
  by (simp add: realloc_def)

lemma realloc_grow: "realloc fresh b (length b + n) = b @ map fresh [length b..<length b + n]"
  by (simp add: realloc_def)

section \<open>Little-endian integers\<close>

fun le_enc :: "nat \<Rightarrow> nat \<Rightarrow> buffer" where
  "le_enc 0 x = []"
| "le_enc (Suc n) x = of_nat (x mod 256) # le_enc n (x div 256)"

fun le_dec :: "buffer \<Rightarrow> nat" where
  "le_dec [] = 0"
| "le_dec (b # bs) = unat b + 256 * le_dec bs"

lemma length_le_enc [simp]: "length (le_enc n x) = n"
  by (induction n arbitrary: x) auto

lemma unat_of_nat_byte [le_simps]: "unat (of_nat n :: byte) = n mod 256"
  by (simp add: unat_of_nat)

lemma le_dec_enc [le_simps]: "le_dec (le_enc n x) = x mod 256 ^ n"
proof (induction n arbitrary: x)
  case 0
  then show ?case by simp
next
  case (Suc n)
  then show ?case by (simp add: le_simps mod_mult2_eq)
qed

lemma le_dec_bound: "le_dec bs < 256 ^ length bs"
proof (induction bs)
  case Nil
  then show ?case by simp
next
  case (Cons b bs)
  have "unat b < 256" using unsigned_less [of b] by simp
  with Cons show ?case by simp
qed

lemma le_enc_dec: "le_enc (length bs) (le_dec bs) = bs"
proof (induction bs)
  case Nil
  then show ?case by simp
next
  case (Cons b bs)
  have "unat b < 256" using unsigned_less [of b] by simp
  with Cons show ?case by simp
qed

text \<open>
  Two's complement of \<open>n\<close> bytes: what a load or store of an \<open>intN_t\<close> does.
\<close>

definition sle_enc :: "nat \<Rightarrow> int \<Rightarrow> buffer" where
  "sle_enc n x = le_enc n (nat (x mod 256 ^ n))"

definition sle_dec :: "buffer \<Rightarrow> int" where
  "sle_dec bs = (let u = int (le_dec bs); m = 256 ^ length bs in if 2 * u < m then u else u - m)"

lemma length_sle_enc [simp]: "length (sle_enc n x) = n"
  by (simp add: sle_enc_def)

lemma sle_dec_enc [le_simps]:
  assumes "0 < n" "- (256 ^ n) \<le> 2 * x" "2 * x < 256 ^ n"
  shows "sle_dec (sle_enc n x) = x"
proof -
  let ?m = "256 ^ n :: int"
  have m: "0 < ?m" by simp
  have eq: "int (le_dec (sle_enc n x)) = x mod ?m"
    by (simp add: sle_enc_def le_simps zmod_int)
  show ?thesis
  proof (cases "0 \<le> x")
    case True
    with assms m have "x mod ?m = x" by (intro mod_pos_pos_trivial) auto
    with True assms show ?thesis by (simp add: sle_dec_def eq Let_def)
  next
    case False
    have "x mod ?m = (x + ?m) mod ?m" by simp
    also have "\<dots> = x + ?m" using False assms m by (intro mod_pos_pos_trivial) auto
    finally have "x mod ?m = x + ?m" .
    with False assms m show ?thesis by (simp add: sle_dec_def eq Let_def)
  qed
qed

lemma sle_enc_dec: "sle_enc (length bs) (sle_dec bs) = bs"
proof -
  let ?m = "256 ^ length bs :: int"
  have "int (le_dec bs) < ?m"
    using le_dec_bound [of bs] by (metis of_nat_less_iff of_nat_power of_nat_numeral)
  then have "nat (sle_dec bs mod ?m) = le_dec bs"
    by (simp add: sle_dec_def Let_def nat_eq_iff)
  then show ?thesis by (simp add: sle_enc_def le_enc_dec)
qed

section \<open>Canonical decimal representation\<close>

fun dec :: "nat \<Rightarrow> buffer" where
  "dec n = (if n < 10 then [48 + of_nat n] else dec (n div 10) @ [48 + of_nat (n mod 10)])"

declare dec.simps [simp del]

definition dec_int :: "int \<Rightarrow> buffer" where
  "dec_int x = (if x < 0 then 45 # dec (nat (- x)) else dec (nat x))"

lemma dec_nonempty [simp]: "dec n \<noteq> []"
  by (subst dec.simps) simp

lemma dec_small: "n < 10 \<Longrightarrow> dec n = [48 + of_nat n]"
  by (simp add: dec.simps)

lemma dec_step: "10 \<le> n \<Longrightarrow> dec n = dec (n div 10) @ [48 + of_nat (n mod 10)]"
  by (simp add: dec.simps [of n])

lemma dec_step2:
  assumes "100 \<le> n"
  shows "dec n = dec (n div 100) @ [48 + of_nat (n mod 100 div 10), 48 + of_nat (n mod 10)]"
proof -
  have "n div 10 mod 10 = n mod 100 div 10"
    using mod_mult2_eq [of n 10 10] by simp
  moreover have "n div 10 div 10 = n div 100" by (simp add: div_mult2_eq [symmetric])
  ultimately show ?thesis
    using assms dec_step [of n] dec_step [of "n div 10"] by simp
qed

lemma length_dec_less: "0 < k \<Longrightarrow> length (dec n) \<le> k \<longleftrightarrow> n < 10 ^ k"
proof (induction k arbitrary: n)
  case 0
  then show ?case by simp
next
  case (Suc k)
  show ?case
  proof (cases "n < 10")
    case True
    then have "n < 10 ^ Suc k" using le_less_trans [of n 9] by (simp add: less_le_trans)
    with True show ?thesis by (simp add: dec_small)
  next
    case False
    then have len: "length (dec n) = Suc (length (dec (n div 10)))" by (simp add: dec_step)
    show ?thesis
    proof (cases "k = 0")
      case True
      then show ?thesis using False len by simp
    next
      case k: False
      have "n div 10 < 10 ^ k \<longleftrightarrow> n < 10 ^ Suc k" by (simp add: div_less_iff_less_mult mult.commute)
      with Suc.IH [of "n div 10"] k len show ?thesis by simp
    qed
  qed
qed

end
