(* ===== verification/RedisUtil.thy ===== *)
theory RedisUtil
  imports RedisPrelude
begin

text \<open>
  The number conversions of \<open>util.c\<close>: \<open>digits10\<close>, \<open>sdigits10\<close>, \<open>ull2string\<close>,
  \<open>ll2string\<close>, \<open>string2ll\<close> and \<open>string2l\<close>. A destination buffer is a byte list,
  every store goes through \<open>wr\<close>, and the returned pair is the buffer after the
  call together with the C return value. The 64-bit accumulator of \<open>string2ll\<close> is a
  \<open>64 word\<close>, so that a missing overflow check would wrap around.
\<close>

section \<open>Definitions\<close>

text \<open>\<open>uint32_t digits10(uint64_t v)\<close>\<close>

fun digits10 :: "nat \<Rightarrow> nat" where
  "digits10 v =
     (if v < 10 then 1
      else if v < 100 then 2
      else if v < 1000 then 3
      else if v < 1000000000000 then
        (if v < 100000000 then
           (if v < 1000000 then
              (if v < 10000 then 4 else 5 + (if v \<ge> 100000 then 1 else 0))
            else 7 + (if v \<ge> 10000000 then 1 else 0))
         else if v < 10000000000 then 9 + (if v \<ge> 1000000000 then 1 else 0)
         else 11 + (if v \<ge> 100000000000 then 1 else 0))
      else 12 + digits10 (v div 1000000000000))"

declare digits10.simps [simp del]

text \<open>\<open>uint32_t sdigits10(int64_t v)\<close>\<close>

definition sdigits10 :: "int \<Rightarrow> nat" where
  "sdigits10 v =
     (if v < 0 then
        (let uv = (if v \<noteq> LLONG_MIN then nat (- v) else nat LLONG_MAX + 1)
         in digits10 uv + 1)
      else digits10 (nat v))"

text \<open>The static table \<open>digits\<close> of \<open>ull2string\<close>: the pairs 00 to 99.\<close>

definition digits_table :: buffer where
  "digits_table = map of_char
     (''0001020304050607080910111213141516171819'' @
      ''2021222324252627282930313233343536373839'' @
      ''4041424344454647484950515253545556575859'' @
      ''6061626364656667686970717273747576777879'' @
      ''8081828384858687888990919293949596979899'')"

text \<open>The \<open>while (value >= 100)\<close> loop of \<open>ull2string\<close>.\<close>

function ull2string_loop :: "buffer \<Rightarrow> int \<Rightarrow> nat \<Rightarrow> (buffer \<times> int \<times> nat) option" where
  "ull2string_loop dst next value =
     (if 100 \<le> value then
        (let i = int (value mod 100) * 2
         in do {
           hi \<leftarrow> rd digits_table (i + 1);
           dst \<leftarrow> wr dst next hi;
           lo \<leftarrow> rd digits_table i;
           dst \<leftarrow> wr dst (next - 1) lo;
           ull2string_loop dst (next - 2) (value div 100)
         })
      else Some (dst, next, value))"
  by pat_completeness auto
termination
  by (relation "measure (\<lambda>(_, _, v). v)") auto

declare ull2string_loop.simps [simp del]

text \<open>\<open>int ull2string(char *dst, size_t dstlen, unsigned long long value)\<close>\<close>

definition ull2string :: "buffer \<Rightarrow> nat \<Rightarrow> nat \<Rightarrow> (buffer \<times> nat) option" where
  "ull2string dst dstlen value =
     (let length = digits10 value in
      if dstlen \<le> length then Some (dst, 0)
      else do {
        let next = int length - 1;
        dst \<leftarrow> wr dst (next + 1) 0;
        (dst, next, value) \<leftarrow> ull2string_loop dst next value;
        dst \<leftarrow>
          (if value < 10 then wr dst next (48 + of_nat value)
           else do {
             let i = int value * 2;
             hi \<leftarrow> rd digits_table (i + 1);
             dst \<leftarrow> wr dst next hi;
             lo \<leftarrow> rd digits_table i;
             wr dst (next - 1) lo
           });
        Some (dst, length)
      })"

text \<open>
  \<open>int ll2string(char *dst, size_t dstlen, long long svalue)\<close>. After \<open>dst++\<close> the call
  of \<open>ull2string\<close> works on the tail of the buffer.
\<close>

definition ll2string :: "buffer \<Rightarrow> nat \<Rightarrow> int \<Rightarrow> (buffer \<times> nat) option" where
  "ll2string dst dstlen svalue =
     (if svalue < 0 then
        (let value = (if svalue \<noteq> LLONG_MIN then nat (- svalue) else nat LLONG_MAX + 1) in
         if dstlen < 2 then Some (dst, 0)
         else do {
           dst \<leftarrow> wr dst 0 45;
           (dst', length) \<leftarrow> ull2string (tl dst) (dstlen - 1) value;
           Some (hd dst # dst', if length = 0 then 0 else length + 1)
         })
      else ull2string dst dstlen (nat svalue))"

text \<open>The digit loop of \<open>string2ll\<close>: the accumulated value and the unread rest.\<close>

fun string2ll_digits :: "buffer \<Rightarrow> 64 word \<Rightarrow> (64 word \<times> buffer) option" where
  "string2ll_digits [] v = Some (v, [])"
| "string2ll_digits (c # p) v =
     (if 48 \<le> c \<and> c \<le> 57 then
        (if v > - 1 div 10 then None
         else let v = v * 10 in
           if v > - 1 - ucast (c - 48) then None
           else string2ll_digits p (v + ucast (c - 48)))
      else Some (v, c # p))"

text \<open>
  \<open>int string2ll(const char *s, size_t slen, long long *value)\<close>: \<open>None\<close> is the return
  value 0, \<open>Some x\<close> is 1 with \<open>*value = x\<close>.
\<close>

definition string2ll :: "buffer \<Rightarrow> int option" where
  "string2ll s =
     (let slen = length s in
      if slen = 0 \<or> slen \<ge> 21 then None
      else if slen = 1 \<and> hd s = 48 then Some 0
      else
        (let negative = (hd s = 45);
             p = (if negative then tl s else s)
         in if p = [] then None
            else if 49 \<le> hd p \<and> hd p \<le> 57 then
              (case string2ll_digits (tl p) (ucast (hd p - 48)) of
                 None \<Rightarrow> None
               | Some (v, rest) \<Rightarrow>
                   if rest \<noteq> [] then None
                   else if negative then
                     (if v > of_int (- (LLONG_MIN + 1)) + 1 then None else Some (sint (- v)))
                   else (if v > of_int LLONG_MAX then None else Some (sint v)))
            else None))"

text \<open>\<open>int string2l(const char *s, size_t slen, long *lval)\<close>; \<open>long\<close> has \<open>w\<close> bits.\<close>

definition string2l :: "nat \<Rightarrow> buffer \<Rightarrow> int option" where
  "string2l w s =
     (case string2ll s of
        None \<Rightarrow> None
      | Some llval \<Rightarrow>
          if llval < - (2 ^ (w - 1)) \<or> llval > 2 ^ (w - 1) - 1 then None else Some llval)"

section \<open>Digit counts\<close>

lemma length_dec_eq:
  "10 ^ k \<le> n \<Longrightarrow> n < 10 ^ Suc k \<Longrightarrow> length (dec n) = Suc k"
  using length_dec_less [of "Suc k" n] length_dec_less [of k n]
  by (cases "k = 0") (auto simp: dec_small)

lemma length_dec_div:
  "10 ^ k \<le> n \<Longrightarrow> length (dec n) = k + length (dec (n div 10 ^ k))"
proof (induction k arbitrary: n)
  case 0
  then show ?case by simp
next
  case (Suc k)
  have "10 * 10 ^ k \<le> n" using Suc.prems by simp
  then have ge: "10 \<le> n" "10 ^ k \<le> n div 10"
    by (auto simp: less_eq_div_iff_mult_less_eq mult.commute intro: order_trans [rotated])
  have "n div 10 div 10 ^ k = n div 10 ^ Suc k" by (simp add: div_mult2_eq)
  with Suc.IH [OF ge(2)] ge(1) show ?case by (simp add: dec_step)
qed

lemma digits10_length: "digits10 v = length (dec v)"
proof (induction v rule: less_induct)
  case (less v)
  show ?case
  proof (cases "v < 1000000000000")
    case True
    then show ?thesis
      using dec_small [of v] length_dec_eq [of 1 v]
        length_dec_eq [of 2 v]
        length_dec_eq [of 3 v]
        length_dec_eq [of 4 v]
        length_dec_eq [of 5 v]
        length_dec_eq [of 6 v]
        length_dec_eq [of 7 v]
        length_dec_eq [of 8 v]
        length_dec_eq [of 9 v]
        length_dec_eq [of 10 v]
        length_dec_eq [of 11 v]
      by (simp add: digits10.simps [of v])
  next
    case False
    then have "digits10 v = 12 + digits10 (v div 10 ^ 12)"
      by (subst digits10.simps) simp
    also have "\<dots> = 12 + length (dec (v div 10 ^ 12))"
      using False by (subst less) auto
    also have "\<dots> = length (dec v)"
      using False length_dec_div [of 12 v] by simp
    finally show ?thesis .
  qed
qed

text \<open>The table holds the two decimal digits of each number below 100.\<close>

lemma concat_pairs_nth:
  "k < length xs \<Longrightarrow> concat (map (\<lambda>x. [f x, g x]) xs) ! (2 * k) = f (xs ! k)"
  "k < length xs \<Longrightarrow> concat (map (\<lambda>x. [f x, g x]) xs) ! Suc (2 * k) = g (xs ! k)"
  by (induction xs arbitrary: k) (auto simp: nth_Cons split: nat.splits)

lemma digits_table_concat:
  "digits_table = concat (map (\<lambda>k. [48 + of_nat (k div 10), 48 + of_nat (k mod 10)]) [0..<100])"
  by (simp add: digits_table_def upt_conv_Cons)

lemma digits_table_length: "length digits_table = 200"
  by (simp add: digits_table_def)

lemma digits_table_rd:
  assumes "k < 100"
  shows "rd digits_table (int k * 2) = Some (48 + of_nat (k div 10))"
    and "rd digits_table (int k * 2 + 1) = Some (48 + of_nat (k mod 10))"
proof -
  have "rd digits_table (int (2 * k)) = Some (48 + of_nat (k div 10))"
    using assms concat_pairs_nth(1) [of k "[0..<100]"]
    by (subst rd_nat) (simp_all add: digits_table_length, simp add: digits_table_concat)
  then show "rd digits_table (int k * 2) = Some (48 + of_nat (k div 10))"
    by (simp add: mult.commute)
  have "rd digits_table (int (Suc (2 * k))) = Some (48 + of_nat (k mod 10))"
    using assms concat_pairs_nth(2) [of k "[0..<100]"]
    by (subst rd_nat) (simp_all add: digits_table_length, simp add: digits_table_concat)
  then show "rd digits_table (int k * 2 + 1) = Some (48 + of_nat (k mod 10))"
    by (simp add: mult.commute add.commute)
qed

section \<open>Printing\<close>

lemma drop_update_pair:
  "Suc m < length xs \<Longrightarrow> drop m (xs[Suc m := b, m := a]) = a # b # drop (Suc (Suc m)) xs"
  by (simp add: Cons_nth_drop_Suc [symmetric] drop_update_swap)

lemma ull2string_writes:
  assumes "length (dec v) = Suc n" "n < length dst"
  shows "(ull2string_loop dst (int n) v \<bind> (\<lambda>(dst, next, value).
            if value < 10 then wr dst next (48 + of_nat value)
            else do {
              let i = int value * 2;
              hi \<leftarrow> rd digits_table (i + 1);
              dst \<leftarrow> wr dst next hi;
              lo \<leftarrow> rd digits_table i;
              wr dst (next - 1) lo
            })) = Some (dec v @ drop (Suc n) dst)"
  using assms
proof (induction v arbitrary: n dst rule: less_induct)
  case (less v)
  consider (one) "v < 10" | (two) "10 \<le> v" "v < 100" | (more) "100 \<le> v" by linarith
  then show ?case
  proof cases
    case one
    with less.prems show ?thesis
      by (cases dst) (auto simp: ull2string_loop.simps dec_small wr_def)
  next
    case two
    then have "dec v = [48 + of_nat (v div 10), 48 + of_nat (v mod 10)]"
      by (simp add: dec_step dec_small)
    moreover from this less.prems have "n = Suc 0" by simp
    ultimately show ?thesis
      using two less.prems drop_update_pair [of 0 dst]
      by (auto simp: ull2string_loop.simps digits_table_rd wr_def)
  next
    case more
    let ?lo = "48 + of_nat (v mod 100 div 10) :: byte" and ?hi = "48 + of_nat (v mod 10) :: byte"
    from more have d: "dec v = dec (v div 100) @ [?lo, ?hi]" by (rule dec_step2)
    with less.prems obtain m where m: "n = Suc (Suc m)" "length (dec (v div 100)) = Suc m"
      by (cases n; cases "n - 1") auto
    let ?dst = "dst[Suc (Suc m) := ?hi, Suc m := ?lo]"
    have "v mod 100 mod 10 = v mod 10" by (simp add: mod_mod_cancel)
    with more m less.prems have "ull2string_loop dst (int n) v = ull2string_loop ?dst (int m) (v div 100)"
      by (subst ull2string_loop.simps) (simp add: digits_table_rd wr_def Let_def nat_add_distrib)
    moreover have "drop (Suc m) ?dst = ?lo # ?hi # drop (Suc n) dst"
      using m less.prems drop_update_pair [of "Suc m" dst] by simp
    ultimately show ?thesis
      using less.IH [of "v div 100" m ?dst] more m less.prems d by simp
  qed
qed

lemma ull2string_fits:
  assumes "length (dec v) < dstlen" "dstlen \<le> length dst"
  shows "ull2string dst dstlen v =
    Some (dec v @ 0 # drop (Suc (length (dec v))) dst, length (dec v))"
proof -
  obtain n where n: "length (dec v) = Suc n" by (cases "dec v") auto
  let ?dst = "dst[Suc n := 0]"
  have "drop (Suc n) ?dst = 0 # drop (Suc (Suc n)) dst"
    using assms n by (simp add: Cons_nth_drop_Suc [symmetric] drop_update_swap)
  with ull2string_writes [OF n, of ?dst] assms n show ?thesis
    by (auto simp: ull2string_def digits10_length wr_def Let_def nat_add_distrib
        bind_eq_Some_conv case_prod_beta split: if_splits)
qed

lemma ull2string_too_small:
  "dstlen \<le> length (dec v) \<Longrightarrow> ull2string dst dstlen v = Some (dst, 0)"
  by (simp add: ull2string_def digits10_length)

lemma dec_int_nonneg: "0 \<le> x \<Longrightarrow> dec_int x = dec (nat x)"
  by (simp add: dec_int_def)

text \<open>The magnitude that \<open>ll2string\<close> and \<open>sdigits10\<close> compute, \<open>LLONG_MIN\<close> included.\<close>

lemma llong_magnitude:
  "x < 0 \<Longrightarrow> (if x \<noteq> LLONG_MIN then nat (- x) else nat LLONG_MAX + 1) = nat (- x)"
  by auto

lemma ll2string_fits:
  assumes "length (dec_int x) < dstlen" "dstlen \<le> length dst"
  shows "ll2string dst dstlen x =
    Some (dec_int x @ 0 # drop (Suc (length (dec_int x))) dst, length (dec_int x))"
proof (cases "x < 0")
  case True
  then have d: "dec_int x = 45 # dec (nat (- x))" by (simp add: dec_int_def)
  obtain h t where dst: "dst = h # t" using assms by (cases dst) auto
  have "ull2string t (dstlen - 1) (nat (- x)) =
      Some (dec (nat (- x)) @ 0 # drop (Suc (length (dec (nat (- x))))) t, length (dec (nat (- x))))"
    using assms d dst by (intro ull2string_fits) auto
  moreover have "2 \<le> dstlen" using assms d by (cases "dec (nat (- x))") auto
  ultimately show ?thesis
    using True dst d llong_magnitude [OF True] by (simp add: ll2string_def wr_def)
next
  case False
  with assms show ?thesis by (simp add: ll2string_def dec_int_nonneg ull2string_fits)
qed

lemma ll2string_too_small:
  assumes "dstlen \<le> length (dec_int x)" "dstlen \<le> length dst"
  shows "\<exists>dst'. ll2string dst dstlen x = Some (dst', 0)"
proof (cases "x < 0 \<and> 2 \<le> dstlen")
  case True
  then have "dec_int x = 45 # dec (nat (- x))" by (simp add: dec_int_def)
  with assms have "dstlen - 1 \<le> length (dec (nat (- x)))" by simp
  with True assms llong_magnitude [of x] show ?thesis
    by (cases dst) (auto simp: ll2string_def wr_def ull2string_too_small)
next
  case False
  with assms show ?thesis
    by (auto simp: ll2string_def dec_int_nonneg ull2string_too_small not_less)
qed

section \<open>Parsing\<close>

abbreviation digit :: "byte \<Rightarrow> bool" where "digit c \<equiv> 48 \<le> c \<and> c \<le> 57"
abbreviation dig :: "byte \<Rightarrow> nat" where "dig c \<equiv> unat (c - 48)"

definition horner :: "nat \<Rightarrow> buffer \<Rightarrow> nat" where
  "horner a p = foldl (\<lambda>a c. 10 * a + dig c) a p"

lemma horner_simps [simp]:
  "horner a [] = a" "horner a (c # p) = horner (10 * a + dig c) p"
  "horner a (p @ [c]) = 10 * horner a p + dig c"
  by (simp_all add: horner_def)

lemma horner_ge: "a \<le> horner a p"
proof (induction p arbitrary: a)
  case Nil
  then show ?case by simp
next
  case (Cons c p)
  from Cons [of "10 * a + dig c"] show ?case by simp
qed

lemma digit_dig: "digit c \<Longrightarrow> dig c \<le> 9 \<and> c = 48 + of_nat (dig c)"
  by (auto simp: word_le_nat_alt unat_sub)

lemma digit_of_nat:
  assumes "n < 10"
  shows "digit (48 + of_nat n)" "dig (48 + of_nat n) = n"
  using assms by (auto simp: word_le_nat_alt unat_word_ariths unat_of_nat)

lemma unat_ucast_dig: "digit c \<Longrightarrow> unat (ucast (c - 48) :: 64 word) = dig c"
  using digit_dig [of c] by (simp add: unsigned_ucast_eq take_bit_nat_eq_self_iff)

lemma string2ll_digits_iff:
  "string2ll_digits p v = Some (w, []) \<longleftrightarrow>
     (\<forall>c \<in> set p. digit c) \<and> horner (unat v) p < 2 ^ 64 \<and> w = of_nat (horner (unat v) p)"
proof (induction p arbitrary: v)
  case Nil
  then show ?case by (auto simp: unsigned_less [of v, simplified])
next
  case (Cons c p)
  show ?case
  proof (cases "digit c")
    case False
    then show ?thesis by auto
  next
    case True
    note d = digit_dig [OF True, THEN conjunct1] unat_ucast_dig [OF True]
    let ?h = "horner (10 * unat v + dig c) p"
    have ge: "10 * unat v + dig c \<le> ?h" by (rule horner_ge)
    consider (mul) "v > - 1 div 10" | (add) "\<not> v > - 1 div 10" "v * 10 > - 1 - ucast (c - 48)"
      | (ok) "\<not> v > - 1 div 10" "\<not> v * 10 > - 1 - ucast (c - 48)" by blast
    then show ?thesis
    proof cases
      case mul
      then have "2 ^ 64 \<le> 10 * unat v" by (simp add: word_less_nat_alt unat_div)
      with mul True ge show ?thesis by simp
    next
      case add
      then have m: "unat (v * 10) = 10 * unat v"
        by (simp add: word_less_nat_alt unat_div unat_word_ariths)
      then have "2 ^ 64 \<le> 10 * unat v + dig c"
        using add(2) d by (simp add: word_less_nat_alt unat_sub [OF word_order.extremum] unsigned_minus_1_eq_mask mask_eq_exp_minus_1)
      with add True ge show ?thesis by (simp add: Let_def)
    next
      case ok
      then have m: "unat (v * 10) = 10 * unat v"
        by (simp add: word_less_nat_alt unat_div unat_word_ariths)
      then have "10 * unat v + dig c < 2 ^ 64"
        using ok(2) d by (simp add: word_less_nat_alt unat_sub [OF word_order.extremum] unsigned_minus_1_eq_mask mask_eq_exp_minus_1)
      then have "unat (v * 10 + ucast (c - 48)) = 10 * unat v + dig c"
        using m d by (simp add: unat_word_ariths)
      with Cons.IH [of "v * 10 + ucast (c - 48)"] ok True show ?thesis by (simp add: Let_def)
    qed
  qed
qed

lemma dec_horner:
  assumes "1 \<le> a" "a < 10" "\<forall>c \<in> set p. digit c"
  shows "dec (horner a p) = (48 + of_nat a) # p"
  using assms(3)
proof (induction p rule: rev_induct)
  case Nil
  with assms show ?case by (simp add: dec_small)
next
  case (snoc c p)
  then have c: "dig c \<le> 9" "c = 48 + of_nat (dig c)" using digit_dig [of c] by auto
  have "1 \<le> horner a p" using assms horner_ge [of a p] by linarith
  with c snoc show ?case by (simp add: dec_step)
qed

lemma dec_pos:
  assumes "0 < n"
  obtains c p where "dec n = c # p" "49 \<le> c" "c \<le> 57" "\<forall>x \<in> set p. digit x"
    "horner (dig c) p = n"
proof -
  have "\<exists>c p. dec n = c # p \<and> 49 \<le> c \<and> c \<le> 57 \<and> (\<forall>x \<in> set p. digit x) \<and> horner (dig c) p = n"
    using assms
  proof (induction n rule: less_induct)
    case (less n)
    show ?case
    proof (cases "n < 10")
      case True
      with less.prems have "dec n = [48 + of_nat n]" "(49::byte) \<le> 48 + of_nat n" "48 + of_nat n \<le> (57::byte)"
        by (auto simp: dec_small word_le_nat_alt unat_word_ariths unat_of_nat)
      with digit_of_nat(2) [OF True] show ?thesis by auto
    next
      case False
      then have "n div 10 < n" "0 < n div 10" by auto
      from less.IH [OF this] obtain c p where
        *: "dec (n div 10) = c # p" "49 \<le> c" "c \<le> 57" "\<forall>x \<in> set p. digit x" "horner (dig c) p = n div 10"
        by blast
      have "n mod 10 < 10" by simp
      from digit_of_nat [OF this] * False show ?thesis
        by (intro exI [of _ c] exI [of _ "p @ [48 + of_nat (n mod 10)]"]) (auto simp: dec_step)
    qed
  qed
  with that show ?thesis by blast
qed

lemma sint_of_nat_pos: "n < 2 ^ 63 \<Longrightarrow> sint (of_nat n :: 64 word) = int n"
  by (simp add: signed_of_nat signed_take_bit_int_eq_self)

lemma sint_of_nat_neg: "n \<le> 2 ^ 63 \<Longrightarrow> sint (- of_nat n :: 64 word) = - int n"
proof -
  assume "n \<le> 2 ^ 63"
  have "sint (of_int (- int n) :: 64 word) = signed_take_bit 63 (- int n)"
    by (subst signed_of_int) simp
  also have "\<dots> = - int n" using \<open>n \<le> 2 ^ 63\<close> by (intro signed_take_bit_int_eq_self) auto
  finally show ?thesis by simp
qed

lemma sint_of_nat_pos_iff: "n < 2 ^ 64 \<Longrightarrow> of_nat n \<le> (of_int LLONG_MAX :: 64 word) \<longleftrightarrow> n < 2 ^ 63"
  by (simp add: word_le_nat_alt unat_of_nat) linarith

lemma sint_of_nat_neg_iff:
  "n < 2 ^ 64 \<Longrightarrow> of_nat n \<le> (of_int (- (LLONG_MIN + 1)) + 1 :: 64 word) \<longleftrightarrow> n \<le> 2 ^ 63"
  by (simp add: word_le_nat_alt unat_of_nat)

lemma length_dec_int: "in_llong x \<Longrightarrow> length (dec_int x) < 21"
proof -
  assume x: "in_llong x"
  have "length (dec (nat \<bar>x\<bar>)) \<le> 19"
  proof -
    have "nat \<bar>x\<bar> < 10 ^ 19" using x by auto
    then show ?thesis using length_dec_less [of 19 "nat \<bar>x\<bar>"] by simp
  qed
  then show ?thesis by (auto simp: dec_int_def split: if_splits)
qed

lemma string2ll_dec_int: "in_llong x \<Longrightarrow> string2ll (dec_int x) = Some x"
proof -
  assume x: "in_llong x"
  note len = length_dec_int [OF x]
  show ?thesis
  proof (cases "x = 0")
    case True
    then show ?thesis by (simp add: dec_int_def dec_small string2ll_def)
  next
    case False
    let ?n = "nat \<bar>x\<bar>"
    from False have "0 < ?n" by simp
    then obtain c p where *: "dec ?n = c # p" "49 \<le> c" "c \<le> 57" "\<forall>x \<in> set p. digit x"
      "horner (dig c) p = ?n" by (rule dec_pos)
    have c: "digit c" "c \<noteq> 45" "c \<noteq> 48" using *(2,3) by (auto simp: word_le_nat_alt)
    have n: "?n < 2 ^ 64" using x by auto
    have run: "string2ll_digits p (ucast (c - 48)) = Some (of_nat ?n, [])"
      using * c(1) n by (simp add: string2ll_digits_iff unat_ucast_dig)
    show ?thesis
    proof (cases "x < 0")
      case True
      then have "?n \<le> 2 ^ 63" "int ?n = - x" using x by auto
      with sint_of_nat_neg_iff [OF n] sint_of_nat_neg [of ?n] True run * c len show ?thesis
        by (auto simp: string2ll_def dec_int_def Let_def not_less)
    next
      case nonneg: False
      then have "?n < 2 ^ 63" "int ?n = x" using x by auto
      with sint_of_nat_pos_iff [OF n] sint_of_nat_pos [of ?n] nonneg run * c len show ?thesis
        by (auto simp: string2ll_def dec_int_def Let_def not_less)
    qed
  qed
qed

lemma string2ll_sound:
  assumes "string2ll s = Some x"
  shows "s = dec_int x \<and> in_llong x"
proof (cases "length s = 1 \<and> hd s = 48")
  case True
  then have "s = [48]" by (cases s) auto
  with assms show ?thesis by (auto simp: string2ll_def dec_int_def dec_small)
next
  case False
  define neg where "neg = (hd s = 45)"
  define p where "p = (if neg then tl s else s)"
  obtain v where p: "p \<noteq> []" "49 \<le> hd p" "hd p \<le> 57"
      and run: "string2ll_digits (tl p) (ucast (hd p - 48)) = Some (v, [])"
      and res: "if neg then v \<le> of_int (- (LLONG_MIN + 1)) + 1 \<and> x = sint (- v)
                else v \<le> of_int LLONG_MAX \<and> x = sint v"
    and s: "s \<noteq> []"
    using assms False unfolding string2ll_def Let_def neg_def p_def
    by (auto split: if_splits option.splits prod.splits list.splits simp: not_less)
  let ?n = "horner (dig (hd p)) (tl p)"
  have c: "digit (hd p)" "1 \<le> dig (hd p)"
    using p(2,3) by (auto simp: word_le_nat_alt unat_sub)
  from run c have n: "\<forall>c \<in> set (tl p). digit c" "?n < 2 ^ 64" "v = of_nat ?n"
    by (auto simp: string2ll_digits_iff unat_ucast_dig)
  have "dec ?n = hd p # tl p"
    using dec_horner [OF c(2) _ n(1)] digit_dig [OF c(1)] by simp
  then have d: "dec ?n = p" using p(1) by simp
  have pos: "1 \<le> ?n" using c(2) horner_ge [of "dig (hd p)" "tl p"] by linarith
  show ?thesis
  proof (cases neg)
    case True
    with res n(2,3) sint_of_nat_neg_iff [of ?n] sint_of_nat_neg [of ?n]
    have "?n \<le> 2 ^ 63" "x = - int ?n" by auto
    moreover from True s have "s = 45 # p" by (cases s) (auto simp: neg_def p_def)
    ultimately show ?thesis using d pos by (auto simp: dec_int_def)
  next
    case False
    with res n(2,3) sint_of_nat_pos_iff [of ?n] sint_of_nat_pos [of ?n]
    have "?n < 2 ^ 63" "x = int ?n" by auto
    moreover from False have "s = p" by (simp add: p_def)
    ultimately show ?thesis using d pos by (auto simp: dec_int_def)
  qed
qed

section \<open>Properties\<close>

text \<open>
  C1: \<open>string2ll\<close> accepts exactly the canonical decimal representations of the
  64-bit signed integers and returns the integer it read: no leading zeros, no plus
  sign, no spaces, no \<open>-0\<close>, nothing that overflows, and everything that does not.
\<close>

theorem string2ll_iff: "string2ll s = Some x \<longleftrightarrow> s = dec_int x \<and> in_llong x"
  using string2ll_sound string2ll_dec_int by blast

text \<open>
  C2: into a buffer of at least \<open>dstlen\<close> bytes, \<open>ll2string\<close> never writes out of
  bounds; it returns 0 when the text and its terminator do not fit and otherwise stores
  the canonical representation followed by a NUL byte, leaves the bytes after it
  unchanged and returns the number of characters.
\<close>

theorem ll2string_correct:
  assumes "in_llong x" "dstlen \<le> length dst"
  shows "if length (dec_int x) < dstlen
         then ll2string dst dstlen x =
           Some (dec_int x @ 0 # drop (Suc (length (dec_int x))) dst, length (dec_int x))
         else (\<exists>dst'. ll2string dst dstlen x = Some (dst', 0))"
  using assms ll2string_fits [of x dstlen dst] ll2string_too_small [of dstlen x dst] by auto

theorem ll2string_correct_witness:
  "in_llong (- 907) \<and> ll2string [1, 1, 1, 1, 1, 7] 5 (- 907) = Some ([45, 57, 48, 55, 0, 7], 4)"
  using ll2string_correct [of "- 907" 5 "[1, 1, 1, 1, 1, 7]"]
  by (simp add: dec_int_def dec.simps)

text \<open>
  C3: printing and parsing are inverse: what \<open>ll2string\<close> stores in a buffer of
  \<open>LONG_STR_SIZE\<close> (21) bytes or more, \<open>string2ll\<close> reads back.
\<close>

theorem ll2string_string2ll:
  assumes "in_llong x" "21 \<le> dstlen" "dstlen \<le> length dst"
  shows "\<exists>dst' n. ll2string dst dstlen x = Some (dst', n) \<and> 0 < n \<and> n = sdigits10 x \<and>
    string2ll (take n dst') = Some x"
proof -
  have "length (dec_int x) < dstlen" using length_dec_int [OF assms(1)] assms(2) by simp
  moreover have "sdigits10 x = length (dec_int x)"
    using llong_magnitude [of x] by (auto simp: sdigits10_def digits10_length dec_int_def)
  ultimately show ?thesis
    using ll2string_fits [of x dstlen dst] string2ll_dec_int [OF assms(1)] assms(3)
    by (auto simp: dec_int_def)
qed

theorem ll2string_string2ll_witness:
  "\<exists>dst' n. ll2string (replicate 21 0) 21 (- (2 ^ 63)) = Some (dst', n) \<and> 0 < n \<and>
     n = sdigits10 (- (2 ^ 63)) \<and> string2ll (take n dst') = Some (- (2 ^ 63))"
  by (rule ll2string_string2ll) simp_all

end
