(* ===== verification/RedisGlob.thy ===== *)
theory RedisGlob
  imports RedisPrelude
begin

text \<open>
  Glob-style pattern matching: \<open>stringmatchlen_impl\<close>, \<open>stringmatchlen\<close> and
  \<open>stringmatch\<close> of \<open>util.c\<close>, with the \<open>skipLongerMatches\<close> pruning flag threaded
  through the recursion. A pattern is the list of its bytes; the C code also looks at
  the byte after the last one, which is the NUL terminator of the sds string or of the
  C string it is given (\<open>at0\<close>). \<open>char\<close> is signed, as in the x86-64 ABI.

  The reference is the usual two-stage semantics: \<open>glob_parse\<close> splits the pattern into
  tokens, \<open>tok_match\<close> matches tokens by trying every split at a star.
\<close>

section \<open>Definitions\<close>

definition at0 :: "buffer \<Rightarrow> nat \<Rightarrow> byte" where
  "at0 p i = (if i < length p then p ! i else 0)"

definition c_tolower :: "int \<Rightarrow> int" where
  "c_tolower c = (if 65 \<le> c \<and> c \<le> 90 then c + 32 else c)"

definition same_char :: "bool \<Rightarrow> byte \<Rightarrow> byte \<Rightarrow> bool" where
  "same_char nocase a b =
     (if \<not> nocase then a = b else c_tolower (sint a) = c_tolower (sint b))"

text \<open>One range \<open>a-b\<close> of a character class.\<close>

definition in_range :: "bool \<Rightarrow> byte \<Rightarrow> byte \<Rightarrow> byte \<Rightarrow> bool" where
  "in_range nocase a b ch =
     (let start = sint a; end = sint b; c = sint ch;
          (start, end) = (if start > end then (end, start) else (start, end));
          (start, end, c) =
            (if nocase then (c_tolower start, c_tolower end, c_tolower c) else (start, end, c))
      in c \<ge> start \<and> c \<le> end)"

text \<open>
  The \<open>while(1)\<close> loop over a character class, from behind the optional \<open>^\<close>: the
  final \<open>match\<close> flag and the pattern behind the class.
\<close>

function class_loop :: "bool \<Rightarrow> byte \<Rightarrow> buffer \<Rightarrow> bool \<Rightarrow> bool \<times> buffer" where
  "class_loop nocase ch p m =
     (if at0 p 0 = 92 \<and> length p \<ge> 2 then
        class_loop nocase ch (drop 2 p) (if at0 p 1 = ch then True else m)
      else if at0 p 0 = 93 then (m, drop 1 p)
      else if length p = 0 then (m, [])
      else if length p \<ge> 3 \<and> at0 p 1 = 45 then
        class_loop nocase ch (drop 3 p) (if in_range nocase (at0 p 0) (at0 p 2) ch then True else m)
      else class_loop nocase ch (drop 1 p) (if same_char nocase (at0 p 0) ch then True else m))"
  by pat_completeness auto
termination
  by (relation "measure (\<lambda>(_, _, p, _). length p)") auto

declare class_loop.simps [simp del]

text \<open>\<open>while (patternLen && pattern[1] == '*')\<close>\<close>

fun skip_stars :: "buffer \<Rightarrow> buffer" where
  "skip_stars p = (if length p \<noteq> 0 \<and> at0 p 1 = 42 then skip_stars (drop 1 p) else p)"

text \<open>The trailing stars that are dropped once the string is used up.\<close>

definition drop_stars :: "buffer \<Rightarrow> buffer" where
  "drop_stars p = dropWhile (\<lambda>c. c = 42) p"

text \<open>
  One single-character pattern item against the character \<open>ch\<close>: \<open>None\<close> is the
  \<open>return 0\<close> of the source, \<open>Some p'\<close> goes on with the pattern behind the item.
\<close>

definition glob_step :: "bool \<Rightarrow> buffer \<Rightarrow> byte \<Rightarrow> buffer option" where
  "glob_step nocase p ch =
     (if at0 p 0 = 63 then Some (drop 1 p)
      else if at0 p 0 = 91 then
        (let p = drop 1 p;
             not = (at0 p 0 = 94);
             p = (if not then drop 1 p else p);
             (match, p) = class_loop nocase ch p False;
             match = (if not then \<not> match else match)
         in if \<not> match then None else Some p)
      else
        (let p = (if at0 p 0 = 92 \<and> length p \<ge> 2 then drop 1 p else p)
         in if \<not> same_char nocase (at0 p 0) ch then None else Some (drop 1 p)))"

lemma class_loop_length: "length (snd (class_loop nocase ch p m)) \<le> length p"
proof (induction nocase ch p m rule: class_loop.induct)
  case (1 nocase ch p m)
  show ?case
    by (subst class_loop.simps) (use 1 in \<open>auto simp: le_diff_conv\<close>)
qed

lemma glob_step_length: "p \<noteq> [] \<Longrightarrow> glob_step nocase p ch = Some p' \<Longrightarrow> length p' < length p"
  using class_loop_length [of nocase ch "drop 1 p" False] class_loop_length [of nocase ch "drop 2 p" False]
  by (cases p) (auto simp: glob_step_def Let_def split: if_splits prod.splits)

lemma skip_stars_length: "length (skip_stars p) \<le> length p"
proof (induction p rule: skip_stars.induct)
  case (1 p)
  then show ?case by (subst skip_stars.simps) (auto simp del: skip_stars.simps)
qed

lemma skip_stars_nonempty: "p \<noteq> [] \<Longrightarrow> skip_stars p \<noteq> []"
proof (induction p rule: skip_stars.induct)
  case (1 p)
  then show ?case
    by (subst skip_stars.simps) (auto simp del: skip_stars.simps simp: at0_def split: if_splits)
qed

declare skip_stars.simps [simp del]

function stringmatchlen_impl :: "bool \<Rightarrow> buffer \<Rightarrow> buffer \<Rightarrow> bool \<Rightarrow> bool \<times> bool"
  and star_loop :: "bool \<Rightarrow> buffer \<Rightarrow> buffer \<Rightarrow> bool \<Rightarrow> bool \<times> bool" where
  "stringmatchlen_impl nocase p s skip =
     (if p = [] \<or> s = [] then (p = [] \<and> s = [], skip)
      else if at0 p 0 = 42 then
        (let p = skip_stars p
         in if length p = 1 then (True, skip) else star_loop nocase (drop 1 p) s skip)
      else
        (case glob_step nocase p (at0 s 0) of
           None \<Rightarrow> (False, skip)
         | Some p \<Rightarrow>
             (let s = drop 1 s
              in if s = [] then (drop_stars p = [], skip) else stringmatchlen_impl nocase p s skip)))"
| "star_loop nocase p s skip =
     (if s = [] then (False, True)
      else
        (case stringmatchlen_impl nocase p s skip of
           (r, skip) \<Rightarrow>
             if r then (True, skip)
             else if skip then (False, skip)
             else star_loop nocase p (drop 1 s) skip))"
  by pat_completeness auto
termination
proof (relation "inv_image (less_than <*lex*> less_than <*lex*> less_than)
    (\<lambda>x. case x of Inl (_, p, s, _) \<Rightarrow> (length p, 0, length s) | Inr (_, p, s, _) \<Rightarrow> (length p, 1, length s))",
    goal_cases)
  case 1
  show ?case by auto
next
  case (2 nocase p s skip x)
  then show ?case using skip_stars_length [of p] skip_stars_nonempty [of p] by (cases p) auto
next
  case (3 nocase p s skip x2 x)
  then show ?case using glob_step_length [of p] by auto
next
  case (4 nocase p s skip)
  then show ?case by auto
next
  case 5
  then show ?case by auto
qed

declare stringmatchlen_impl.simps [simp del] star_loop.simps [simp del]

definition stringmatchlen :: "buffer \<Rightarrow> buffer \<Rightarrow> bool \<Rightarrow> bool" where
  "stringmatchlen p s nocase = fst (stringmatchlen_impl nocase p s False)"

text \<open>\<open>stringmatch\<close> works on C strings: the bytes before the first NUL.\<close>

definition stringmatch :: "buffer \<Rightarrow> buffer \<Rightarrow> bool \<Rightarrow> bool" where
  "stringmatch pattern string nocase =
     stringmatchlen (takeWhile (\<lambda>c. c \<noteq> 0) pattern) (takeWhile (\<lambda>c. c \<noteq> 0) string) nocase"

section \<open>Reference semantics\<close>

text \<open>Items of a character class: an escaped byte, a plain character, a range.\<close>

datatype item = Exact byte | Chr byte | Range byte byte

datatype tok = Star | Any | Lit byte | Class bool "item list"

function class_items :: "buffer \<Rightarrow> item list \<times> buffer" where
  "class_items p =
     (case p of
        [] \<Rightarrow> ([], [])
      | c # p1 \<Rightarrow>
          if c = 92 \<and> p1 \<noteq> [] then apfst ((#) (Exact (hd p1))) (class_items (tl p1))
          else if c = 93 then ([], p1)
          else if length p1 \<ge> 2 \<and> hd p1 = 45 then
            apfst ((#) (Range c (p1 ! 1))) (class_items (drop 2 p1))
          else apfst ((#) (Chr c)) (class_items p1))"
  by pat_completeness auto
termination
  by (relation "measure length") auto

declare class_items.simps [simp del]

lemma class_items_length: "length (snd (class_items p)) \<le> length p"
proof (induction p rule: class_items.induct)
  case (1 p)
  then show ?case
    by (subst class_items.simps) (auto simp: le_diff_conv split: list.splits)
qed

fun item_ok :: "bool \<Rightarrow> byte \<Rightarrow> item \<Rightarrow> bool" where
  "item_ok nocase ch (Exact b) = (b = ch)"
| "item_ok nocase ch (Chr b) = same_char nocase b ch"
| "item_ok nocase ch (Range a b) = in_range nocase a b ch"

fun tok_ok :: "bool \<Rightarrow> byte \<Rightarrow> tok \<Rightarrow> bool" where
  "tok_ok nocase ch Star = False"
| "tok_ok nocase ch Any = True"
| "tok_ok nocase ch (Lit b) = same_char nocase b ch"
| "tok_ok nocase ch (Class neg its) = (neg \<noteq> list_ex (item_ok nocase ch) its)"

text \<open>The first token of a non-empty pattern and the pattern behind it.\<close>

definition first_tok :: "buffer \<Rightarrow> tok \<times> buffer" where
  "first_tok p =
     (let c = hd p; p1 = tl p in
      if c = 42 then (Star, p1)
      else if c = 63 then (Any, p1)
      else if c = 91 then
        (let neg = (p1 \<noteq> [] \<and> hd p1 = 94); (its, rest) = class_items (if neg then tl p1 else p1)
         in (Class neg its, rest))
      else if c = 92 \<and> p1 \<noteq> [] then (Lit (hd p1), tl p1)
      else (Lit c, p1))"

lemma first_tok_length: "p \<noteq> [] \<Longrightarrow> length (snd (first_tok p)) < length p"
  using class_items_length [of "tl p"] class_items_length [of "tl (tl p)"]
  by (cases p) (auto simp: first_tok_def Let_def split: prod.splits)

function glob_parse :: "buffer \<Rightarrow> tok list" where
  "glob_parse p = (if p = [] then [] else fst (first_tok p) # glob_parse (snd (first_tok p)))"
  by pat_completeness auto
termination
  by (relation "measure length") (auto simp: first_tok_length)

declare glob_parse.simps [simp del]

fun tok_match :: "bool \<Rightarrow> tok list \<Rightarrow> buffer \<Rightarrow> bool" where
  "tok_match nocase [] s = (s = [])"
| "tok_match nocase (t # ts) s =
     (if t = Star then list_ex (\<lambda>i. tok_match nocase ts (drop i s)) [0..<Suc (length s)]
      else s \<noteq> [] \<and> tok_ok nocase (hd s) t \<and> tok_match nocase ts (tl s))"

section \<open>Equivalence\<close>

lemma class_loop_items:
  "class_loop nocase ch p m =
     (m \<or> list_ex (item_ok nocase ch) (fst (class_items p)), snd (class_items p))"
proof (induction nocase ch p m rule: class_loop.induct)
  case (1 nocase ch p m)
  show ?case
  proof (cases p)
    case Nil
    then show ?thesis by (simp add: class_loop.simps class_items.simps at0_def)
  next
    case (Cons c p1)
    note eqs = class_loop.simps [of nocase ch "x # p1" m for x] class_items.simps [of "x # p1" for x] at0_def Cons
    have len: "length p \<ge> 2 \<longleftrightarrow> p1 \<noteq> []" "length p \<ge> 3 \<longleftrightarrow> length p1 \<ge> 2"
      using Cons by (cases p1; auto)+
    have hd: "p1 \<noteq> [] \<Longrightarrow> at0 p 1 = hd p1" "drop 2 p = tl p1" "drop 3 p = drop 2 p1"
      using Cons by (cases p1; auto simp: at0_def drop_Suc numeral_2_eq_2 numeral_3_eq_3)+
    consider (exact) "c = 92" "p1 \<noteq> []" | (stop) "c = 93"
      | (range) "\<not> (c = 92 \<and> p1 \<noteq> [])" "c \<noteq> 93" "length p1 \<ge> 2" "hd p1 = 45"
      | (chr) "\<not> (c = 92 \<and> p1 \<noteq> [])" "c \<noteq> 93" "\<not> (length p1 \<ge> 2 \<and> hd p1 = 45)"
      by blast
    then show ?thesis
    proof cases
      case exact
      then show ?thesis using 1(1) len hd Cons by (simp add: eqs)
    next
      case stop
      then show ?thesis by (simp add: eqs)
    next
      case range
      have "p1 \<noteq> []" using range by auto
      with range show ?thesis using 1(2) len hd Cons by (simp add: eqs)
    next
      case chr
      then show ?thesis using 1(3) len hd Cons by (cases "p1 = []") (auto simp: eqs class_loop.simps [of nocase ch "[x]" m for x] class_items.simps [of "[x]" for x])
    qed
  qed
qed

lemma glob_step_first_tok:
  assumes "p \<noteq> []" "hd p \<noteq> 42"
  shows "fst (first_tok p) \<noteq> Star"
    and "glob_step nocase p ch =
      (if tok_ok nocase ch (fst (first_tok p)) then Some (snd (first_tok p)) else None)"
  using assms
  by (cases p; cases "tl p";
      auto simp: glob_step_def first_tok_def Let_def class_loop_items at0_def
        split: prod.splits if_splits)+

lemma glob_parse_Nil [simp]: "glob_parse [] = []"
  by (simp add: glob_parse.simps)

lemma glob_parse_star [simp]: "glob_parse (42 # p) = Star # glob_parse p"
  by (subst glob_parse.simps) (simp add: first_tok_def)

lemma glob_parse_other:
  "p \<noteq> [] \<Longrightarrow> glob_parse p = fst (first_tok p) # glob_parse (snd (first_tok p))"
  by (simp add: glob_parse.simps [of p])

lemma tok_match_Star:
  "tok_match nocase (Star # ts) s \<longleftrightarrow> (\<exists>i. tok_match nocase ts (drop i s))"
proof
  assume "tok_match nocase (Star # ts) s"
  then show "\<exists>i. tok_match nocase ts (drop i s)"
    by (simp add: list_ex_iff del: upt_Suc) blast
next
  assume "\<exists>i. tok_match nocase ts (drop i s)"
  then obtain i where "tok_match nocase ts (drop i s)" by blast
  then have "tok_match nocase ts (drop (min i (length s)) s)"
    by (cases "i \<le> length s") (auto simp: min_def)
  then show "tok_match nocase (Star # ts) s"
    by (simp add: list_ex_iff del: upt_Suc) (rule bexI [of _ "min i (length s)"], auto)
qed

lemma tok_match_other:
  "t \<noteq> Star \<Longrightarrow> tok_match nocase (t # ts) s \<longleftrightarrow>
     s \<noteq> [] \<and> tok_ok nocase (hd s) t \<and> tok_match nocase ts (tl s)"
  by simp

declare tok_match.simps(2) [simp del]

lemma drop_stars_match: "drop_stars p = [] \<longleftrightarrow> tok_match nocase (glob_parse p) []"
proof (induction p)
  case Nil
  then show ?case by (simp add: drop_stars_def)
next
  case (Cons c p)
  show ?case
  proof (cases "c = 42")
    case True
    with Cons show ?thesis by (simp add: drop_stars_def tok_match_Star)
  next
    case False
    then show ?thesis
      using glob_step_first_tok(1) [of "c # p"]
      by (simp add: drop_stars_def glob_parse_other tok_match_other)
  qed
qed

lemma skip_stars_match:
  "p \<noteq> [] \<Longrightarrow> hd p = 42 \<Longrightarrow>
     \<exists>r. skip_stars p = 42 # r \<and> (r = [] \<or> hd r \<noteq> 42) \<and>
       (\<forall>s. tok_match nocase (glob_parse p) s = tok_match nocase (Star # glob_parse r) s)"
proof (induction p rule: skip_stars.induct)
  case (1 p)
  then obtain p1 where p: "p = 42 # p1" by (cases p) auto
  show ?case
  proof (cases "at0 p 1 = 42")
    case False
    with p show ?thesis
      by (subst skip_stars.simps) (cases p1, auto simp: at0_def)
  next
    case True
    with p have p1: "p1 \<noteq> []" "hd p1 = 42" by (cases p1; simp add: at0_def)+
    with "1.IH" True p obtain r where r: "skip_stars p1 = 42 # r" "r = [] \<or> hd r \<noteq> 42"
      "\<forall>s. tok_match nocase (glob_parse p1) s = tok_match nocase (Star # glob_parse r) s"
      by auto
    have "tok_match nocase (glob_parse p) s = tok_match nocase (Star # glob_parse r) s" for s
      using r(3) p by (simp add: tok_match_Star) (metis add_0)
    moreover have "skip_stars p = 42 # r"
      using r(1) p True by (subst skip_stars.simps) simp
    ultimately show ?thesis using r(2) by blast
  qed
qed

lemma no_suffix_other:
  assumes "t \<noteq> Star" "\<forall>i. \<not> tok_match nocase ts (drop i (tl s))"
  shows "\<not> tok_match nocase (t # ts) (drop i s)"
  using assms by (simp add: tok_match_other tl_drop)

lemma stringmatchlen_impl_correct:
  "s \<noteq> [] \<Longrightarrow> \<not> skip \<Longrightarrow> stringmatchlen_impl nocase p s skip = (b, k) \<Longrightarrow>
     b = tok_match nocase (glob_parse p) s \<and>
     (k \<longrightarrow> (\<forall>i. \<not> tok_match nocase (glob_parse p) (drop i s)))"
  "p \<noteq> [] \<Longrightarrow> hd p \<noteq> 42 \<Longrightarrow> \<not> skip \<Longrightarrow> star_loop nocase p s skip = (b, k) \<Longrightarrow>
     b = tok_match nocase (Star # glob_parse p) s \<and>
     (k \<longrightarrow> (\<forall>i. \<not> tok_match nocase (glob_parse p) (drop i s)))"
proof (induction nocase p s skip and nocase p s skip arbitrary: b k and b k
    rule: stringmatchlen_impl_star_loop.induct)
  case (1 nocase p s skip)
  consider (nil) "p = []" | (star) "p \<noteq> []" "hd p = 42" | (other) "p \<noteq> []" "hd p \<noteq> 42" by blast
  then show ?case
  proof cases
    case nil
    with "1.prems" show ?thesis by (auto simp: stringmatchlen_impl.simps)
  next
    case star
    from skip_stars_match [OF star, of nocase] obtain r where
      r: "skip_stars p = 42 # r" "r = [] \<or> hd r \<noteq> 42"
        "\<And>s. tok_match nocase (glob_parse p) s = tok_match nocase (Star # glob_parse r) s"
      by blast
    have at0: "at0 p 0 = 42" using star by (cases p) (auto simp: at0_def)
    show ?thesis
    proof (cases "r = []")
      case True
      then have "\<And>s. tok_match nocase (glob_parse p) s"
        using r(3) tok_match_Star [of nocase "[]"] by (auto intro: exI [of _ "length _"])
      with True star r(1) at0 "1.prems" show ?thesis
        by (simp add: stringmatchlen_impl.simps [of nocase p s])
    next
      case False
      with star r(1) at0 "1.prems" have "star_loop nocase r s skip = (b, k)"
        by (simp add: stringmatchlen_impl.simps [of nocase p s])
      with "1.IH"(1) [of "skip_stars p" b k] False star r at0 "1.prems"
      have "b = tok_match nocase (Star # glob_parse r) s \<and>
          (k \<longrightarrow> (\<forall>i. \<not> tok_match nocase (glob_parse r) (drop i s)))"
        by simp
      then show ?thesis using r(3) by (auto simp: tok_match_Star)
    qed
  next
    case other
    let ?t = "fst (first_tok p)" and ?p = "snd (first_tok p)"
    have at0: "at0 p 0 \<noteq> 42" "at0 s 0 = hd s"
      using other "1.prems"(1) by (cases p; cases s; auto simp: at0_def)+
    have t: "?t \<noteq> Star" and parse: "glob_parse p = ?t # glob_parse ?p"
      using other glob_step_first_tok(1) glob_parse_other by auto
    show ?thesis
    proof (cases "tok_ok nocase (hd s) ?t")
      case False
      with "1.prems" other at0 t parse show ?thesis
        by (auto simp: stringmatchlen_impl.simps [of nocase p s] glob_step_first_tok tok_match_other)
    next
      case ok: True
      show ?thesis
      proof (cases "tl s = []")
        case True
        with ok "1.prems" other at0 t parse show ?thesis
          by (auto simp: stringmatchlen_impl.simps [of nocase p s] glob_step_first_tok
              tok_match_other drop_stars_match [of _ nocase] drop_Suc)
      next
        case False
        with ok "1.prems" other at0 have "stringmatchlen_impl nocase ?p (tl s) skip = (b, k)"
          by (simp add: stringmatchlen_impl.simps [of nocase p s] glob_step_first_tok drop_Suc)
        with "1.IH"(2) [of ?p "tl s" b k] False ok other at0 "1.prems"
        have "b = tok_match nocase (glob_parse ?p) (tl s) \<and>
            (k \<longrightarrow> (\<forall>i. \<not> tok_match nocase (glob_parse ?p) (drop i (tl s))))"
          by (simp add: glob_step_first_tok drop_Suc)
        then show ?thesis
          using t parse ok "1.prems"(1) no_suffix_other [OF t] by (auto simp: tok_match_other)
      qed
    qed
  qed
next
  case (2 nocase p s skip)
  have no_nil: "\<not> tok_match nocase (glob_parse p) []"
    using glob_parse_other [OF "2.prems"(1)] glob_step_first_tok(1) [OF "2.prems"(1,2)]
    by (simp add: tok_match_other)
  show ?case
  proof (cases "s = []")
    case True
    with "2.prems" no_nil show ?thesis by (auto simp: star_loop.simps tok_match_Star)
  next
    case False
    obtain r k' where run: "stringmatchlen_impl nocase p s skip = (r, k')" by fastforce
    with "2.IH"(1) [of r k'] False "2.prems"(3)
    have IH: "r = tok_match nocase (glob_parse p) s"
      "k' \<Longrightarrow> \<forall>i. \<not> tok_match nocase (glob_parse p) (drop i s)"
      by auto
    have split: "tok_match nocase (Star # glob_parse p) s \<longleftrightarrow>
        tok_match nocase (glob_parse p) s \<or> tok_match nocase (Star # glob_parse p) (tl s)"
      unfolding tok_match_Star by (metis drop0 drop_Suc not0_implies_Suc)
    show ?thesis
    proof (cases "r \<or> k'")
      case True
      with run False "2.prems" IH split show ?thesis
        by (auto simp: star_loop.simps [of nocase p s] tok_match_Star split: if_splits)
    next
      case cont: False
      with run False "2.prems" have "star_loop nocase p (tl s) k' = (b, k)"
        by (simp add: star_loop.simps [of nocase p s] drop_Suc)
      with "2.IH"(2) run cont False "2.prems"
      have "b = tok_match nocase (Star # glob_parse p) (tl s) \<and>
          (k \<longrightarrow> (\<forall>i. \<not> tok_match nocase (glob_parse p) (drop i (tl s))))"
        by (simp add: drop_Suc)
      then show ?thesis
        using cont IH(1) split by (metis drop0 drop_Suc not0_implies_Suc)
    qed
  qed
qed

text \<open>
  C4: on a non-empty string, the matcher with its pruning of longer matches decides
  exactly the reference semantics of the pattern; an empty string is matched by the
  empty pattern only.
\<close>

theorem stringmatchlen_correct:
  "stringmatchlen p s nocase =
     (if s = [] then p = [] else tok_match nocase (glob_parse p) s)"
proof (cases "s = []")
  case True
  then show ?thesis by (simp add: stringmatchlen_def stringmatchlen_impl.simps)
next
  case False
  obtain b k where "stringmatchlen_impl nocase p s False = (b, k)" by fastforce
  with stringmatchlen_impl_correct(1) [OF False, of False nocase p b k] False show ?thesis
    by (simp add: stringmatchlen_def)
qed

end
