(* ===== verification/RedisDict.thy ===== *)
theory RedisDict
  imports RedisPrelude "HOL-Library.Multiset"
begin

unbundle bit_operations_syntax

text \<open>
  The hash table with incremental rehashing of \<open>dict.c\<close> and \<open>dict.h\<close>.

  A bucket is the list of the entries of its chain, first entry first; a table is the
  list of its buckets, and \<open>None\<close> is the \<open>NULL\<close> table. The two-element arrays of
  \<open>struct dict\<close> are functions of the table number. The result \<open>None\<close> of an operation
  is a dereferenced null pointer, an access outside a table or a failed assertion. A
  pointer to an entry is its position: table, bucket and place in the chain.

  The callbacks of \<open>dictType\<close> are fields of a record, \<open>dict_can_resize\<close> is an argument,
  and the entry's value before \<open>dictSetVal\<close> (uninitialised memory) is an argument, too.
  Duplication and destruction of keys and values are memory management and leave no
  trace in the model.
\<close>

section \<open>Data\<close>

record 'k dictType =
  hashFunction :: "'k \<Rightarrow> 64 word"
  keyCompare :: "('k \<Rightarrow> 'k \<Rightarrow> bool) option"
  expandAllowed :: "(nat \<Rightarrow> rat \<Rightarrow> bool) option"

datatype dictResizeEnable = DICT_RESIZE_ENABLE | DICT_RESIZE_AVOID | DICT_RESIZE_FORBID

type_synonym ('k, 'v) chain = "('k \<times> 'v) list"
type_synonym ('k, 'v) table = "('k, 'v) chain list"
type_synonym eref = "nat \<times> nat \<times> nat"

record ('k, 'v) dict =
  ht_table :: "nat \<Rightarrow> ('k, 'v) table option"
  ht_used :: "nat \<Rightarrow> nat"
  rehashidx :: int
  pauserehash :: int
  ht_size_exp :: "nat \<Rightarrow> int"

definition dict_force_resize_ratio :: nat where "dict_force_resize_ratio = 5"
definition DICT_HT_INITIAL_EXP :: nat where "DICT_HT_INITIAL_EXP = 2"
definition DICT_HT_INITIAL_SIZE :: nat where "DICT_HT_INITIAL_SIZE = 2 ^ DICT_HT_INITIAL_EXP"

definition DICTHT_SIZE :: "int \<Rightarrow> nat" where
  "DICTHT_SIZE e = (if e = - 1 then 0 else 2 ^ nat e)"

definition DICTHT_SIZE_MASK :: "int \<Rightarrow> 64 word" where
  "DICTHT_SIZE_MASK e = (if e = - 1 then 0 else of_nat (DICTHT_SIZE e) - 1)"

definition dictIsRehashing :: "('k, 'v) dict \<Rightarrow> bool" where
  "dictIsRehashing d \<longleftrightarrow> rehashidx d \<noteq> - 1"

definition dictSize :: "('k, 'v) dict \<Rightarrow> nat" where
  "dictSize d = ht_used d 0 + ht_used d 1"

definition dictSlots :: "('k, 'v) dict \<Rightarrow> nat" where
  "dictSlots d = DICTHT_SIZE (ht_size_exp d 0) + DICTHT_SIZE (ht_size_exp d 1)"

text \<open>\<open>key == he->key || dictCompareKeys(d, key, he->key)\<close>\<close>

definition dictKeyMatch :: "'k dictType \<Rightarrow> 'k \<Rightarrow> 'k \<Rightarrow> bool" where
  "dictKeyMatch T key k =
     (key = k \<or> (case keyCompare T of None \<Rightarrow> key = k | Some cmp \<Rightarrow> cmp key k))"

text \<open>\<open>h & DICTHT_SIZE_MASK(exp)\<close>\<close>

definition slot :: "64 word \<Rightarrow> int \<Rightarrow> nat" where
  "slot h e = unat (h AND DICTHT_SIZE_MASK e)"

text \<open>Reading and writing \<open>d->ht_table[t][i]\<close>, incrementing and decrementing \<open>d->ht_used[t]\<close>.\<close>

definition get_bucket :: "('k, 'v) dict \<Rightarrow> nat \<Rightarrow> nat \<Rightarrow> ('k, 'v) chain option" where
  "get_bucket d t i = do { tbl \<leftarrow> ht_table d t; rd tbl (int i) }"

definition set_bucket ::
  "('k, 'v) dict \<Rightarrow> nat \<Rightarrow> nat \<Rightarrow> ('k, 'v) chain \<Rightarrow> ('k, 'v) dict option" where
  "set_bucket d t i b = do {
     tbl \<leftarrow> ht_table d t;
     tbl \<leftarrow> wr tbl (int i) b;
     Some (d\<lparr>ht_table := (ht_table d)(t := Some tbl)\<rparr>)
   }"

definition inc_used :: "('k, 'v) dict \<Rightarrow> nat \<Rightarrow> ('k, 'v) dict" where
  "inc_used d t = d\<lparr>ht_used := (ht_used d)(t := ht_used d t + 1)\<rparr>"

definition dec_used :: "('k, 'v) dict \<Rightarrow> nat \<Rightarrow> ('k, 'v) dict" where
  "dec_used d t = d\<lparr>ht_used := (ht_used d)(t := if ht_used d t = 0 then 2 ^ 64 - 1 else ht_used d t - 1)\<rparr>"

section \<open>Creation, expansion\<close>

definition dictReset :: "('k, 'v) dict \<Rightarrow> nat \<Rightarrow> ('k, 'v) dict" where
  "dictReset d htidx =
     d\<lparr>ht_table := (ht_table d)(htidx := None),
       ht_size_exp := (ht_size_exp d)(htidx := - 1),
       ht_used := (ht_used d)(htidx := 0)\<rparr>"

text \<open>\<open>dictCreate\<close> initialises freshly allocated memory, whose contents is \<open>d\<close>.\<close>

definition dictInit :: "('k, 'v) dict \<Rightarrow> ('k, 'v) dict" where
  "dictInit d = (dictReset (dictReset d 0) 1)\<lparr>rehashidx := - 1, pauserehash := 0\<rparr>"

function next_exp_loop :: "nat \<Rightarrow> nat \<Rightarrow> nat" where
  "next_exp_loop e sz = (if 2 ^ e \<ge> sz then e else next_exp_loop (e + 1) sz)"
  by pat_completeness auto
termination
proof (relation "measure (\<lambda>(e, sz). sz - e)", simp)
  fix e sz :: nat
  assume "\<not> sz \<le> 2 ^ e"
  then have "e < sz" using less_exp [of e] by linarith
  then show "((e + 1, sz), e, sz) \<in> measure (\<lambda>(e, sz). sz - e)" by simp
qed

declare next_exp_loop.simps [simp del]

definition dictNextExp :: "nat \<Rightarrow> int" where
  "dictNextExp sz =
     (if sz \<ge> 2 ^ 63 - 1 then 8 * 8 - 1 else int (next_exp_loop DICT_HT_INITIAL_EXP sz))"

text \<open>
  \<open>_dictExpand\<close>: \<open>malloc_failed = None\<close> is the null pointer; \<open>Some ok\<close> asks for
  \<open>ztrycalloc\<close>, which succeeds when \<open>ok\<close>. The result is the dictionary, whether
  \<open>DICT_OK\<close> was returned, and \<open>*malloc_failed\<close>.
\<close>

definition dictExpand_gen ::
  "('k, 'v) dict \<Rightarrow> nat \<Rightarrow> bool option \<Rightarrow> ('k, 'v) dict \<times> bool \<times> bool" where
  "dictExpand_gen d sz malloc_failed =
     (if dictIsRehashing d \<or> ht_used d 0 > sz then (d, False, False)
      else
        (let new_ht_size_exp = dictNextExp sz;
             newsize = (2 ^ nat new_ht_size_exp) :: nat
         in if newsize < sz \<or> (newsize * 8) mod 2 ^ 64 < newsize then (d, False, False)
            else if new_ht_size_exp = ht_size_exp d 0 then (d, False, False)
            else if malloc_failed = Some False then (d, False, True)
            else
              (let new_ht_table = replicate newsize [] in
               if ht_table d 0 = None then
                 (d\<lparr>ht_size_exp := (ht_size_exp d)(0 := new_ht_size_exp),
                    ht_used := (ht_used d)(0 := 0),
                    ht_table := (ht_table d)(0 := Some new_ht_table)\<rparr>, True, False)
               else
                 (d\<lparr>ht_size_exp := (ht_size_exp d)(1 := new_ht_size_exp),
                    ht_used := (ht_used d)(1 := 0),
                    ht_table := (ht_table d)(1 := Some new_ht_table),
                    rehashidx := 0\<rparr>, True, False))))"

definition dictExpand :: "('k, 'v) dict \<Rightarrow> nat \<Rightarrow> ('k, 'v) dict \<times> bool" where
  "dictExpand d sz = (case dictExpand_gen d sz None of (d, ok, _) \<Rightarrow> (d, ok))"

definition dictTryExpand :: "('k, 'v) dict \<Rightarrow> nat \<Rightarrow> bool \<Rightarrow> ('k, 'v) dict \<times> bool" where
  "dictTryExpand d sz alloc_ok =
     (case dictExpand_gen d sz (Some alloc_ok) of (d, _, malloc_failed) \<Rightarrow> (d, \<not> malloc_failed))"

definition dictResize :: "dictResizeEnable \<Rightarrow> ('k, 'v) dict \<Rightarrow> ('k, 'v) dict \<times> bool" where
  "dictResize can_resize d =
     (if can_resize \<noteq> DICT_RESIZE_ENABLE \<or> dictIsRehashing d then (d, False)
      else
        (let minimal = ht_used d 0;
             minimal = (if minimal < DICT_HT_INITIAL_SIZE then DICT_HT_INITIAL_SIZE else minimal)
         in dictExpand d minimal))"

definition dictTypeExpandAllowed :: "'k dictType \<Rightarrow> ('k, 'v) dict \<Rightarrow> bool" where
  "dictTypeExpandAllowed T d =
     (case expandAllowed T of
        None \<Rightarrow> True
      | Some f \<Rightarrow>
          f (DICTHT_SIZE (dictNextExp (ht_used d 0 + 1)) * 8)
            (of_nat (ht_used d 0) / of_nat (DICTHT_SIZE (ht_size_exp d 0))))"

definition dictExpandIfNeeded ::
  "dictResizeEnable \<Rightarrow> 'k dictType \<Rightarrow> ('k, 'v) dict \<Rightarrow> ('k, 'v) dict \<times> bool" where
  "dictExpandIfNeeded can_resize T d =
     (if dictIsRehashing d then (d, True)
      else if DICTHT_SIZE (ht_size_exp d 0) = 0 then dictExpand d DICT_HT_INITIAL_SIZE
      else if \<not> dictTypeExpandAllowed T d then (d, True)
      else if (can_resize = DICT_RESIZE_ENABLE \<and> ht_used d 0 \<ge> DICTHT_SIZE (ht_size_exp d 0)) \<or>
              (can_resize \<noteq> DICT_RESIZE_FORBID \<and>
               ht_used d 0 div DICTHT_SIZE (ht_size_exp d 0) > dict_force_resize_ratio)
      then dictExpand d (ht_used d 0 + 1)
      else (d, True))"

section \<open>Incremental rehashing\<close>

text \<open>
  The search for the next non-empty bucket of table 0: whether the budget of empty
  buckets ran out, the bucket index, the remaining budget.
\<close>

function rehash_skip :: "('k, 'v) table \<Rightarrow> nat \<Rightarrow> int \<Rightarrow> (bool \<times> nat \<times> int) option" where
  "rehash_skip tbl idx empty_visits = do {
     b \<leftarrow> rd tbl (int idx);
     if b = [] then
       (if empty_visits - 1 = 0 then Some (True, idx + 1, empty_visits - 1)
        else rehash_skip tbl (idx + 1) (empty_visits - 1))
     else Some (False, idx, empty_visits)
   }"
  by pat_completeness auto
termination
  by (relation "measure (\<lambda>(tbl, idx, _). length tbl - idx)") (auto simp: rd_def split: if_splits)

declare rehash_skip.simps [simp del]

text \<open>Moving the chain of one bucket to table 1, entry by entry.\<close>

fun rehash_move :: "'k dictType \<Rightarrow> ('k, 'v) chain \<Rightarrow> ('k, 'v) dict \<Rightarrow> ('k, 'v) dict option" where
  "rehash_move T [] d = Some d"
| "rehash_move T (e # es) d = do {
     let h = slot (hashFunction T (fst e)) (ht_size_exp d 1);
     b \<leftarrow> get_bucket d 1 h;
     d \<leftarrow> set_bucket d 1 h (e # b);
     rehash_move T es (inc_used (dec_used d 0) 1)
   }"

text \<open>The \<open>while(n-- && ...)\<close> loop; the flag says that it returned 1 from inside.\<close>

fun rehash_loop :: "'k dictType \<Rightarrow> nat \<Rightarrow> int \<Rightarrow> ('k, 'v) dict \<Rightarrow> (('k, 'v) dict \<times> bool) option" where
  "rehash_loop T 0 empty_visits d = Some (d, False)"
| "rehash_loop T (Suc n) empty_visits d =
     (if ht_used d 0 = 0 then Some (d, False)
      else if \<not> int (DICTHT_SIZE (ht_size_exp d 0)) > rehashidx d \<or> rehashidx d < 0 then None
      else do {
        tbl \<leftarrow> ht_table d 0;
        (out, idx, empty_visits) \<leftarrow> rehash_skip tbl (nat (rehashidx d)) empty_visits;
        if out then Some (d\<lparr>rehashidx := int idx\<rparr>, True)
        else do {
          de \<leftarrow> get_bucket d 0 idx;
          d \<leftarrow> rehash_move T de d;
          d \<leftarrow> set_bucket d 0 idx [];
          rehash_loop T n empty_visits (d\<lparr>rehashidx := int idx + 1\<rparr>)
        }
      })"

text \<open>
  \<open>dictRehash\<close>. The quotients of \<open>DICT_RESIZE_AVOID\<close> trap when the divisor is 0.
\<close>

definition dictRehash ::
  "dictResizeEnable \<Rightarrow> 'k dictType \<Rightarrow> ('k, 'v) dict \<Rightarrow> nat \<Rightarrow> (('k, 'v) dict \<times> bool) option" where
  "dictRehash can_resize T d n =
     (let s0 = DICTHT_SIZE (ht_size_exp d 0); s1 = DICTHT_SIZE (ht_size_exp d 1) in
      if can_resize = DICT_RESIZE_FORBID \<or> \<not> dictIsRehashing d then Some (d, False)
      else if can_resize = DICT_RESIZE_AVOID \<and> s0 \<noteq> s1 \<and> min s0 s1 = 0 then None
      else if can_resize = DICT_RESIZE_AVOID \<and>
              ((s1 > s0 \<and> s1 div s0 < dict_force_resize_ratio) \<or>
               (s1 < s0 \<and> s0 div s1 < dict_force_resize_ratio)) then Some (d, False)
      else do {
        (d, out) \<leftarrow> rehash_loop T n (int n * 10) d;
        if out then Some (d, True)
        else if ht_used d 0 = 0 then
          Some ((dictReset
             (d\<lparr>ht_table := (ht_table d)(0 := ht_table d 1),
                ht_used := (ht_used d)(0 := ht_used d 1),
                ht_size_exp := (ht_size_exp d)(0 := ht_size_exp d 1)\<rparr>) 1)\<lparr>rehashidx := - 1\<rparr>, False)
        else Some (d, True)
      })"

definition dictRehashStep ::
  "dictResizeEnable \<Rightarrow> 'k dictType \<Rightarrow> ('k, 'v) dict \<Rightarrow> ('k, 'v) dict option" where
  "dictRehashStep can_resize T d =
     (if pauserehash d = 0 then map_option fst (dictRehash can_resize T d 1) else Some d)"

text \<open>\<open>if (dictIsRehashing(d)) _dictRehashStep(d);\<close> of the accessors.\<close>

definition rehash_tick ::
  "dictResizeEnable \<Rightarrow> 'k dictType \<Rightarrow> ('k, 'v) dict \<Rightarrow> ('k, 'v) dict option" where
  "rehash_tick can_resize T d =
     (if dictIsRehashing d then dictRehashStep can_resize T d else Some d)"

section \<open>Lookup, insertion, deletion\<close>

text \<open>The position of a key in a chain.\<close>

fun chain_find :: "'k dictType \<Rightarrow> 'k \<Rightarrow> ('k, 'v) chain \<Rightarrow> nat option" where
  "chain_find T key [] = None"
| "chain_find T key (e # es) =
     (if dictKeyMatch T key (fst e) then Some 0 else map_option Suc (chain_find T key es))"

text \<open>
  The loop \<open>for (table = 0; table <= 1; table++)\<close> shared by \<open>dictFind\<close>,
  \<open>_dictKeyIndex\<close> and \<open>dictGenericDelete\<close>: the entry found, and the last \<open>idx\<close>.
\<close>

definition find_tables ::
  "'k dictType \<Rightarrow> ('k, 'v) dict \<Rightarrow> 'k \<Rightarrow> 64 word \<Rightarrow> (eref option \<times> nat) option" where
  "find_tables T d key h = do {
     let idx0 = slot h (ht_size_exp d 0);
     b0 \<leftarrow> get_bucket d 0 idx0;
     case chain_find T key b0 of
       Some j \<Rightarrow> Some (Some (0, idx0, j), idx0)
     | None \<Rightarrow>
         if \<not> dictIsRehashing d then Some (None, idx0)
         else do {
           let idx1 = slot h (ht_size_exp d 1);
           b1 \<leftarrow> get_bucket d 1 idx1;
           case chain_find T key b1 of
             Some j \<Rightarrow> Some (Some (1, idx1, j), idx1)
           | None \<Rightarrow> Some (None, idx1)
         }
   }"

definition dictFind ::
  "dictResizeEnable \<Rightarrow> 'k dictType \<Rightarrow> ('k, 'v) dict \<Rightarrow> 'k \<Rightarrow> (('k, 'v) dict \<times> eref option) option" where
  "dictFind can_resize T d key =
     (if dictSize d = 0 then Some (d, None)
      else do {
        d \<leftarrow> rehash_tick can_resize T d;
        (r, _) \<leftarrow> find_tables T d key (hashFunction T key);
        Some (d, r)
      })"

text \<open>Dereferencing an entry pointer.\<close>

definition entry_at :: "('k, 'v) dict \<Rightarrow> eref \<Rightarrow> ('k \<times> 'v) option" where
  "entry_at d r = (case r of (t, i, j) \<Rightarrow> do { b \<leftarrow> get_bucket d t i; rd b (int j) })"

definition dictFetchValue ::
  "dictResizeEnable \<Rightarrow> 'k dictType \<Rightarrow> ('k, 'v) dict \<Rightarrow> 'k \<Rightarrow> (('k, 'v) dict \<times> 'v option) option" where
  "dictFetchValue can_resize T d key = do {
     (d, r) \<leftarrow> dictFind can_resize T d key;
     case r of
       None \<Rightarrow> Some (d, None)
     | Some r \<Rightarrow> do { e \<leftarrow> entry_at d r; Some (d, Some (snd e)) }
   }"

definition dictSetVal :: "('k, 'v) dict \<Rightarrow> eref \<Rightarrow> 'v \<Rightarrow> ('k, 'v) dict option" where
  "dictSetVal d r v = (case r of (t, i, j) \<Rightarrow> do {
     b \<leftarrow> get_bucket d t i;
     e \<leftarrow> rd b (int j);
     b \<leftarrow> wr b (int j) (fst e, v);
     set_bucket d t i b
   })"

text \<open>\<open>_dictKeyIndex\<close>: the index or -1, and \<open>*existing\<close>.\<close>

definition dictKeyIndex ::
  "dictResizeEnable \<Rightarrow> 'k dictType \<Rightarrow> ('k, 'v) dict \<Rightarrow> 'k \<Rightarrow> 64 word \<Rightarrow>
    (('k, 'v) dict \<times> int \<times> eref option) option" where
  "dictKeyIndex can_resize T d key hash =
     (case dictExpandIfNeeded can_resize T d of
        (d, False) \<Rightarrow> Some (d, - 1, None)
      | (d, True) \<Rightarrow> do {
          (r, idx) \<leftarrow> find_tables T d key hash;
          case r of
            Some he \<Rightarrow> Some (d, - 1, Some he)
          | None \<Rightarrow> Some (d, int idx, None)
        })"

text \<open>\<open>dictAddRaw\<close>: the new entry (with the value \<open>v0\<close> of its fresh memory) and \<open>*existing\<close>.\<close>

definition dictAddRaw ::
  "dictResizeEnable \<Rightarrow> 'k dictType \<Rightarrow> 'v \<Rightarrow> ('k, 'v) dict \<Rightarrow> 'k \<Rightarrow>
    (('k, 'v) dict \<times> eref option \<times> eref option) option" where
  "dictAddRaw can_resize T v0 d key = do {
     d \<leftarrow> rehash_tick can_resize T d;
     (d, index, existing) \<leftarrow> dictKeyIndex can_resize T d key (hashFunction T key);
     if index = - 1 then Some (d, None, existing)
     else do {
       let htidx = (if dictIsRehashing d then 1 else 0);
       b \<leftarrow> get_bucket d htidx (nat index);
       d \<leftarrow> set_bucket d htidx (nat index) ((key, v0) # b);
       Some (inc_used d htidx, Some (htidx, nat index, 0), None)
     }
   }"

definition dictAdd ::
  "dictResizeEnable \<Rightarrow> 'k dictType \<Rightarrow> 'v \<Rightarrow> ('k, 'v) dict \<Rightarrow> 'k \<Rightarrow> 'v \<Rightarrow>
    (('k, 'v) dict \<times> bool) option" where
  "dictAdd can_resize T v0 d key val = do {
     (d, entry, _) \<leftarrow> dictAddRaw can_resize T v0 d key;
     case entry of
       None \<Rightarrow> Some (d, False)
     | Some e \<Rightarrow> do { d \<leftarrow> dictSetVal d e val; Some (d, True) }
   }"

definition dictReplace ::
  "dictResizeEnable \<Rightarrow> 'k dictType \<Rightarrow> 'v \<Rightarrow> ('k, 'v) dict \<Rightarrow> 'k \<Rightarrow> 'v \<Rightarrow>
    (('k, 'v) dict \<times> bool) option" where
  "dictReplace can_resize T v0 d key val = do {
     (d, entry, existing) \<leftarrow> dictAddRaw can_resize T v0 d key;
     case entry of
       Some e \<Rightarrow> do { d \<leftarrow> dictSetVal d e val; Some (d, True) }
     | None \<Rightarrow> do { e \<leftarrow> existing; d \<leftarrow> dictSetVal d e val; Some (d, False) }
   }"

definition dictAddOrFind ::
  "dictResizeEnable \<Rightarrow> 'k dictType \<Rightarrow> 'v \<Rightarrow> ('k, 'v) dict \<Rightarrow> 'k \<Rightarrow>
    (('k, 'v) dict \<times> eref option) option" where
  "dictAddOrFind can_resize T v0 d key = do {
     (d, entry, existing) \<leftarrow> dictAddRaw can_resize T v0 d key;
     Some (d, case entry of Some e \<Rightarrow> Some e | None \<Rightarrow> existing)
   }"

text \<open>\<open>dictGenericDelete\<close>: the dictionary and the unlinked entry.\<close>

definition dictGenericDelete ::
  "dictResizeEnable \<Rightarrow> 'k dictType \<Rightarrow> ('k, 'v) dict \<Rightarrow> 'k \<Rightarrow>
    (('k, 'v) dict \<times> ('k \<times> 'v) option) option" where
  "dictGenericDelete can_resize T d key =
     (if dictSize d = 0 then Some (d, None)
      else do {
        d \<leftarrow> rehash_tick can_resize T d;
        (r, _) \<leftarrow> find_tables T d key (hashFunction T key);
        case r of
          None \<Rightarrow> Some (d, None)
        | Some (table, idx, j) \<Rightarrow> do {
            b \<leftarrow> get_bucket d table idx;
            he \<leftarrow> rd b (int j);
            d \<leftarrow> set_bucket d table idx (take j b @ drop (Suc j) b);
            Some (dec_used d table, Some he)
          }
      })"

definition dictDelete ::
  "dictResizeEnable \<Rightarrow> 'k dictType \<Rightarrow> ('k, 'v) dict \<Rightarrow> 'k \<Rightarrow> (('k, 'v) dict \<times> bool) option" where
  "dictDelete can_resize T d key = do {
     (d, he) \<leftarrow> dictGenericDelete can_resize T d key;
     Some (d, he \<noteq> None)
   }"

definition dictUnlink ::
  "dictResizeEnable \<Rightarrow> 'k dictType \<Rightarrow> ('k, 'v) dict \<Rightarrow> 'k \<Rightarrow>
    (('k, 'v) dict \<times> ('k \<times> 'v) option) option" where
  "dictUnlink can_resize T d key = dictGenericDelete can_resize T d key"

section \<open>The dictionary types of the server\<close>

text \<open>
  \<open>server.c\<close>: keys are byte strings. The hash function \<open>h\<close> stands for the seeded SipHash of
  \<open>dictGenHashFunction\<close>, \<open>overMaxmemoryAfterAlloc\<close> for the state of the allocator.
\<close>

definition dictSdsKeyCompare :: "buffer \<Rightarrow> buffer \<Rightarrow> bool" where
  "dictSdsKeyCompare key1 key2 =
     (let l1 = length key1; l2 = length key2 in
      if l1 \<noteq> l2 then False else list_all (\<lambda>(a, b). a = b) (zip (take l1 key1) (take l1 key2)))"

definition HASHTABLE_MAX_LOAD_FACTOR :: rat where "HASHTABLE_MAX_LOAD_FACTOR = 1618 / 1000"

definition dictExpandAllowed :: "(nat \<Rightarrow> bool) \<Rightarrow> nat \<Rightarrow> rat \<Rightarrow> bool" where
  "dictExpandAllowed overMaxmemoryAfterAlloc moreMem usedRatio =
     (if usedRatio \<le> HASHTABLE_MAX_LOAD_FACTOR then \<not> overMaxmemoryAfterAlloc moreMem else True)"

definition dbDictType :: "(buffer \<Rightarrow> 64 word) \<Rightarrow> (nat \<Rightarrow> bool) \<Rightarrow> buffer dictType" where
  "dbDictType h overMaxmemoryAfterAlloc =
     \<lparr>hashFunction = h, keyCompare = Some dictSdsKeyCompare,
      expandAllowed = Some (dictExpandAllowed overMaxmemoryAfterAlloc)\<rparr>"

definition setDictType :: "(buffer \<Rightarrow> 64 word) \<Rightarrow> buffer dictType" where
  "setDictType h = \<lparr>hashFunction = h, keyCompare = Some dictSdsKeyCompare, expandAllowed = None\<rparr>"

definition hashDictType :: "(buffer \<Rightarrow> 64 word) \<Rightarrow> buffer dictType" where
  "hashDictType h = \<lparr>hashFunction = h, keyCompare = Some dictSdsKeyCompare, expandAllowed = None\<rparr>"

end
