(* ===== verification/RedisDictScan.thy ===== *)
theory RedisDictScan
  imports RedisDict
begin

unbundle bit_operations_syntax

text \<open>
  The parts of \<open>dict.c\<close> that walk over a whole dictionary: clearing, iterators with their
  fingerprint, sampling and the cursor based \<open>dictScan\<close>.

  A pointer to a chain node is the rest of the chain from that node on, so an iterator
  survives the deletion of the entry it returned last. Callbacks of a scan are recorded as
  a list of events. Random numbers are a list that the code draws from; \<open>None\<close> when it is
  exhausted.
\<close>

section \<open>Clearing\<close>

text \<open>
  \<open>_dictClear\<close>: the loop over the buckets frees every entry it meets and stops early once
  the counter is 0; the entries freed are returned for the destructors. The table is
  dereferenced only inside the loop.
\<close>

function clear_loop :: "('k, 'v) dict \<Rightarrow> nat \<Rightarrow> nat \<Rightarrow> nat \<Rightarrow> ('k \<times> 'v) list option" where
  "clear_loop d htidx i used =
     (if i < DICTHT_SIZE (ht_size_exp d htidx) \<and> used > 0 then do {
        b \<leftarrow> get_bucket d htidx i;
        freed \<leftarrow> clear_loop d htidx (i + 1) (if length b \<le> used then used - length b else 2 ^ 64 + used - length b);
        Some (b @ freed)
      }
      else Some [])"
  by pat_completeness auto
termination by (relation "measure (\<lambda>(d, htidx, i, _). DICTHT_SIZE (ht_size_exp d htidx) - i)") auto

declare clear_loop.simps [simp del]

definition dictClear :: "('k, 'v) dict \<Rightarrow> nat \<Rightarrow> (('k, 'v) dict \<times> ('k \<times> 'v) list) option" where
  "dictClear d htidx = do {
     freed \<leftarrow> clear_loop d htidx 0 (ht_used d htidx);
     Some (dictReset d htidx, freed)
   }"

definition dictEmpty :: "('k, 'v) dict \<Rightarrow> (('k, 'v) dict \<times> ('k \<times> 'v) list) option" where
  "dictEmpty d = do {
     (d, freed0) \<leftarrow> dictClear d 0;
     (d, freed1) \<leftarrow> dictClear d 1;
     Some (d\<lparr>rehashidx := - 1, pauserehash := 0\<rparr>, freed0 @ freed1)
   }"

definition dictRelease :: "('k, 'v) dict \<Rightarrow> ('k \<times> 'v) list option" where
  "dictRelease d = do {
     (d, freed0) \<leftarrow> dictClear d 0;
     (d, freed1) \<leftarrow> dictClear d 1;
     Some (freed0 @ freed1)
   }"

section \<open>Iterators\<close>

text \<open>Thomas Wang's integer hash over six words; \<open>addr\<close> gives the addresses of the tables.\<close>

definition fingerprint_step :: "64 word \<Rightarrow> 64 word \<Rightarrow> 64 word" where
  "fingerprint_step hash n =
     (let hash = hash + n;
          hash = (NOT hash) + push_bit 21 hash;
          hash = hash XOR drop_bit 24 hash;
          hash = (hash + push_bit 3 hash) + push_bit 8 hash;
          hash = hash XOR drop_bit 14 hash;
          hash = (hash + push_bit 2 hash) + push_bit 4 hash;
          hash = hash XOR drop_bit 28 hash
      in hash + push_bit 31 hash)"

definition dictFingerprint :: "(nat \<Rightarrow> 64 word) \<Rightarrow> ('k, 'v) dict \<Rightarrow> 64 word" where
  "dictFingerprint addr d =
     foldl fingerprint_step 0
       [addr 0, of_int (ht_size_exp d 0), of_nat (ht_used d 0),
        addr 1, of_int (ht_size_exp d 1), of_nat (ht_used d 1)]"

record ('k, 'v) dictIterator =
  it_index :: int
  it_table :: nat
  it_safe :: bool
  it_entry :: "('k, 'v) chain"
  it_nextEntry :: "('k, 'v) chain"
  it_fingerprint :: "64 word"

text \<open>The field \<open>fingerprint\<close> of a new iterator is not initialised: \<open>fp0\<close>.\<close>

definition dictGetIterator :: "64 word \<Rightarrow> ('k, 'v) dictIterator" where
  "dictGetIterator fp0 =
     \<lparr>it_index = - 1, it_table = 0, it_safe = False, it_entry = [], it_nextEntry = [], it_fingerprint = fp0\<rparr>"

definition dictGetSafeIterator :: "64 word \<Rightarrow> ('k, 'v) dictIterator" where
  "dictGetSafeIterator fp0 = (dictGetIterator fp0)\<lparr>it_safe := True\<rparr>"

definition iter_start ::
  "(nat \<Rightarrow> 64 word) \<Rightarrow> ('k, 'v) dict \<Rightarrow> ('k, 'v) dictIterator \<Rightarrow> ('k, 'v) dict \<times> ('k, 'v) dictIterator" where
  "iter_start addr d it =
     (if it_index it = - 1 \<and> it_table it = 0 then
        (if it_safe it then (d\<lparr>pauserehash := pauserehash d + 1\<rparr>, it)
         else (d, it\<lparr>it_fingerprint := dictFingerprint addr d\<rparr>))
      else (d, it))"

text \<open>The next bucket: table and index, \<open>None\<close> after the last one.\<close>

definition iter_advance :: "('k, 'v) dict \<Rightarrow> nat \<Rightarrow> int \<Rightarrow> (nat \<times> int) option" where
  "iter_advance d table index =
     (if index \<ge> int (DICTHT_SIZE (ht_size_exp d table)) then
        (if dictIsRehashing d \<and> table = 0 then Some (table + 1, 0) else None)
      else Some (table, index))"

text \<open>
  The loop over empty buckets, from the increment of \<open>index\<close> on. The inner result is
  \<open>None\<close> at the end of the iteration, and else the table, the index and the chain found.
\<close>

function iter_seek ::
  "('k, 'v) dict \<Rightarrow> nat \<Rightarrow> int \<Rightarrow> (nat \<times> int \<times> ('k, 'v) chain option) option" where
  "iter_seek d table index =
     (let index = index + 1 in
      case iter_advance d table index of
        None \<Rightarrow> Some (table, index, None)
      | Some (table, index) \<Rightarrow>
          if index < 0 then None
          else do {
            b \<leftarrow> get_bucket d table (nat index);
            if b = [] then iter_seek d table index else Some (table, index, Some b)
          })"
  by pat_completeness auto
termination
  by (relation "measures [\<lambda>(d, table, index). 1 - table,
        \<lambda>(d, table, index). nat (int (DICTHT_SIZE (ht_size_exp d table)) - index)]")
    (auto simp: iter_advance_def split: if_splits)

declare iter_seek.simps [simp del]

definition dictNext ::
  "(nat \<Rightarrow> 64 word) \<Rightarrow> ('k, 'v) dict \<Rightarrow> ('k, 'v) dictIterator \<Rightarrow>
    (('k, 'v) dict \<times> ('k, 'v) dictIterator \<times> ('k \<times> 'v) option) option" where
  "dictNext addr d it =
     (if it_entry it \<noteq> [] \<and> it_nextEntry it \<noteq> [] then
        Some (d, it\<lparr>it_entry := it_nextEntry it, it_nextEntry := tl (it_nextEntry it)\<rparr>,
              Some (hd (it_nextEntry it)))
      else
        (let (d, it) = iter_start addr d it in do {
           (table, index, r) \<leftarrow> iter_seek d (it_table it) (it_index it);
           let it = it\<lparr>it_table := table, it_index := index\<rparr>;
           case r of
             None \<Rightarrow> Some (d, it\<lparr>it_entry := []\<rparr>, None)
           | Some b \<Rightarrow> Some (d, it\<lparr>it_entry := b, it_nextEntry := tl b\<rparr>, Some (hd b))
         }))"

definition dictReleaseIterator ::
  "(nat \<Rightarrow> 64 word) \<Rightarrow> ('k, 'v) dict \<Rightarrow> ('k, 'v) dictIterator \<Rightarrow> ('k, 'v) dict option" where
  "dictReleaseIterator addr d it =
     (if \<not> (it_index it = - 1 \<and> it_table it = 0) then
        (if it_safe it then Some (d\<lparr>pauserehash := pauserehash d - 1\<rparr>)
         else if it_fingerprint it = dictFingerprint addr d then Some d
         else None)
      else Some d)"

section \<open>Random entries\<close>

text \<open>
  \<open>dictGetRandomKey\<close>: the draws of \<open>randomULong\<close> until a non-empty bucket is hit, then
  one draw of \<open>random\<close> for the place in the chain. A modulus of 0 traps.
\<close>

fun random_bucket :: "('k, 'v) dict \<Rightarrow> 64 word list \<Rightarrow> (('k, 'v) chain \<times> 64 word list) option" where
  "random_bucket d [] = None"
| "random_bucket d (r # rs) =
     (if dictIsRehashing d then
        (let s0 = DICTHT_SIZE (ht_size_exp d 0); m = int (dictSlots d) - rehashidx d in
         if m \<le> 0 then None
         else
           (let h = nat (rehashidx d + uint r mod m) in do {
              b \<leftarrow> (if h \<ge> s0 then get_bucket d 1 (h - s0) else get_bucket d 0 h);
              if b = [] then random_bucket d rs else Some (b, rs)
            }))
      else do {
        b \<leftarrow> get_bucket d 0 (unat (r AND DICTHT_SIZE_MASK (ht_size_exp d 0)));
        if b = [] then random_bucket d rs else Some (b, rs)
      })"

definition dictGetRandomKey ::
  "dictResizeEnable \<Rightarrow> 'k dictType \<Rightarrow> ('k, 'v) dict \<Rightarrow> 64 word list \<Rightarrow> nat \<Rightarrow>
    (('k, 'v) dict \<times> ('k \<times> 'v) option) option" where
  "dictGetRandomKey can_resize T d rs random =
     (if dictSize d = 0 then Some (d, None)
      else do {
        d \<leftarrow> rehash_tick can_resize T d;
        (b, _) \<leftarrow> random_bucket d rs;
        Some (d, Some (b ! (random mod length b)))
      })"

section \<open>Scanning with a cursor\<close>

text \<open>\<open>rev\<close>: reversal of the bits of a word by swapping blocks of halving size.\<close>

function rev_loop :: "nat \<Rightarrow> 64 word \<Rightarrow> 64 word \<Rightarrow> 64 word" where
  "rev_loop s m v =
     (let s = s div 2 in
      if s > 0 then
        (let m = m XOR push_bit s m in
         rev_loop s m ((drop_bit s v AND m) OR (push_bit s v AND NOT m)))
      else v)"
  by pat_completeness auto
termination by (relation "measure (\<lambda>(s, m, v). s)") auto

declare rev_loop.simps [simp del]

definition rev_bits :: "64 word \<Rightarrow> 64 word" where
  "rev_bits v = rev_loop 64 (NOT 0) v"

datatype ('k, 'v) scan_event = ScanBucket nat nat | ScanEntry 'k 'v

definition scan_bucket ::
  "bool \<Rightarrow> ('k, 'v) dict \<Rightarrow> nat \<Rightarrow> 64 word \<Rightarrow> ('k, 'v) scan_event list option" where
  "scan_bucket bucketfn d htidx i = do {
     b \<leftarrow> get_bucket d htidx (unat i);
     Some ((if bucketfn then [ScanBucket htidx (unat i)] else []) @ map (\<lambda>(k, v). ScanEntry k v) b)
   }"

text \<open>\<open>v |= ~m; v = rev(v); v++; v = rev(v);\<close>\<close>

definition incr_cursor :: "64 word \<Rightarrow> 64 word \<Rightarrow> 64 word" where
  "incr_cursor m v = rev_bits (rev_bits (v OR NOT m) + 1)"

text \<open>The \<open>do ... while (v & (m0 ^ m1))\<close> loop over the larger table.\<close>

partial_function (option) scan_expand ::
  "bool \<Rightarrow> ('k, 'v) dict \<Rightarrow> nat \<Rightarrow> 64 word \<Rightarrow> 64 word \<Rightarrow> 64 word \<Rightarrow>
    (64 word \<times> ('k, 'v) scan_event list) option" where
  "scan_expand bucketfn d htidx1 m0 m1 v = do {
     es \<leftarrow> scan_bucket bucketfn d htidx1 (v AND m1);
     let v = incr_cursor m1 v;
     if v AND (m0 XOR m1) \<noteq> 0 then do {
       (v, es') \<leftarrow> scan_expand bucketfn d htidx1 m0 m1 v;
       Some (v, es @ es')
     }
     else Some (v, es)
   }"

text \<open>
  \<open>dictScan\<close>: the next cursor and the calls of \<open>bucketfn\<close> (when it is given) and \<open>fn\<close>.
  Rehashing is paused during the scan and resumed at its end, so the dictionary is not changed.
\<close>

definition dictScan ::
  "bool \<Rightarrow> ('k, 'v) dict \<Rightarrow> 64 word \<Rightarrow> (64 word \<times> ('k, 'v) scan_event list) option" where
  "dictScan bucketfn d v =
     (if dictSize d = 0 then Some (0, [])
      else if \<not> dictIsRehashing d then do {
        let m0 = DICTHT_SIZE_MASK (ht_size_exp d 0);
        es \<leftarrow> scan_bucket bucketfn d 0 (v AND m0);
        Some (incr_cursor m0 v, es)
      }
      else do {
        let (htidx0, htidx1) =
          (if DICTHT_SIZE (ht_size_exp d 0) > DICTHT_SIZE (ht_size_exp d 1) then (1, 0) else (0, 1));
        let m0 = DICTHT_SIZE_MASK (ht_size_exp d htidx0);
        let m1 = DICTHT_SIZE_MASK (ht_size_exp d htidx1);
        es \<leftarrow> scan_bucket bucketfn d htidx0 (v AND m0);
        (v, es') \<leftarrow> scan_expand bucketfn d htidx1 m0 m1 v;
        Some (v, es @ es')
      })"

end
