(* ===== verification/RedisStore.thy ===== *)
theory RedisStore
  imports RedisPrelude
begin

text \<open>
  The interface of a key-value store. A client sends operations one after the other; the
  state of the store is hidden behind an invariant and an abstraction to a finite map, and
  the laws say what every operation answers and what it makes of the map. The environment
  \<open>'c\<close> of a call is whatever global state of the process the provider looks at.

  The client's lemma: every sequence of operations is answered as by the map, as long as
  the capacity of the store is not exceeded.
\<close>

datatype ('k, 'v) kv_op = KvFetch 'k | KvAdd 'k 'v | KvReplace 'k 'v | KvDelete 'k

datatype 'v kv_reply = KvVal "'v option" | KvFlag bool

text \<open>The operations on a map.\<close>

fun map_step :: "('k \<rightharpoonup> 'v) \<Rightarrow> ('k, 'v) kv_op \<Rightarrow> ('k \<rightharpoonup> 'v) \<times> 'v kv_reply" where
  "map_step m (KvFetch k) = (m, KvVal (m k))"
| "map_step m (KvAdd k v) = (if m k = None then m(k \<mapsto> v) else m, KvFlag (m k = None))"
| "map_step m (KvReplace k v) = (m(k \<mapsto> v), KvFlag (m k = None))"
| "map_step m (KvDelete k) = (m(k := None), KvFlag (m k \<noteq> None))"

fun map_run :: "('k \<rightharpoonup> 'v) \<Rightarrow> ('k, 'v) kv_op list \<Rightarrow> ('k \<rightharpoonup> 'v) \<times> 'v kv_reply list" where
  "map_run m [] = (m, [])"
| "map_run m (p # ps) =
     (case map_step m p of (m', r) \<Rightarrow> case map_run m' ps of (m'', rs) \<Rightarrow> (m'', r # rs))"

text \<open>The operations of a store, given by its four functions.\<close>

record ('c, 's, 'k, 'v) store_ops =
  kv_fetch :: "'c \<Rightarrow> 's \<Rightarrow> 'k \<Rightarrow> ('s \<times> 'v option) option"
  kv_add :: "'c \<Rightarrow> 's \<Rightarrow> 'k \<Rightarrow> 'v \<Rightarrow> ('s \<times> bool) option"
  kv_replace :: "'c \<Rightarrow> 's \<Rightarrow> 'k \<Rightarrow> 'v \<Rightarrow> ('s \<times> bool) option"
  kv_delete :: "'c \<Rightarrow> 's \<Rightarrow> 'k \<Rightarrow> ('s \<times> bool) option"

fun store_step ::
  "('c, 's, 'k, 'v) store_ops \<Rightarrow> 's \<Rightarrow> 'c \<times> ('k, 'v) kv_op \<Rightarrow> ('s \<times> 'v kv_reply) option" where
  "store_step F s (c, KvFetch k) = map_option (\<lambda>(s', r). (s', KvVal r)) (kv_fetch F c s k)"
| "store_step F s (c, KvAdd k v) = map_option (\<lambda>(s', r). (s', KvFlag r)) (kv_add F c s k v)"
| "store_step F s (c, KvReplace k v) = map_option (\<lambda>(s', r). (s', KvFlag r)) (kv_replace F c s k v)"
| "store_step F s (c, KvDelete k) = map_option (\<lambda>(s', r). (s', KvFlag r)) (kv_delete F c s k)"

fun store_run ::
  "('c, 's, 'k, 'v) store_ops \<Rightarrow> 's \<Rightarrow> ('c \<times> ('k, 'v) kv_op) list \<Rightarrow> ('s \<times> 'v kv_reply list) option" where
  "store_run F s [] = Some (s, [])"
| "store_run F s (p # ps) = do {
     (s, r) \<leftarrow> store_step F s p;
     (s, rs) \<leftarrow> store_run F s ps;
     Some (s, r # rs)
   }"

locale kv_store =
  fixes inv :: "'s \<Rightarrow> bool" and amap :: "'s \<Rightarrow> 'k \<rightharpoonup> 'v" and cap :: nat
    and ops :: "('c, 's, 'k, 'v) store_ops"
  assumes finite_dom: "inv s \<Longrightarrow> finite (dom (amap s))"
    and fetch_law: "inv s \<Longrightarrow> \<exists>s'. kv_fetch ops c s k = Some (s', amap s k) \<and> inv s' \<and> amap s' = amap s"
    and add_law: "inv s \<Longrightarrow> card (dom (amap s)) < cap \<Longrightarrow>
      \<exists>s'. kv_add ops c s k v = Some (s', amap s k = None) \<and> inv s' \<and>
        amap s' = (if amap s k = None then (amap s)(k \<mapsto> v) else amap s)"
    and replace_law: "inv s \<Longrightarrow> card (dom (amap s)) < cap \<Longrightarrow>
      \<exists>s'. kv_replace ops c s k v = Some (s', amap s k = None) \<and> inv s' \<and> amap s' = (amap s)(k \<mapsto> v)"
    and delete_law: "inv s \<Longrightarrow>
      \<exists>s'. kv_delete ops c s k = Some (s', amap s k \<noteq> None) \<and> inv s' \<and> amap s' = (amap s)(k := None)"
begin

lemma step_refines:
  assumes "inv s" "card (dom (amap s)) < cap"
  obtains s' r where "store_step ops s (c, p) = Some (s', r)" "inv s'" "map_step (amap s) p = (amap s', r)"
proof (cases p)
  case (KvFetch k)
  with fetch_law [OF assms(1), of c k] that show ?thesis by auto
next
  case (KvAdd k v)
  with add_law [OF assms, of c k v] that show ?thesis by auto
next
  case (KvReplace k v)
  with replace_law [OF assms, of c k v] that show ?thesis by auto
next
  case (KvDelete k)
  with delete_law [OF assms(1), of c k] that show ?thesis by auto
qed

lemma map_step_card:
  assumes "finite (dom m)" "map_step m p = (m', r)"
  shows "card (dom m') \<le> Suc (card (dom m))"
proof -
  have "\<exists>k. dom m' \<subseteq> insert k (dom m)" using assms(2) by (cases p) (auto split: if_splits)
  then obtain k where "dom m' \<subseteq> insert k (dom m)" ..
  then have "card (dom m') \<le> card (insert k (dom m))" using assms(1) by (intro card_mono) auto
  also have "\<dots> \<le> Suc (card (dom m))" by (rule card_insert_le_m1) auto
  finally show ?thesis .
qed

lemma run_refines:
  assumes "inv s" "card (dom (amap s)) + length ps \<le> cap"
  shows "\<exists>s' rs. store_run ops s ps = Some (s', rs) \<and> inv s' \<and>
    map_run (amap s) (map snd ps) = (amap s', rs)"
  using assms
proof (induction ps arbitrary: s)
  case Nil
  then show ?case by simp
next
  case (Cons cp ps)
  obtain c p where cp: "cp = (c, p)" by (cases cp)
  have "card (dom (amap s)) < cap" using Cons.prems(2) by simp
  with Cons.prems(1) obtain s1 r where s1: "store_step ops s (c, p) = Some (s1, r)" "inv s1"
    "map_step (amap s) p = (amap s1, r)" by (rule step_refines)
  have "card (dom (amap s1)) + length ps \<le> cap"
    using map_step_card [OF finite_dom s1(3)] Cons.prems by simp
  from Cons.IH [OF s1(2) this] cp s1 show ?case by auto
qed

end

section \<open>Sets\<close>

text \<open>
  The interface of a set of elements, with the elements that it can hold given by \<open>ok\<close>. The
  flags say whether the set changed, and whether the element is there.
\<close>

datatype 'e set_op = SetAdd 'e | SetRemove 'e | SetMember 'e

fun aset_step :: "'e set \<Rightarrow> 'e set_op \<Rightarrow> 'e set \<times> bool" where
  "aset_step A (SetAdd e) = (insert e A, e \<notin> A)"
| "aset_step A (SetRemove e) = (A - {e}, e \<in> A)"
| "aset_step A (SetMember e) = (A, e \<in> A)"

fun aset_run :: "'e set \<Rightarrow> 'e set_op list \<Rightarrow> 'e set \<times> bool list" where
  "aset_run A [] = (A, [])"
| "aset_run A (p # ps) = (case aset_step A p of (A', r) \<Rightarrow> case aset_run A' ps of (A'', rs) \<Rightarrow> (A'', r # rs))"

record ('c, 's, 'e) set_ops =
  st_add :: "'c \<Rightarrow> 's \<Rightarrow> 'e \<Rightarrow> ('s \<times> bool) option"
  st_remove :: "'c \<Rightarrow> 's \<Rightarrow> 'e \<Rightarrow> ('s \<times> bool) option"
  st_member :: "'c \<Rightarrow> 's \<Rightarrow> 'e \<Rightarrow> ('s \<times> bool) option"

fun set_step :: "('c, 's, 'e) set_ops \<Rightarrow> 's \<Rightarrow> 'c \<times> 'e set_op \<Rightarrow> ('s \<times> bool) option" where
  "set_step F s (c, SetAdd e) = st_add F c s e"
| "set_step F s (c, SetRemove e) = st_remove F c s e"
| "set_step F s (c, SetMember e) = st_member F c s e"

fun set_run :: "('c, 's, 'e) set_ops \<Rightarrow> 's \<Rightarrow> ('c \<times> 'e set_op) list \<Rightarrow> ('s \<times> bool list) option" where
  "set_run F s [] = Some (s, [])"
| "set_run F s (p # ps) = do {
     (s, r) \<leftarrow> set_step F s p;
     (s, rs) \<leftarrow> set_run F s ps;
     Some (s, r # rs)
   }"

fun op_elem :: "'e set_op \<Rightarrow> 'e" where
  "op_elem (SetAdd e) = e"
| "op_elem (SetRemove e) = e"
| "op_elem (SetMember e) = e"

locale set_store =
  fixes sinv :: "'s \<Rightarrow> bool" and aset :: "'s \<Rightarrow> 'e set" and ok :: "'e \<Rightarrow> bool" and scap :: nat
    and sops :: "('c, 's, 'e) set_ops"
  assumes finite_aset: "sinv s \<Longrightarrow> finite (aset s)"
    and add_law: "sinv s \<Longrightarrow> ok e \<Longrightarrow> card (aset s) < scap \<Longrightarrow>
      \<exists>s'. st_add sops c s e = Some (s', e \<notin> aset s) \<and> sinv s' \<and> aset s' = insert e (aset s)"
    and remove_law: "sinv s \<Longrightarrow> ok e \<Longrightarrow>
      \<exists>s'. st_remove sops c s e = Some (s', e \<in> aset s) \<and> sinv s' \<and> aset s' = aset s - {e}"
    and member_law: "sinv s \<Longrightarrow> ok e \<Longrightarrow>
      \<exists>s'. st_member sops c s e = Some (s', e \<in> aset s) \<and> sinv s' \<and> aset s' = aset s"
begin

lemma set_step_refines:
  assumes "sinv s" "ok (op_elem p)" "card (aset s) < scap"
  obtains s' r where "set_step sops s (c, p) = Some (s', r)" "sinv s'" "aset_step (aset s) p = (aset s', r)"
proof (cases p)
  case (SetAdd e)
  with add_law [OF assms(1) _ assms(3), of e c] assms(2) that show ?thesis by auto
next
  case (SetRemove e)
  with remove_law [OF assms(1), of e c] assms(2) that show ?thesis by auto
next
  case (SetMember e)
  with member_law [OF assms(1), of e c] assms(2) that show ?thesis by auto
qed

lemma set_run_refines:
  assumes "sinv s" "\<forall>p \<in> set ps. ok (op_elem (snd p))" "card (aset s) + length ps \<le> scap"
  shows "\<exists>s' rs. set_run sops s ps = Some (s', rs) \<and> sinv s' \<and> aset_run (aset s) (map snd ps) = (aset s', rs)"
  using assms
proof (induction ps arbitrary: s)
  case Nil
  then show ?case by simp
next
  case (Cons cp ps)
  obtain c p where cp: "cp = (c, p)" by (cases cp)
  have "card (aset s) < scap" "ok (op_elem p)" using Cons.prems(2,3) cp by simp_all
  with Cons.prems(1) obtain s1 r where s1: "set_step sops s (c, p) = Some (s1, r)" "sinv s1"
    "aset_step (aset s) p = (aset s1, r)" by (metis set_step_refines)
  have "aset s1 \<subseteq> insert (op_elem p) (aset s)" using s1(3) by (cases p) auto
  then have "card (aset s1) \<le> card (insert (op_elem p) (aset s))"
    using finite_aset [OF Cons.prems(1)] by (intro card_mono) auto
  also have "\<dots> \<le> Suc (card (aset s))" by (rule card_insert_le_m1) auto
  finally have "card (aset s1) + length ps \<le> scap" using Cons.prems(3) by simp
  from Cons.IH [OF s1(2) _ this] Cons.prems(2) cp s1 show ?case by auto
qed

end

end
