(* ===== verification/RedisDictProofs.thy ===== *)
theory RedisDictProofs
  imports RedisDict RedisStore
begin

unbundle bit_operations_syntax

text \<open>
  Correctness of the hash table of \<open>dict.c\<close>. The invariant \<open>dict_inv\<close> says that both tables
  hold every entry in the bucket of its hash, that the counters are right, that no key
  occurs twice and that the buckets below \<open>rehashidx\<close> are empty; \<open>dict_map\<close> is the map
  that a dictionary represents. Every operation succeeds, keeps the invariant and acts on
  the map as it should, at every stage of an incremental rehash.
\<close>

section \<open>Invariant and abstraction\<close>

text \<open>What the code relies on: a key comparison that is equality of keys.\<close>

definition dictType_ok :: "'k dictType \<Rightarrow> bool" where
  "dictType_ok T \<longleftrightarrow> (\<forall>cmp. keyCompare T = Some cmp \<longrightarrow> (\<forall>a b. cmp a b \<longleftrightarrow> a = b))"

definition table_ok :: "'k dictType \<Rightarrow> ('k, 'v) table \<Rightarrow> int \<Rightarrow> nat \<Rightarrow> bool" where
  "table_ok T tbl e n \<longleftrightarrow>
     0 \<le> e \<and> e < 64 \<and> length tbl = 2 ^ nat e \<and> n = length (concat tbl) \<and>
     (\<forall>i < length tbl. \<forall>x \<in> set (tbl ! i). slot (hashFunction T (fst x)) e = i)"

definition ht_ok :: "'k dictType \<Rightarrow> ('k, 'v) dict \<Rightarrow> nat \<Rightarrow> bool" where
  "ht_ok T d t =
     (case ht_table d t of
        None \<Rightarrow> ht_size_exp d t = - 1 \<and> ht_used d t = 0
      | Some tbl \<Rightarrow> table_ok T tbl (ht_size_exp d t) (ht_used d t))"

definition tab :: "('k, 'v) dict \<Rightarrow> nat \<Rightarrow> ('k, 'v) table" where
  "tab d t = (case ht_table d t of None \<Rightarrow> [] | Some tbl \<Rightarrow> tbl)"

definition entries :: "('k, 'v) dict \<Rightarrow> ('k \<times> 'v) list" where
  "entries d = concat (tab d 0) @ concat (tab d 1)"

definition dict_map :: "('k, 'v) dict \<Rightarrow> 'k \<rightharpoonup> 'v" where
  "dict_map d = map_of (entries d)"

definition rehash_ok :: "('k, 'v) dict \<Rightarrow> bool" where
  "rehash_ok d \<longleftrightarrow>
     (if dictIsRehashing d then
        0 \<le> rehashidx d \<and> rehashidx d \<le> int (length (tab d 0)) \<and>
        ht_table d 0 \<noteq> None \<and> ht_table d 1 \<noteq> None \<and>
        (\<forall>i < nat (rehashidx d). tab d 0 ! i = [])
      else ht_table d 1 = None)"

definition dict_inv :: "'k dictType \<Rightarrow> ('k, 'v) dict \<Rightarrow> bool" where
  "dict_inv T d \<longleftrightarrow>
     ht_ok T d 0 \<and> ht_ok T d 1 \<and> distinct (map fst (entries d)) \<and> rehash_ok d"

section \<open>Slots and buckets\<close>

lemma slot_mod:
  assumes "0 \<le> e" "e < 64"
  shows "slot h e = unat h mod 2 ^ nat e"
proof -
  have "DICTHT_SIZE_MASK e = mask (nat e)"
    using assms by (simp add: DICTHT_SIZE_MASK_def DICTHT_SIZE_def mask_eq_exp_minus_1)
  then have "h AND DICTHT_SIZE_MASK e = take_bit (nat e) h"
    by (simp add: take_bit_eq_mask)
  then have "slot h e = take_bit (nat e) (unat h)"
    by (simp only: slot_def unsigned_take_bit_eq)
  then show ?thesis by (simp only: take_bit_eq_mod)
qed

lemma slot_less: "0 \<le> e \<Longrightarrow> e < 64 \<Longrightarrow> slot h e < 2 ^ nat e"
  by (simp add: slot_mod)

lemma get_bucket_Some [simp]:
  "ht_table d t = Some tbl \<Longrightarrow> i < length tbl \<Longrightarrow> get_bucket d t i = Some (tbl ! i)"
  by (simp add: get_bucket_def mem_simps)

lemma set_bucket_Some [simp]:
  "ht_table d t = Some tbl \<Longrightarrow> i < length tbl \<Longrightarrow>
     set_bucket d t i b = Some (d\<lparr>ht_table := (ht_table d)(t := Some (tbl[i := b]))\<rparr>)"
  by (simp add: set_bucket_def mem_simps)

lemma mset_concat_update:
  "i < length tbl \<Longrightarrow> mset (concat (tbl[i := b])) + mset (tbl ! i) = mset (concat tbl) + mset b"
proof (induction tbl arbitrary: i)
  case Nil
  then show ?case by simp
next
  case (Cons c tbl)
  then show ?case by (cases i) (auto simp: ac_simps)
qed

lemma length_concat_update:
  "i < length tbl \<Longrightarrow> length (concat (tbl[i := b])) + length (tbl ! i) = length (concat tbl) + length b"
  using arg_cong [OF mset_concat_update, of i tbl size b] by simp

lemma mset_map_of_eq:
  assumes "mset xs = mset ys" "distinct (map fst xs)"
  shows "map_of xs = map_of ys"
proof -
  have "distinct (map fst ys)"
    using assms by (metis mset_eq_imp_distinct_iff mset_map)
  moreover have "set xs = set ys" using assms(1) by (rule mset_eq_setD)
  ultimately show ?thesis using assms(2) by (intro map_of_inject_set [THEN iffD2]) auto
qed

lemma table_okI_update:
  assumes "table_ok T tbl e n" "i < length tbl" "\<forall>x \<in> set b. slot (hashFunction T (fst x)) e = i"
    "n + length b = n' + length (tbl ! i)"
  shows "table_ok T (tbl[i := b]) e n'"
  using assms length_concat_update [OF assms(2), of b]
  by (auto simp: table_ok_def nth_list_update)

lemma concat_bucket:
  assumes "table_ok T tbl e n"
  shows "x \<in> set (concat tbl) \<longleftrightarrow> x \<in> set (tbl ! slot (hashFunction T (fst x)) e)"
    and "slot (hashFunction T k) e < length tbl"
proof -
  show lt: "slot (hashFunction T k) e < length tbl" for k
    using assms slot_less by (auto simp: table_ok_def)
  show "x \<in> set (concat tbl) \<longleftrightarrow> x \<in> set (tbl ! slot (hashFunction T (fst x)) e)"
  proof
    assume "x \<in> set (concat tbl)"
    then obtain b where "b \<in> set tbl" "x \<in> set b" by auto
    then obtain i where "i < length tbl" "x \<in> set (tbl ! i)" using in_set_conv_nth [of b tbl] by auto
    with assms show "x \<in> set (tbl ! slot (hashFunction T (fst x)) e)" by (auto simp: table_ok_def)
  next
    assume "x \<in> set (tbl ! slot (hashFunction T (fst x)) e)"
    then show "x \<in> set (concat tbl)" using lt [of "fst x"] by auto
  qed
qed

section \<open>Rehashing\<close>

lemma rehash_skip_spec:
  assumes "j < length tbl" "idx \<le> j" "tbl ! j \<noteq> []"
  shows "\<exists>out i ev'. rehash_skip tbl idx ev = Some (out, i, ev') \<and> idx \<le> i \<and> i \<le> length tbl \<and>
    (\<forall>m. idx \<le> m \<longrightarrow> m < i \<longrightarrow> tbl ! m = []) \<and> (\<not> out \<longrightarrow> i < length tbl \<and> tbl ! i \<noteq> []) \<and> (out \<longrightarrow> idx < i)"
  using assms
proof (induction tbl idx ev rule: rehash_skip.induct)
  case (1 tbl idx ev)
  have rd: "rd tbl (int idx) = Some (tbl ! idx)" using "1.prems" by (simp add: mem_simps)
  show ?case
  proof (cases "tbl ! idx = [] \<and> ev - 1 \<noteq> 0")
    case True
    with "1.prems" have "idx + 1 \<le> j" by (cases "idx = j") auto
    with "1.IH" [OF rd] True "1.prems" obtain out i ev' where
      r: "rehash_skip tbl (idx + 1) (ev - 1) = Some (out, i, ev')" "idx + 1 \<le> i" "i \<le> length tbl"
      "\<And>m. idx + 1 \<le> m \<Longrightarrow> m < i \<Longrightarrow> tbl ! m = []" "\<not> out \<Longrightarrow> i < length tbl \<and> tbl ! i \<noteq> []"
      by blast
    have "tbl ! m = []" if "idx \<le> m" "m < i" for m
      using that r(4) [of m] True by (cases "m = idx") auto
    moreover have "rehash_skip tbl idx ev = Some (out, i, ev')"
      using True rd r(1) by (simp add: rehash_skip.simps [of tbl idx ev])
    ultimately show ?thesis using r by auto
  next
    case False
    with rd "1.prems" show ?thesis
      by (auto simp: rehash_skip.simps [of tbl idx ev] less_Suc_eq)
  qed
qed

text \<open>What rehashing leaves alone.\<close>

definition same_shape :: "('k, 'v) dict \<Rightarrow> ('k, 'v) dict \<Rightarrow> bool" where
  "same_shape d d' \<longleftrightarrow> ht_size_exp d' = ht_size_exp d \<and> pauserehash d' = pauserehash d"

lemma rehash_move_spec:
  assumes "ht_table d 1 = Some tbl" "table_ok T tbl (ht_size_exp d 1) (ht_used d 1)"
    "length es \<le> ht_used d 0"
  shows "\<exists>d' tbl'. rehash_move T es d = Some d' \<and> same_shape d d' \<and> rehashidx d' = rehashidx d \<and>
      ht_table d' 0 = ht_table d 0 \<and> ht_table d' 1 = Some tbl' \<and>
      ht_used d' 0 = ht_used d 0 - length es \<and> ht_used d' 1 = ht_used d 1 + length es \<and>
      table_ok T tbl' (ht_size_exp d 1) (ht_used d' 1) \<and>
      mset (concat tbl') = mset (concat tbl) + mset es"
  using assms
proof (induction es arbitrary: d tbl)
  case Nil
  then show ?case by (simp add: same_shape_def)
next
  case (Cons e es)
  define h where "h = slot (hashFunction T (fst e)) (ht_size_exp d 1)"
  define tbl1 where "tbl1 = tbl[h := e # tbl ! h]"
  define d1 where "d1 = inc_used (dec_used (d\<lparr>ht_table := (ht_table d)(1 := Some tbl1)\<rparr>) 0) 1"
  have h: "h < length tbl" unfolding h_def using concat_bucket(2) [OF Cons.prems(2)] .
  have pos: "0 < ht_used d 0" using Cons.prems(3) by simp
  have run: "rehash_move T (e # es) d = rehash_move T es d1"
    using Cons.prems(1) h by (simp add: Let_def d1_def tbl1_def h_def)
  have d1: "ht_table d1 1 = Some tbl1" "ht_table d1 0 = ht_table d 0" "ht_used d1 0 = ht_used d 0 - 1"
    "ht_used d1 1 = ht_used d 1 + 1" "same_shape d d1" "rehashidx d1 = rehashidx d"
    using pos by (simp_all add: d1_def inc_used_def dec_used_def same_shape_def)
  have ok: "table_ok T tbl1 (ht_size_exp d1 1) (ht_used d1 1)"
    using Cons.prems(2) h d1 unfolding tbl1_def
    by (intro table_okI_update [where n = "ht_used d 1"]) (auto simp: table_ok_def same_shape_def h_def)
  have len: "length es \<le> ht_used d1 0" using Cons.prems(3) d1 by simp
  have "mset (concat tbl1) = mset (concat tbl) + {#e#}"
    using mset_concat_update [OF h, of "e # tbl ! h"] by (simp add: tbl1_def)
  with Cons.IH [OF d1(1) ok len] run d1 pos Cons.prems(3) show ?case
    by (auto simp: same_shape_def)
qed

lemma tab_Some [simp]: "ht_table d t = Some tbl \<Longrightarrow> tab d t = tbl"
  by (simp add: tab_def)

lemma dict_inv_rehashing:
  assumes "dict_inv T d" "dictIsRehashing d"
  obtains tbl0 tbl1 where "ht_table d 0 = Some tbl0" "ht_table d 1 = Some tbl1"
    "table_ok T tbl0 (ht_size_exp d 0) (ht_used d 0)"
    "table_ok T tbl1 (ht_size_exp d 1) (ht_used d 1)"
    "0 \<le> rehashidx d" "rehashidx d \<le> int (length tbl0)"
    "\<And>i. i < nat (rehashidx d) \<Longrightarrow> tbl0 ! i = []"
    "entries d = concat tbl0 @ concat tbl1" "distinct (map fst (entries d))"
  using assms by (auto simp: dict_inv_def rehash_ok_def ht_ok_def entries_def)

lemma dict_inv_rehashingI:
  assumes "ht_table d 0 = Some tbl0" "ht_table d 1 = Some tbl1"
    "table_ok T tbl0 (ht_size_exp d 0) (ht_used d 0)"
    "table_ok T tbl1 (ht_size_exp d 1) (ht_used d 1)"
    "0 \<le> rehashidx d" "rehashidx d \<le> int (length tbl0)"
    "\<And>i. i < nat (rehashidx d) \<Longrightarrow> tbl0 ! i = []" "distinct (map fst (entries d))"
  shows "dict_inv T d"
  using assms by (auto simp: dict_inv_def rehash_ok_def ht_ok_def dictIsRehashing_def)

lemma distinct_entries_mset:
  "mset xs = mset ys \<Longrightarrow> distinct (map fst xs) \<longleftrightarrow> distinct (map fst ys)"
  by (metis mset_eq_imp_distinct_iff mset_map)

lemma nonempty_bucket:
  assumes "table_ok T tbl e n" "n \<noteq> 0" "\<And>i. i < m \<Longrightarrow> tbl ! i = []"
  obtains j where "j < length tbl" "m \<le> j" "tbl ! j \<noteq> []"
proof -
  from assms(1,2) have "concat tbl \<noteq> []" by (auto simp: table_ok_def)
  then obtain b where "b \<in> set tbl" "b \<noteq> []" by auto
  then obtain j where j: "j < length tbl" "tbl ! j \<noteq> []" by (auto simp: in_set_conv_nth)
  with assms(3) have "m \<le> j" by (meson not_le)
  with j that show ?thesis by blast
qed

lemma rehash_loop_spec:
  assumes "dict_inv T d" "dictIsRehashing d"
  shows "\<exists>d' out. rehash_loop T n ev d = Some (d', out) \<and> dict_inv T d' \<and> dictIsRehashing d' \<and>
    same_shape d d' \<and> mset (entries d') = mset (entries d) \<and> rehashidx d \<le> rehashidx d' \<and>
    (n \<noteq> 0 \<and> (out \<or> ht_used d' 0 \<noteq> 0) \<longrightarrow> rehashidx d < rehashidx d')"
  using assms
proof (induction n arbitrary: d ev)
  case 0
  then show ?case by (intro exI [of _ d] exI [of _ False]) (simp add: same_shape_def)
next
  case (Suc n)
  from Suc.prems obtain tbl0 tbl1 where I: "ht_table d 0 = Some tbl0" "ht_table d 1 = Some tbl1"
    "table_ok T tbl0 (ht_size_exp d 0) (ht_used d 0)"
    "table_ok T tbl1 (ht_size_exp d 1) (ht_used d 1)"
    "0 \<le> rehashidx d" "rehashidx d \<le> int (length tbl0)"
    "\<And>i. i < nat (rehashidx d) \<Longrightarrow> tbl0 ! i = []"
    "entries d = concat tbl0 @ concat tbl1" "distinct (map fst (entries d))"
    by (rule dict_inv_rehashing) blast
  show ?case
  proof (cases "ht_used d 0 = 0")
    case True
    with Suc.prems show ?thesis by (intro exI [of _ d] exI [of _ False]) (simp add: same_shape_def)
  next
    case False
    from nonempty_bucket [OF I(3) False, of "nat (rehashidx d)"] I(7) obtain j where
      j: "j < length tbl0" "nat (rehashidx d) \<le> j" "tbl0 ! j \<noteq> []" by blast
    from rehash_skip_spec [OF j, of ev] obtain out i ev' where
      sk: "rehash_skip tbl0 (nat (rehashidx d)) ev = Some (out, i, ev')"
        "nat (rehashidx d) \<le> i" "i \<le> length tbl0"
        "\<forall>m. nat (rehashidx d) \<le> m \<longrightarrow> m < i \<longrightarrow> tbl0 ! m = []"
        "\<not> out \<longrightarrow> i < length tbl0 \<and> tbl0 ! i \<noteq> []" "out \<longrightarrow> nat (rehashidx d) < i"
      by (elim exE conjE)
    have empt: "tbl0 ! m = []" if "m < i" for m
      using that sk(4) I(7) [of m] by (cases "m < nat (rehashidx d)") auto
    have size: "int (DICTHT_SIZE (ht_size_exp d 0)) > rehashidx d"
    proof -
      have "DICTHT_SIZE (ht_size_exp d 0) = length tbl0"
        using I(3) by (auto simp: table_ok_def DICTHT_SIZE_def)
      then show ?thesis using j by linarith
    qed
    show ?thesis
    proof (cases out)
      case True
      let ?d = "d\<lparr>rehashidx := int i\<rparr>"
      have "entries ?d = entries d" by (simp add: entries_def tab_def)
      then have "dict_inv T ?d"
        using I sk(3) empt by (intro dict_inv_rehashingI) auto
      moreover have "rehash_loop T (Suc n) ev d = Some (?d, True)"
        using False size I(1,5) sk(1) True by simp
      moreover have "rehashidx d < int i" using sk(6) True I(5) by linarith
      ultimately show ?thesis
        using \<open>entries ?d = entries d\<close>
        by (intro exI [of _ ?d] exI [of _ True]) (simp add: same_shape_def dictIsRehashing_def)
    next
      case out: False
      with sk(5) have i: "i < length tbl0" "tbl0 ! i \<noteq> []" by auto
      have "length (tbl0 ! i) \<le> ht_used d 0"
        using length_concat_update [OF i(1), of "[]"] I(3) by (simp add: table_ok_def)
      from rehash_move_spec [OF I(2,4) this] obtain d1 tbl1' where
        m: "rehash_move T (tbl0 ! i) d = Some d1" "same_shape d d1"
          "ht_table d1 0 = Some tbl0" "ht_table d1 1 = Some tbl1'"
          "ht_used d1 0 = ht_used d 0 - length (tbl0 ! i)"
          "table_ok T tbl1' (ht_size_exp d 1) (ht_used d1 1)"
          "mset (concat tbl1') = mset (concat tbl1) + mset (tbl0 ! i)"
        using I(1) by metis
      define d2 where
        "d2 = d1\<lparr>ht_table := (ht_table d1)(0 := Some (tbl0[i := []])), rehashidx := int i + 1\<rparr>"
      have d2: "ht_table d2 0 = Some (tbl0[i := []])" "ht_table d2 1 = Some tbl1'"
        "ht_used d2 = ht_used d1" "same_shape d d2" "rehashidx d2 = int i + 1"
        using m by (auto simp: d2_def same_shape_def)
      have run: "rehash_loop T (Suc n) ev d = rehash_loop T n ev' d2"
        using False size I(1,5) sk(1) out i m by (simp add: d2_def)
      have ents: "mset (entries d2) = mset (entries d)"
        using mset_concat_update [OF i(1), of "[]"] m(7) d2(1,2) I(8)
        by (simp add: entries_def ac_simps)
      have "table_ok T (tbl0[i := []]) (ht_size_exp d2 0) (ht_used d2 0)"
        using I(3) i m(5) d2(3,4) \<open>length (tbl0 ! i) \<le> ht_used d 0\<close>
        by (intro table_okI_update [where n = "ht_used d 0"]) (auto simp: same_shape_def)
      then have inv2: "dict_inv T d2"
        using d2 m(6) i empt I(9) distinct_entries_mset [OF ents]
        by (intro dict_inv_rehashingI [of d2 "tbl0[i := []]" tbl1'])
          (auto simp: same_shape_def nth_list_update less_Suc_eq nat_add_distrib)
      have re2: "dictIsRehashing d2" using d2(5) by (simp add: dictIsRehashing_def)
      have lt: "rehashidx d < rehashidx d2" using sk(2) d2(5) I(5) by linarith
      obtain d' out' where r: "rehash_loop T n ev' d2 = Some (d', out')" "dict_inv T d'" "dictIsRehashing d'"
        "same_shape d2 d'" "mset (entries d') = mset (entries d2)" "rehashidx d2 \<le> rehashidx d'"
        using Suc.IH [OF inv2 re2, of ev'] by metis
      show ?thesis
        using run r ents d2(4) lt by (intro exI [of _ d'] exI [of _ out']) (simp add: same_shape_def)
    qed
  qed
qed

lemma dict_inv_idle:
  assumes "dict_inv T d" "\<not> dictIsRehashing d"
  shows "ht_table d 1 = None" "ht_used d 1 = 0" "ht_size_exp d 1 = - 1" "entries d = concat (tab d 0)"
  using assms by (auto simp: dict_inv_def rehash_ok_def ht_ok_def entries_def tab_def)

lemma table_ok_size: "table_ok T tbl e n \<Longrightarrow> DICTHT_SIZE e = length tbl \<and> 0 < length tbl"
  by (auto simp: table_ok_def DICTHT_SIZE_def)

text \<open>\<open>dictRehash\<close> declines to work.\<close>

definition rehash_skipped :: "dictResizeEnable \<Rightarrow> ('k, 'v) dict \<Rightarrow> bool" where
  "rehash_skipped can_resize d \<longleftrightarrow> can_resize = DICT_RESIZE_FORBID \<or> can_resize = DICT_RESIZE_AVOID \<and>
     (DICTHT_SIZE (ht_size_exp d 0) < DICTHT_SIZE (ht_size_exp d 1) \<and>
        DICTHT_SIZE (ht_size_exp d 1) div DICTHT_SIZE (ht_size_exp d 0) < dict_force_resize_ratio \<or>
      DICTHT_SIZE (ht_size_exp d 1) < DICTHT_SIZE (ht_size_exp d 0) \<and>
        DICTHT_SIZE (ht_size_exp d 0) div DICTHT_SIZE (ht_size_exp d 1) < dict_force_resize_ratio)"

lemma dictRehash_run:
  assumes "dictIsRehashing d" "0 < DICTHT_SIZE (ht_size_exp d 0)" "0 < DICTHT_SIZE (ht_size_exp d 1)"
    "rehash_loop T n (int n * 10) d = Some (d1, out)"
  shows "dictRehash can_resize T d n =
     (if rehash_skipped can_resize d then Some (d, False)
      else if \<not> out \<and> ht_used d1 0 = 0 then
        Some ((dictReset
             (d1\<lparr>ht_table := (ht_table d1)(0 := ht_table d1 1),
                ht_used := (ht_used d1)(0 := ht_used d1 1),
                ht_size_exp := (ht_size_exp d1)(0 := ht_size_exp d1 1)\<rparr>) 1)\<lparr>rehashidx := - 1\<rparr>, False)
      else Some (d1, True))"
proof -
  have m: "(min (DICTHT_SIZE (ht_size_exp d 0)) (DICTHT_SIZE (ht_size_exp d 1)) = 0) = False"
    using assms(2,3) by simp
  show ?thesis
    using assms(1,4) unfolding dictRehash_def Let_def m rehash_skipped_def
    by (cases can_resize) simp_all
qed

lemma dictRehash_spec:
  assumes "dict_inv T d"
  shows "\<exists>d' r. dictRehash can_resize T d n = Some (d', r) \<and> dict_inv T d' \<and>
    pauserehash d' = pauserehash d \<and> mset (entries d') = mset (entries d) \<and>
    (ht_table d 0 \<noteq> None \<longrightarrow> ht_table d' 0 \<noteq> None) \<and> (r \<longrightarrow> dictIsRehashing d') \<and>
    (can_resize = DICT_RESIZE_ENABLE \<and> n \<noteq> 0 \<and> dictIsRehashing d' \<longrightarrow>
      ht_size_exp d' = ht_size_exp d \<and> rehashidx d < rehashidx d')"
proof (cases "dictIsRehashing d")
  case False
  with assms show ?thesis by (intro exI [of _ d] exI [of _ False]) (simp add: dictRehash_def)
next
  case True
  from assms True obtain tbl0 tbl1 where I: "ht_table d 0 = Some tbl0" "ht_table d 1 = Some tbl1"
    "table_ok T tbl0 (ht_size_exp d 0) (ht_used d 0)" "table_ok T tbl1 (ht_size_exp d 1) (ht_used d 1)"
    by (rule dict_inv_rehashing) blast
  from rehash_loop_spec [OF assms True, of n "int n * 10"] obtain d1 out where
    L: "rehash_loop T n (int n * 10) d = Some (d1, out)" "dict_inv T d1" "dictIsRehashing d1"
      "same_shape d d1" "mset (entries d1) = mset (entries d)"
      "n \<noteq> 0 \<Longrightarrow> out \<or> ht_used d1 0 \<noteq> 0 \<Longrightarrow> rehashidx d < rehashidx d1"
    by blast
  from L(2,3) obtain t0 t1 where J: "ht_table d1 0 = Some t0" "ht_table d1 1 = Some t1"
    "table_ok T t0 (ht_size_exp d1 0) (ht_used d1 0)" "table_ok T t1 (ht_size_exp d1 1) (ht_used d1 1)"
    "entries d1 = concat t0 @ concat t1" "distinct (map fst (entries d1))"
    by (rule dict_inv_rehashing) blast
  let ?d = "(dictReset
             (d1\<lparr>ht_table := (ht_table d1)(0 := ht_table d1 1),
                ht_used := (ht_used d1)(0 := ht_used d1 1),
                ht_size_exp := (ht_size_exp d1)(0 := ht_size_exp d1 1)\<rparr>) 1)\<lparr>rehashidx := - 1\<rparr>"
  have fin: "dict_inv T ?d \<and> mset (entries ?d) = mset (entries d1)" if "ht_used d1 0 = 0"
  proof -
    from that J(3) have "concat t0 = []" by (simp add: table_ok_def)
    with J show ?thesis
      by (auto simp: dict_inv_def rehash_ok_def ht_ok_def dictReset_def dictIsRehashing_def
          entries_def tab_def)
  qed
  have sizes: "0 < DICTHT_SIZE (ht_size_exp d 0)" "0 < DICTHT_SIZE (ht_size_exp d 1)"
    using table_ok_size [OF I(3)] table_ok_size [OF I(4)] by simp_all
  note run = dictRehash_run [OF True sizes L(1), of can_resize]
  consider (skip) "dictRehash can_resize T d n = Some (d, False)" "can_resize \<noteq> DICT_RESIZE_ENABLE"
    | (part) "dictRehash can_resize T d n = Some (d1, True)" "out \<or> ht_used d1 0 \<noteq> 0"
    | (full) "dictRehash can_resize T d n = Some (?d, False)" "ht_used d1 0 = 0"
    unfolding run by (cases "rehash_skipped can_resize d"; cases "\<not> out \<and> ht_used d1 0 = 0") (auto simp: rehash_skipped_def)
  then show ?thesis
  proof cases
    case skip
    with assms show ?thesis by auto
  next
    case part
    with L J(1) show ?thesis
      by (intro exI [of _ d1] exI [of _ True]) (auto simp: same_shape_def)
  next
    case full
    have "pauserehash ?d = pauserehash d" "\<not> dictIsRehashing ?d" "ht_table ?d 0 \<noteq> None"
      using L(4) J(2) by (simp_all add: same_shape_def dictReset_def dictIsRehashing_def)
    with full fin [OF full(2)] L(5) show ?thesis
      by (intro exI [of _ ?d] exI [of _ False]) simp
  qed
qed

lemma rehash_tick_spec:
  assumes "dict_inv T d"
  obtains d' where "rehash_tick can_resize T d = Some d'" "dict_inv T d'"
    "pauserehash d' = pauserehash d" "mset (entries d') = mset (entries d)"
    "ht_table d 0 \<noteq> None \<longrightarrow> ht_table d' 0 \<noteq> None"
proof (cases "dictIsRehashing d \<and> pauserehash d = 0")
  case True
  obtain d' r where "dictRehash can_resize T d 1 = Some (d', r)" "dict_inv T d'"
    "pauserehash d' = pauserehash d" "mset (entries d') = mset (entries d)"
    "ht_table d 0 \<noteq> None \<longrightarrow> ht_table d' 0 \<noteq> None"
    using dictRehash_spec [OF assms, of can_resize 1] by blast
  with True show ?thesis by (intro that [of d']) (simp_all add: rehash_tick_def dictRehashStep_def)
next
  case False
  with assms show ?thesis by (intro that [of d]) (auto simp: rehash_tick_def dictRehashStep_def)
qed

lemma dict_map_mset:
  "dict_inv T d \<Longrightarrow> mset (entries d') = mset (entries d) \<Longrightarrow> dict_map d' = dict_map d"
  unfolding dict_map_def by (rule mset_map_of_eq [symmetric]) (auto simp: dict_inv_def)

lemma dictSize_entries: "dict_inv T d \<Longrightarrow> dictSize d = length (entries d)"
  by (auto simp: dict_inv_def ht_ok_def dictSize_def entries_def tab_def table_ok_def split: option.splits)

section \<open>Lookup\<close>

lemma dictKeyMatch_eq [simp]: "dictType_ok T \<Longrightarrow> dictKeyMatch T a b \<longleftrightarrow> a = b"
  by (auto simp: dictKeyMatch_def dictType_ok_def split: option.splits)

lemma chain_find_spec:
  assumes "dictType_ok T"
  shows "case chain_find T k b of
      None \<Rightarrow> k \<notin> fst ` set b
    | Some j \<Rightarrow> j < length b \<and> fst (b ! j) = k"
  using assms by (induction b) (auto split: option.splits)

text \<open>The entries of a dictionary, found by table, bucket and place.\<close>

lemma entry_at_iff:
  assumes "ht_table d t = Some tbl" "i < length tbl"
  shows "entry_at d (t, i, j) = (if j < length (tbl ! i) then Some (tbl ! i ! j) else None)"
  using assms by (simp add: entry_at_def rd_def)

lemma find_tables_spec:
  assumes T: "dictType_ok T" and inv: "dict_inv T d" and t0: "ht_table d 0 \<noteq> None"
  obtains r idx where "find_tables T d k (hashFunction T k) = Some (r, idx)"
    "r = None \<Longrightarrow> k \<notin> fst ` set (entries d) \<and>
       idx = slot (hashFunction T k) (ht_size_exp d (if dictIsRehashing d then 1 else 0))"
    "\<And>t i j. r = Some (t, i, j) \<Longrightarrow> t \<le> 1 \<and> (\<exists>tbl. ht_table d t = Some tbl \<and> i < length tbl \<and>
       j < length (tbl ! i) \<and> fst (tbl ! i ! j) = k)"
proof -
  obtain tbl0 where tbl0: "ht_table d 0 = Some tbl0" using t0 by auto
  let ?i = "\<lambda>t. slot (hashFunction T k) (ht_size_exp d t)"
  have ok: "table_ok T tbl0 (ht_size_exp d 0) (ht_used d 0)"
    using inv tbl0 by (simp add: dict_inv_def ht_ok_def)
  have notin: "k \<notin> fst ` set (concat tbl)"
    if "table_ok T tbl e n" "k \<notin> fst ` set (tbl ! slot (hashFunction T k) e)" for tbl :: "('a, 'b) table" and e n
    using that concat_bucket(1) [OF that(1)] by fastforce
  show ?thesis
  proof (cases "chain_find T k (tbl0 ! ?i 0)")
    case (Some j)
    then show ?thesis
      using chain_find_spec [OF T, of k "tbl0 ! ?i 0"] tbl0 concat_bucket(2) [OF ok, of k]
      by (intro that [of "Some (0, ?i 0, j)" "?i 0"]) (auto simp: find_tables_def Let_def)
  next
    case None
    then have n0: "k \<notin> fst ` set (concat tbl0)"
      using chain_find_spec [OF T, of k "tbl0 ! ?i 0"] notin [OF ok] by simp
    show ?thesis
    proof (cases "dictIsRehashing d")
      case False
      then have "entries d = concat tbl0" using dict_inv_idle(4) [OF inv False] tbl0 by simp
      with None n0 False tbl0 show ?thesis
        using concat_bucket(2) [OF ok, of k]
        by (intro that [of None "?i 0"]) (auto simp: find_tables_def Let_def)
    next
      case True
      from inv True obtain tbl1 where I: "ht_table d 1 = Some tbl1"
        "table_ok T tbl1 (ht_size_exp d 1) (ht_used d 1)" "entries d = concat tbl0 @ concat tbl1"
        using tbl0 by (elim dict_inv_rehashing) auto
      show ?thesis
      proof (cases "chain_find T k (tbl1 ! ?i 1)")
        case (Some j)
        with None True show ?thesis
          using chain_find_spec [OF T, of k "tbl1 ! ?i 1"] tbl0 I concat_bucket(2) [OF ok, of k]
            concat_bucket(2) [OF I(2), of k]
          by (intro that [of "Some (1, ?i 1, j)" "?i 1"]) (auto simp: find_tables_def Let_def)
      next
        case None1: None
        then have n1: "k \<notin> fst ` set (concat tbl1)"
          using chain_find_spec [OF T, of k "tbl1 ! ?i 1"] notin [OF I(2)] by simp
        with None None1 n0 True show ?thesis
          using tbl0 I concat_bucket(2) [OF ok, of k] concat_bucket(2) [OF I(2), of k]
          by (intro that [of None "?i 1"]) (auto simp: find_tables_def Let_def)
      qed
    qed
  qed
qed

section \<open>Expansion\<close>

lemma next_exp_loop_ge: "sz \<le> 2 ^ next_exp_loop e sz \<and> e \<le> next_exp_loop e sz"
  by (induction e sz rule: next_exp_loop.induct) (subst (1 2) next_exp_loop.simps, auto)

lemma next_exp_loop_le: "sz \<le> 2 ^ m \<Longrightarrow> e \<le> m \<Longrightarrow> next_exp_loop e sz \<le> m"
proof (induction e sz rule: next_exp_loop.induct)
  case (1 e sz)
  then show ?case
    by (cases "sz \<le> 2 ^ e"; cases "e = m") (auto simp: next_exp_loop.simps [of e sz] next_exp_loop.simps [of m sz])
qed

lemma dictNextExp_bounds:
  "0 \<le> dictNextExp sz" "dictNextExp sz < 64" "sz \<le> 2 ^ 63 \<Longrightarrow> sz \<le> 2 ^ nat (dictNextExp sz)"
  "2 \<le> m \<Longrightarrow> m < 63 \<Longrightarrow> sz \<le> 2 ^ m \<Longrightarrow> nat (dictNextExp sz) \<le> m"
proof -
  show "0 \<le> dictNextExp sz" "dictNextExp sz < 64"
    using next_exp_loop_le [of sz 63 2] by (auto simp: dictNextExp_def DICT_HT_INITIAL_EXP_def)
  show "sz \<le> 2 ^ 63 \<Longrightarrow> sz \<le> 2 ^ nat (dictNextExp sz)"
    using next_exp_loop_ge [of sz 2] by (auto simp: dictNextExp_def DICT_HT_INITIAL_EXP_def)
  assume "2 \<le> m" "m < 63" "sz \<le> 2 ^ m"
  moreover have "(2::nat) ^ m \<le> 2 ^ 62" using \<open>m < 63\<close> by (intro power_increasing) auto
  ultimately show "nat (dictNextExp sz) \<le> m"
    using next_exp_loop_le [of sz m 2] by (auto simp: dictNextExp_def DICT_HT_INITIAL_EXP_def)
qed

lemma table_ok_empty: "0 \<le> e \<Longrightarrow> e < 64 \<Longrightarrow> table_ok T (replicate (2 ^ nat e) []) e 0"
  by (simp add: table_ok_def)

lemma dictExpand_gen_spec:
  assumes "dict_inv T d" "dictExpand_gen d sz mf = (d', ok, failed)"
  shows "dict_inv T d' \<and> pauserehash d' = pauserehash d \<and> entries d' = entries d \<and>
    (ok \<or> ht_table d 0 \<noteq> None \<longrightarrow> ht_table d' 0 \<noteq> None) \<and> (\<not> ok \<longrightarrow> d' = d)"
proof (cases ok)
  case False
  with assms show ?thesis by (auto simp: dictExpand_gen_def Let_def split: if_splits)
next
  case True
  let ?e = "dictNextExp sz"
  have nr: "\<not> dictIsRehashing d" using assms(2) True by (auto simp: dictExpand_gen_def)
  note e = table_ok_empty [OF dictNextExp_bounds(1,2), of T sz]
  have i: "ht_ok T d 0" "distinct (map fst (entries d))" "rehashidx d = - 1" "ht_table d 1 = None"
    "ht_size_exp d 1 = - 1" "ht_used d 1 = 0"
    using assms(1) nr dict_inv_idle [OF assms(1) nr] by (simp_all add: dict_inv_def dictIsRehashing_def)
  show ?thesis
  proof (cases "ht_table d 0")
    case None
    have "d' = d\<lparr>ht_size_exp := (ht_size_exp d)(0 := ?e), ht_used := (ht_used d)(0 := 0),
       ht_table := (ht_table d)(0 := Some (replicate (2 ^ nat ?e) []))\<rparr>"
      using assms(2) True None by (simp add: dictExpand_gen_def Let_def split: if_splits)
    with True None i e show ?thesis
      by (auto simp: dict_inv_def ht_ok_def rehash_ok_def dictIsRehashing_def entries_def tab_def)
  next
    case (Some tbl)
    have "d' = d\<lparr>ht_size_exp := (ht_size_exp d)(1 := ?e), ht_used := (ht_used d)(1 := 0),
       ht_table := (ht_table d)(1 := Some (replicate (2 ^ nat ?e) [])), rehashidx := 0\<rparr>"
      using assms(2) True Some by (simp add: dictExpand_gen_def Let_def split: if_splits)
    with True Some i e show ?thesis
      by (auto simp: dict_inv_def ht_ok_def rehash_ok_def dictIsRehashing_def entries_def tab_def)
  qed
qed

lemma dictExpand_spec:
  assumes "dict_inv T d" "dictExpand d sz = (d', ok)"
  shows "dict_inv T d' \<and> pauserehash d' = pauserehash d \<and> entries d' = entries d \<and>
    (ok \<or> ht_table d 0 \<noteq> None \<longrightarrow> ht_table d' 0 \<noteq> None) \<and> (\<not> ok \<longrightarrow> d' = d)"
  using assms dictExpand_gen_spec [OF assms(1), of sz None d' ok]
  by (auto simp: dictExpand_def split: prod.splits)

lemma dictExpand_ok:
  assumes "\<not> dictIsRehashing d" "ht_used d 0 \<le> sz" "sz \<le> 2 ^ 60"
    "ht_size_exp d 0 = - 1 \<or> DICTHT_SIZE (ht_size_exp d 0) < sz"
  shows "snd (dictExpand d sz)"
proof -
  let ?e = "nat (dictNextExp sz)"
  have "?e \<le> 60" using dictNextExp_bounds(4) [of 60 sz] assms(3) by simp
  then have le: "(2::nat) ^ ?e \<le> 2 ^ 60" by (intro power_increasing) auto
  have ge: "sz \<le> 2 ^ ?e" using dictNextExp_bounds(3) [of sz] assms(3) by simp
  have "dictNextExp sz \<noteq> ht_size_exp d 0"
    using assms(4) ge dictNextExp_bounds(1) [of sz] by (auto simp: DICTHT_SIZE_def split: if_splits)
  with le ge assms show ?thesis by (auto simp: dictExpand_def dictExpand_gen_def Let_def)
qed

lemma dictExpandIfNeeded_spec:
  assumes "dict_inv T d" "dictSize d < 2 ^ 60"
  obtains d' where "dictExpandIfNeeded can_resize T d = (d', True)" "dict_inv T d'"
    "pauserehash d' = pauserehash d" "entries d' = entries d" "ht_table d' 0 \<noteq> None"
proof -
  have used: "ht_used d 0 < 2 ^ 60" using assms(2) by (simp add: dictSize_def)
  have t0: "ht_table d 0 \<noteq> None" if "dictIsRehashing d \<or> DICTHT_SIZE (ht_size_exp d 0) \<noteq> 0"
    using that assms(1)
    by (auto simp: dict_inv_def rehash_ok_def ht_ok_def DICTHT_SIZE_def split: option.splits)
  obtain d' ok where r: "dictExpandIfNeeded can_resize T d = (d', ok)" by fastforce
  consider "d' = d" "ok" "dictIsRehashing d \<or> DICTHT_SIZE (ht_size_exp d 0) \<noteq> 0"
    | "\<not> dictIsRehashing d" "DICTHT_SIZE (ht_size_exp d 0) = 0" "dictExpand d DICT_HT_INITIAL_SIZE = (d', ok)"
    | "\<not> dictIsRehashing d" "DICTHT_SIZE (ht_size_exp d 0) \<le> ht_used d 0" "dictExpand d (ht_used d 0 + 1) = (d', ok)"
  proof -
    have "s \<le> u" if "5 < u div s" for u s :: nat
      using that by (metis div_less not_less not_less_zero)
    then show ?thesis
      using r that by (auto simp: dictExpandIfNeeded_def dict_force_resize_ratio_def split: if_splits)
  qed
  then have "ok \<and> dict_inv T d' \<and> pauserehash d' = pauserehash d \<and> entries d' = entries d \<and> ht_table d' 0 \<noteq> None"
  proof cases
    case 1
    with assms t0 show ?thesis by auto
  next
    case 2
    have "ht_used d 0 = 0" "ht_size_exp d 0 = - 1"
      using 2(2) assms(1) by (auto simp: dict_inv_def ht_ok_def table_ok_def DICTHT_SIZE_def split: option.splits if_splits)
    with 2 have "ok" using dictExpand_ok [of d DICT_HT_INITIAL_SIZE]
      by (simp add: DICT_HT_INITIAL_SIZE_def DICT_HT_INITIAL_EXP_def)
    with dictExpand_spec [OF assms(1) 2(3)] show ?thesis by simp
  next
    case 3
    then have "ok" using dictExpand_ok [of d "ht_used d 0 + 1"] used by simp
    with dictExpand_spec [OF assms(1) 3(3)] show ?thesis by simp
  qed
  with r that show ?thesis by simp
qed

section \<open>Changing one bucket\<close>

lemma entry_atD:
  assumes "entry_at d (t, i, j) = Some x"
  obtains tbl where "ht_table d t = Some tbl" "i < length tbl" "j < length (tbl ! i)" "tbl ! i ! j = x"
  using assms by (auto simp: entry_at_def get_bucket_def rd_def split: bind_splits if_splits)

lemma bucket_update:
  assumes inv: "dict_inv T d" and t: "t \<le> 1" and tbl: "ht_table d t = Some tbl" "i < length tbl"
    and b: "\<forall>x \<in> set b. slot (hashFunction T (fst x)) (ht_size_exp d t) = i"
    and n: "ht_used d t + length b = n + length (tbl ! i)"
    and ne: "b = [] \<or> tbl ! i \<noteq> [] \<or> t = 1 \<or> \<not> dictIsRehashing d"
    and d': "ht_table d' = (ht_table d)(t := Some (tbl[i := b]))" "ht_used d' = (ht_used d)(t := n)"
      "ht_size_exp d' = ht_size_exp d" "rehashidx d' = rehashidx d"
  shows "mset (entries d') + mset (tbl ! i) = mset (entries d) + mset b"
    and "distinct (map fst (entries d')) \<Longrightarrow> dict_inv T d'"
proof -
  have tt: "t = 0 \<or> t = 1" using t by auto
  show "mset (entries d') + mset (tbl ! i) = mset (entries d) + mset b"
    using tt tbl d'(1) mset_concat_update [OF tbl(2), of b]
    by (auto simp: entries_def tab_def ac_simps)
  assume "distinct (map fst (entries d'))"
  moreover have "table_ok T (tbl[i := b]) (ht_size_exp d t) n"
    using inv tt tbl by (intro table_okI_update [OF _ tbl(2) b n]) (auto simp: dict_inv_def ht_ok_def)
  ultimately show "dict_inv T d'"
    using inv tt tbl ne d'
    by (auto simp: dict_inv_def ht_ok_def rehash_ok_def dictIsRehashing_def tab_def nth_list_update
        split: if_splits)
qed

lemma entry_at_entries:
  assumes "entry_at d (t, i, j) = Some x" "t \<le> 1"
  shows "x \<in> set (entries d)"
proof -
  from assms(1) obtain tbl where tbl: "ht_table d t = Some tbl" "i < length tbl" "j < length (tbl ! i)" "tbl ! i ! j = x"
    by (rule entry_atD)
  then have "x \<in> set (concat tbl)" by (auto intro!: bexI [of _ "tbl ! i"])
  moreover have "t = 0 \<or> t = 1" using assms(2) by auto
  ultimately show ?thesis using tbl(1) by (auto simp: entries_def tab_def)
qed

lemma dictSetVal_spec:
  assumes T: "dict_inv T d" and p: "entry_at d p = Some (k, v)" "fst p \<le> 1"
  obtains d' es where "dictSetVal d p v' = Some d'" "dict_inv T d'"
    "mset (entries d) = add_mset (k, v) es" "mset (entries d') = add_mset (k, v') es"
proof -
  obtain t i j where "p = (t, i, j)" by (cases p)
  with p have at: "entry_at d (t, i, j) = Some (k, v)" and t: "t \<le> 1" and [simp]: "p = (t, i, j)" by auto
  from at obtain tbl where tbl: "ht_table d t = Some tbl" "i < length tbl" "j < length (tbl ! i)" "tbl ! i ! j = (k, v)"
    by (rule entry_atD)
  define b where "b = (tbl ! i)[j := (k, v')]"
  define d' where "d' = d\<lparr>ht_table := (ht_table d)(t := Some (tbl[i := b]))\<rparr>"
  have ok: "table_ok T tbl (ht_size_exp d t) (ht_used d t)"
    using T tbl(1) t by (cases "t = 0") (auto simp: dict_inv_def ht_ok_def le_Suc_eq)
  obtain es where es: "mset (entries d) = add_mset (k, v) es"
    using entry_at_entries [OF at t] by (metis in_multiset_in_set insert_DiffM)
  obtain B where B: "mset (tbl ! i) = add_mset (k, v) B"
    using tbl(3,4) by (metis in_multiset_in_set insert_DiffM nth_mem)
  have b_B: "mset b = add_mset (k, v') B"
    using tbl(3,4) B by (simp add: b_def mset_update)
  have "fst ` set b = fst ` set (tbl ! i)"
    using arg_cong [OF B, of set_mset] arg_cong [OF b_B, of set_mset] by simp
  then have sl: "\<forall>x \<in> set b. slot (hashFunction T (fst x)) (ht_size_exp d t) = i"
    using ok tbl(2) unfolding table_ok_def by (metis (no_types, lifting) image_iff)
  have n: "ht_used d t + length b = ht_used d t + length (tbl ! i)" by (simp add: b_def)
  have ne: "b = [] \<or> tbl ! i \<noteq> [] \<or> t = 1 \<or> \<not> dictIsRehashing d" using tbl(3) by auto
  note upd = bucket_update [OF T t tbl(1,2) sl n ne, of d']
  have m: "mset (entries d') = add_mset (k, v') es"
    using upd(1) by (simp add: d'_def es B b_B)
  then have "mset (map fst (entries d')) = mset (map fst (entries d))" using es by simp
  then have "distinct (map fst (entries d'))"
    using T by (metis dict_inv_def mset_eq_imp_distinct_iff)
  then have "dict_inv T d'" using upd(2) by (simp add: d'_def)
  with m es tbl show ?thesis
    by (intro that [of d' es]) (simp_all add: dictSetVal_def d'_def b_def mem_simps)
qed

lemma dict_map_add:
  assumes "dict_inv T d" "mset (entries d) = add_mset (k, v) (mset es)"
  shows "dict_map d = (map_of es)(k \<mapsto> v)" "k \<notin> fst ` set es" "distinct (map fst es)"
proof -
  have di: "distinct (map fst (entries d))" using assms(1) by (simp add: dict_inv_def)
  have m: "mset (entries d) = mset ((k, v) # es)" using assms(2) by simp
  show "dict_map d = (map_of es)(k \<mapsto> v)"
    unfolding dict_map_def mset_map_of_eq [OF m di] by simp
  have "distinct (map fst ((k, v) # es))"
    using di m by (metis mset_eq_imp_distinct_iff mset_map)
  then show "k \<notin> fst ` set es" "distinct (map fst es)" by auto
qed

lemma dict_map_eq_None: "dict_map d k = None \<longleftrightarrow> k \<notin> fst ` set (entries d)"
  by (simp add: dict_map_def map_of_eq_None_iff)

lemma dict_map_SomeI: "dict_inv T d \<Longrightarrow> (k, v) \<in> set (entries d) \<Longrightarrow> dict_map d k = Some v"
  by (simp add: dict_map_def dict_inv_def)

lemma dictSize_map: "dict_inv T d \<Longrightarrow> dictSize d = card (dom (dict_map d))"
  using distinct_card [of "map fst (entries d)"]
  by (simp add: dictSize_entries dict_map_def dom_map_of_conv_image_fst) (simp add: dict_inv_def)

lemma dict_nonempty_table: "dict_inv T d \<Longrightarrow> dictSize d \<noteq> 0 \<Longrightarrow> ht_table d 0 \<noteq> None"
  by (auto simp: dict_inv_def rehash_ok_def ht_ok_def dictSize_def split: if_splits option.splits)

text \<open>The search loop, in terms of the map.\<close>

lemma find_tables_map:
  assumes T: "dictType_ok T" and inv: "dict_inv T d" and t0: "ht_table d 0 \<noteq> None"
  obtains (None) idx where "find_tables T d k (hashFunction T k) = Some (None, idx)" "dict_map d k = None"
      "idx = slot (hashFunction T k) (ht_size_exp d (if dictIsRehashing d then 1 else 0))"
    | (Some) t i j idx v where "find_tables T d k (hashFunction T k) = Some (Some (t, i, j), idx)"
      "t \<le> 1" "entry_at d (t, i, j) = Some (k, v)" "dict_map d k = Some v"
proof -
  obtain r idx where r: "find_tables T d k (hashFunction T k) = Some (r, idx)"
    "r = None \<Longrightarrow> k \<notin> fst ` set (entries d) \<and>
       idx = slot (hashFunction T k) (ht_size_exp d (if dictIsRehashing d then 1 else 0))"
    "\<And>t i j. r = Some (t, i, j) \<Longrightarrow> t \<le> 1 \<and> (\<exists>tbl. ht_table d t = Some tbl \<and> i < length tbl \<and>
       j < length (tbl ! i) \<and> fst (tbl ! i ! j) = k)"
    by (rule find_tables_spec [OF assms, of k]) blast
  show ?thesis
  proof (cases r)
    case None
    with r(1,2) show ?thesis by (intro that(1)) (auto simp: dict_map_eq_None)
  next
    case (Some p)
    obtain t i j where p: "p = (t, i, j)" by (cases p)
    with Some r(3) obtain tbl where tbl: "t \<le> 1" "ht_table d t = Some tbl" "i < length tbl"
      "j < length (tbl ! i)" "fst (tbl ! i ! j) = k" by blast
    then have at: "entry_at d (t, i, j) = Some (k, snd (tbl ! i ! j))"
      by (simp add: entry_at_iff prod_eq_iff)
    with tbl(1) have "(k, snd (tbl ! i ! j)) \<in> set (entries d)" by (rule entry_at_entries [rotated])
    with at tbl(1) r(1) Some p show ?thesis
      by (intro that(2)) (auto intro: dict_map_SomeI [OF inv])
  qed
qed

lemma dictFetchValue_spec:
  assumes T: "dictType_ok T" and inv: "dict_inv T d"
  shows "\<exists>d'. dictFetchValue can_resize T d k = Some (d', dict_map d k) \<and> dict_inv T d' \<and>
    dict_map d' = dict_map d"
proof (cases "dictSize d = 0")
  case True
  with dictSize_entries [OF inv] have "dict_map d k = None" by (simp add: dict_map_def)
  with True inv show ?thesis by (simp add: dictFetchValue_def dictFind_def)
next
  case False
  obtain d1 where d1: "rehash_tick can_resize T d = Some d1" "dict_inv T d1"
    "mset (entries d1) = mset (entries d)" "ht_table d 0 \<noteq> None \<longrightarrow> ht_table d1 0 \<noteq> None"
    by (rule rehash_tick_spec [OF inv])
  note eq = dict_map_mset [OF inv d1(3)]
  have "ht_table d1 0 \<noteq> None" using d1(4) dict_nonempty_table [OF inv False] by blast
  from T d1(2) this show ?thesis
    by (cases rule: find_tables_map [where k = k])
      (use False d1 eq in \<open>auto simp: dictFetchValue_def dictFind_def\<close>)
qed

lemma dictAddRaw_spec:
  assumes T: "dictType_ok T" and inv: "dict_inv T d" and sz: "dictSize d < 2 ^ 60"
  obtains (Old) d' p v where "dictAddRaw can_resize T v0 d k = Some (d', None, Some p)" "dict_inv T d'"
      "dict_map d k = Some v" "fst p \<le> 1" "entry_at d' p = Some (k, v)" "mset (entries d') = mset (entries d)"
    | (New) d' p where "dictAddRaw can_resize T v0 d k = Some (d', Some p, None)" "dict_inv T d'"
      "dict_map d k = None" "fst p \<le> 1" "entry_at d' p = Some (k, v0)"
      "mset (entries d') = add_mset (k, v0) (mset (entries d))"
proof -
  obtain d1 where d1: "rehash_tick can_resize T d = Some d1" "dict_inv T d1"
    "mset (entries d1) = mset (entries d)"
    by (rule rehash_tick_spec [OF inv])
  have "dictSize d1 < 2 ^ 60"
    using sz dictSize_entries [OF inv] dictSize_entries [OF d1(2)] d1(3) by (metis size_mset)
  with d1(2) obtain d2 where d2: "dictExpandIfNeeded can_resize T d1 = (d2, True)" "dict_inv T d2"
    "entries d2 = entries d1" "ht_table d2 0 \<noteq> None"
    by (rule dictExpandIfNeeded_spec)
  have m: "mset (entries d2) = mset (entries d)" using d1(3) d2(3) by simp
  note eq = dict_map_mset [OF inv m]
  from T d2(2,4) show ?thesis
  proof (cases rule: find_tables_map [where k = k])
    case (Some t i j idx v)
    with d1 d2 m eq show ?thesis
      by (intro that(1) [of d2 "(t, i, j)" v]) (auto simp: dictAddRaw_def dictKeyIndex_def)
  next
    case (None idx)
    define t where "t = (if dictIsRehashing d2 then 1 else 0 :: nat)"
    have t: "t \<le> 1" by (simp add: t_def)
    obtain tbl where tbl: "ht_table d2 t = Some tbl"
      using d2(2,4) by (auto simp: t_def dict_inv_def rehash_ok_def split: if_splits)
    have ok: "table_ok T tbl (ht_size_exp d2 t) (ht_used d2 t)"
      using d2(2) tbl by (auto simp: t_def dict_inv_def ht_ok_def split: if_splits)
    have idx: "idx < length tbl" using concat_bucket(2) [OF ok, of k] None(3) by (simp add: t_def)
    define b where "b = (k, v0) # tbl ! idx"
    define d3 where "d3 = inc_used (d2\<lparr>ht_table := (ht_table d2)(t := Some (tbl[idx := b]))\<rparr>) t"
    have sl: "\<forall>x \<in> set b. slot (hashFunction T (fst x)) (ht_size_exp d2 t) = idx"
      using ok idx None(3) by (auto simp: b_def t_def table_ok_def)
    have n: "ht_used d2 t + length b = (ht_used d2 t + 1) + length (tbl ! idx)" by (simp add: b_def)
    have ne: "b = [] \<or> tbl ! idx \<noteq> [] \<or> t = 1 \<or> \<not> dictIsRehashing d2" by (simp add: t_def)
    note upd = bucket_update [OF d2(2) t tbl idx sl n ne, of d3]
    have m3: "mset (entries d3) = add_mset (k, v0) (mset (entries d2))"
      using upd(1) by (simp add: d3_def inc_used_def b_def)
    then have "mset (map fst (entries d3)) = mset (k # map fst (entries d2))" by simp
    moreover have "distinct (k # map fst (entries d2))"
      using d2(2) None(2) by (simp add: dict_inv_def dict_map_eq_None)
    ultimately have "distinct (map fst (entries d3))" by (metis mset_eq_imp_distinct_iff)
    then have "dict_inv T d3" using upd(2) by (simp add: d3_def inc_used_def)
    moreover have "dictAddRaw can_resize T v0 d k = Some (d3, Some (t, idx, 0), None)"
      using d1(1) d2(1) None(1) tbl idx
      by (simp add: dictAddRaw_def dictKeyIndex_def d3_def b_def t_def [symmetric] Let_def)
    moreover have "entry_at d3 (t, idx, 0) = Some (k, v0)"
      using idx by (subst entry_at_iff [where tbl = "tbl[idx := b]"]) (auto simp: d3_def inc_used_def b_def)
    ultimately show ?thesis
      using t m m3 eq None(2) by (intro that(2) [of d3 "(t, idx, 0)"]) auto
  qed
qed

lemma dictReplace_spec:
  assumes T: "dictType_ok T" and inv: "dict_inv T d" and sz: "dictSize d < 2 ^ 60"
  shows "\<exists>d'. dictReplace can_resize T v0 d k v = Some (d', dict_map d k = None) \<and> dict_inv T d' \<and>
    dict_map d' = (dict_map d)(k \<mapsto> v)"
  using assms
proof (cases rule: dictAddRaw_spec [where can_resize = can_resize and ?v0.0 = v0 and k = k])
  case (Old d1 p w)
  obtain d' es where d': "dictSetVal d1 p v = Some d'" "dict_inv T d'"
    "mset (entries d1) = add_mset (k, w) es" "mset (entries d') = add_mset (k, v) es"
    by (rule dictSetVal_spec [OF Old(2,5,4)])
  obtain xs where xs: "es = mset xs" by (metis ex_mset)
  have "dict_map d' = (dict_map d)(k \<mapsto> v)"
    using dict_map_add(1) [OF d'(2), of k v xs] dict_map_add(1) [OF Old(2), of k w xs] d'(3,4) xs
      dict_map_mset [OF inv Old(6)] by auto
  with Old d' show ?thesis by (simp add: dictReplace_def)
next
  case (New d1 p)
  obtain d' es where d': "dictSetVal d1 p v = Some d'" "dict_inv T d'"
    "mset (entries d1) = add_mset (k, v0) es" "mset (entries d') = add_mset (k, v) es"
    by (rule dictSetVal_spec [OF New(2,5,4)])
  have "dict_map d' = (dict_map d)(k \<mapsto> v)"
    using dict_map_add(1) [OF d'(2), of k v "entries d"] d'(3,4) New(6) by (simp add: dict_map_def)
  with New d' show ?thesis by (simp add: dictReplace_def)
qed

lemma dictAdd_spec:
  assumes T: "dictType_ok T" and inv: "dict_inv T d" and sz: "dictSize d < 2 ^ 60"
  shows "\<exists>d'. dictAdd can_resize T v0 d k v = Some (d', dict_map d k = None) \<and> dict_inv T d' \<and>
    dict_map d' = (if dict_map d k = None then (dict_map d)(k \<mapsto> v) else dict_map d)"
  using assms
proof (cases rule: dictAddRaw_spec [where can_resize = can_resize and ?v0.0 = v0 and k = k])
  case (Old d1 p w)
  then show ?thesis using dict_map_mset [OF inv Old(6)] by (simp add: dictAdd_def)
next
  case (New d1 p)
  obtain d' es where d': "dictSetVal d1 p v = Some d'" "dict_inv T d'"
    "mset (entries d1) = add_mset (k, v0) es" "mset (entries d') = add_mset (k, v) es"
    by (rule dictSetVal_spec [OF New(2,5,4)])
  have "dict_map d' = (dict_map d)(k \<mapsto> v)"
    using dict_map_add(1) [OF d'(2), of k v "entries d"] d'(3,4) New(6) by (simp add: dict_map_def)
  with New d' show ?thesis by (simp add: dictAdd_def)
qed

lemma dictGenericDelete_spec:
  assumes T: "dictType_ok T" and inv: "dict_inv T d"
  shows "\<exists>d'. dictGenericDelete can_resize T d k = Some (d', map_option (Pair k) (dict_map d k)) \<and>
    dict_inv T d' \<and> dict_map d' = (dict_map d)(k := None)"
proof (cases "dictSize d = 0")
  case True
  with dictSize_entries [OF inv] have "dict_map d = Map.empty" by (simp add: dict_map_def)
  with True inv show ?thesis by (simp add: dictGenericDelete_def)
next
  case False
  obtain d1 where d1: "rehash_tick can_resize T d = Some d1" "dict_inv T d1"
    "mset (entries d1) = mset (entries d)" "ht_table d 0 \<noteq> None \<longrightarrow> ht_table d1 0 \<noteq> None"
    by (rule rehash_tick_spec [OF inv])
  note eq = dict_map_mset [OF inv d1(3)]
  have "ht_table d1 0 \<noteq> None" using d1(4) dict_nonempty_table [OF inv False] by blast
  from T d1(2) this show ?thesis
  proof (cases rule: find_tables_map [where k = k])
    case (None idx)
    with False d1 eq show ?thesis by (auto simp: dictGenericDelete_def fun_upd_idem_iff)
  next
    case (Some t i j idx v)
    from Some(3) obtain tbl where tbl: "ht_table d1 t = Some tbl" "i < length tbl" "j < length (tbl ! i)"
      "tbl ! i ! j = (k, v)" by (rule entry_atD)
    define b where "b = take j (tbl ! i) @ drop (Suc j) (tbl ! i)"
    define d2 where "d2 = dec_used (d1\<lparr>ht_table := (ht_table d1)(t := Some (tbl[i := b]))\<rparr>) t"
    have ok: "table_ok T tbl (ht_size_exp d1 t) (ht_used d1 t)"
      using d1(2) tbl(1) Some(2) by (cases "t = 0") (auto simp: dict_inv_def ht_ok_def le_Suc_eq)
    have split: "tbl ! i = take j (tbl ! i) @ (k, v) # drop (Suc j) (tbl ! i)"
      using tbl(3,4) by (metis id_take_nth_drop)
    have B: "mset (tbl ! i) = add_mset (k, v) (mset b)"
      using arg_cong [OF split, of mset] by (simp add: b_def)
    have "set b \<subseteq> set (tbl ! i)" using arg_cong [OF B, of set_mset] by auto
    then have sl: "\<forall>x \<in> set b. slot (hashFunction T (fst x)) (ht_size_exp d1 t) = i"
      using ok tbl(2) unfolding table_ok_def by blast
    have len: "length (tbl ! i) = Suc (length b)" using arg_cong [OF B, of size] by simp
    have pos: "ht_used d1 t \<noteq> 0"
    proof -
      have "ht_used d1 t = length (concat tbl)" using ok unfolding table_ok_def by blast
      then show ?thesis using len length_concat_update [OF tbl(2), of b] by linarith
    qed
    have n: "ht_used d1 t + length b = (ht_used d1 t - 1) + length (tbl ! i)" using pos len by simp
    have ne: "b = [] \<or> tbl ! i \<noteq> [] \<or> t = 1 \<or> \<not> dictIsRehashing d1" using tbl(3) by auto
    note upd = bucket_update [OF d1(2) Some(2) tbl(1,2) sl n ne, of d2]
    have m: "mset (entries d1) = add_mset (k, v) (mset (entries d2))"
      using upd(1) pos by (simp add: d2_def dec_used_def B)
    note add = dict_map_add [OF d1(2) m]
    have "dict_inv T d2" using upd(2) add(3) pos by (simp add: d2_def dec_used_def)
    moreover have "dict_map d2 = (dict_map d)(k := None)"
    proof -
      have "map_of (entries d2) k = None" using add(2) by (simp add: map_of_eq_None_iff)
      then show ?thesis using add(1) eq by (metis dict_map_def fun_upd_triv fun_upd_upd)
    qed
    moreover have "dictGenericDelete can_resize T d k = Some (d2, Some (k, v))"
      using False d1(1) Some(1) tbl by (simp add: dictGenericDelete_def d2_def b_def mem_simps)
    ultimately show ?thesis using Some(4) eq by auto
  qed
qed

section \<open>The dictionary is a key-value store\<close>

definition dict_ops ::
  "'k dictType \<Rightarrow> 'v \<Rightarrow> (dictResizeEnable, ('k, 'v) dict, 'k, 'v) store_ops" where
  "dict_ops T v0 =
     \<lparr>kv_fetch = \<lambda>c d k. dictFetchValue c T d k,
      kv_add = \<lambda>c d k v. dictAdd c T v0 d k v,
      kv_replace = \<lambda>c d k v. dictReplace c T v0 d k v,
      kv_delete = \<lambda>c d k. dictDelete c T d k\<rparr>"

lemma dict_kv_store:
  assumes "dictType_ok T"
  shows "kv_store (dict_inv T) dict_map (2 ^ 60) (dict_ops T v0)"
proof
  fix d :: "('a, 'b) dict" and c k v
  assume inv: "dict_inv T d"
  show "finite (dom (dict_map d))" by (simp add: dict_map_def finite_dom_map_of)
  show "\<exists>s'. kv_fetch (dict_ops T v0) c d k = Some (s', dict_map d k) \<and> dict_inv T s' \<and> dict_map s' = dict_map d"
    using dictFetchValue_spec [OF assms inv] by (simp add: dict_ops_def)
  show "\<exists>s'. kv_delete (dict_ops T v0) c d k = Some (s', dict_map d k \<noteq> None) \<and> dict_inv T s' \<and>
      dict_map s' = (dict_map d)(k := None)"
    using dictGenericDelete_spec [OF assms inv, of c k] by (fastforce simp: dict_ops_def dictDelete_def)
  assume "card (dom (dict_map d)) < 2 ^ 60"
  then have sz: "dictSize d < 2 ^ 60" by (simp add: dictSize_map [OF inv])
  show "\<exists>s'. kv_add (dict_ops T v0) c d k v = Some (s', dict_map d k = None) \<and> dict_inv T s' \<and>
      dict_map s' = (if dict_map d k = None then (dict_map d)(k \<mapsto> v) else dict_map d)"
    using dictAdd_spec [OF assms inv sz] by (simp add: dict_ops_def)
  show "\<exists>s'. kv_replace (dict_ops T v0) c d k v = Some (s', dict_map d k = None) \<and> dict_inv T s' \<and>
      dict_map s' = (dict_map d)(k \<mapsto> v)"
    using dictReplace_spec [OF assms inv sz] by (simp add: dict_ops_def)
qed

lemma dict_inv_init: "dict_inv T (dictInit d)" "dict_map (dictInit d) = Map.empty"
  by (simp_all add: dictInit_def dictReset_def dict_inv_def ht_ok_def rehash_ok_def dictIsRehashing_def
      entries_def tab_def dict_map_def)

section \<open>Incremental rehashing ends\<close>

text \<open>\<open>n\<close> accesses, each of which does one step.\<close>

fun rehash_ticks ::
  "nat \<Rightarrow> dictResizeEnable \<Rightarrow> 'k dictType \<Rightarrow> ('k, 'v) dict \<Rightarrow> ('k, 'v) dict option" where
  "rehash_ticks 0 can_resize T d = Some d"
| "rehash_ticks (Suc n) can_resize T d = do { d \<leftarrow> rehash_tick can_resize T d; rehash_ticks n can_resize T d }"

lemma rehash_tick_idle: "\<not> dictIsRehashing d \<Longrightarrow> rehash_ticks n can_resize T d = Some d"
  by (induction n) (simp_all add: rehash_tick_def)

lemma rehash_loop_out: "rehash_loop T n ev d = Some (d', True) \<Longrightarrow> ht_used d' 0 \<noteq> 0"
proof (induction T n ev d rule: rehash_loop.induct)
  case (2 T n ev d)
  then show ?case by (auto split: if_splits Option.bind_splits)
qed simp

text \<open>Whether a step of the rehash is taken: it is not while an iterator pauses it, nor when the resize policy forbids it.\<close>

definition rehash_runs :: "dictResizeEnable \<Rightarrow> ('k, 'v) dict \<Rightarrow> bool" where
  "rehash_runs can_resize d \<longleftrightarrow> pauserehash d = 0 \<and> \<not> rehash_skipped can_resize d"

lemma rehashing_sizes:
  assumes "dict_inv T d" "dictIsRehashing d"
  shows "0 < DICTHT_SIZE (ht_size_exp d 0)" "0 < DICTHT_SIZE (ht_size_exp d 1)"
  by (rule dict_inv_rehashing [OF assms], metis table_ok_size)+

lemma rehash_tick_stops: "dict_inv T d \<Longrightarrow> \<not> rehash_runs can_resize d \<Longrightarrow> rehash_tick can_resize T d = Some d"
proof -
  assume inv: "dict_inv T d" and no: "\<not> rehash_runs can_resize d"
  show ?thesis
  proof (cases "dictIsRehashing d \<and> pauserehash d = 0")
    case True
    then have sk: "rehash_skipped can_resize d" using no by (simp add: rehash_runs_def)
    obtain d1 out where "rehash_loop T 1 (int 1 * 10) d = Some (d1, out)" using rehash_loop_spec [OF inv, of 1 "int 1 * 10"] True by blast
    then have "dictRehash can_resize T d 1 = Some (d, False)"
      using dictRehash_run [of d T 1 d1 out can_resize] True sk rehashing_sizes [OF inv] by simp
    then show ?thesis by (simp add: rehash_tick_def dictRehashStep_def)
  qed (auto simp: rehash_tick_def dictRehashStep_def)
qed

text \<open>A step that is taken: either the rehash is over, or an old bucket was left behind and there are entries in the old table still.\<close>

lemma rehash_tick_runs:
  assumes inv: "dict_inv T d" and runs: "rehash_runs can_resize d" and re: "dictIsRehashing d"
  shows "\<exists>d'. rehash_tick can_resize T d = Some d' \<and> dict_inv T d' \<and> mset (entries d') = mset (entries d) \<and>
    (dictIsRehashing d' \<longrightarrow> rehash_runs can_resize d' \<and> ht_size_exp d' = ht_size_exp d \<and> rehashidx d < rehashidx d' \<and> 0 < ht_used d' 0)"
proof -
  obtain d1 out where L: "rehash_loop T 1 (int 1 * 10) d = Some (d1, out)" "dict_inv T d1" "dictIsRehashing d1" "same_shape d d1"
      "out \<or> ht_used d1 0 \<noteq> 0 \<Longrightarrow> rehashidx d < rehashidx d1"
    using rehash_loop_spec [OF inv re, of 1 "int 1 * 10"] by auto
  obtain d' r where d': "dictRehash can_resize T d 1 = Some (d', r)" "dict_inv T d'" "pauserehash d' = pauserehash d" "mset (entries d') = mset (entries d)"
    using dictRehash_spec [OF inv, of can_resize 1] by auto
  have tick: "rehash_tick can_resize T d = Some d'" using re runs d'(1) by (simp add: rehash_tick_def dictRehashStep_def rehash_runs_def)
  have run: "dictIsRehashing d' \<Longrightarrow> d' = d1 \<and> (out \<or> ht_used d1 0 \<noteq> 0)"
    using dictRehash_run [OF re rehashing_sizes [OF inv re] L(1), of can_resize] runs d'(1)
    by (auto simp: rehash_runs_def dictIsRehashing_def split: if_splits)
  have "dictIsRehashing d' \<longrightarrow> rehash_runs can_resize d' \<and> ht_size_exp d' = ht_size_exp d \<and> rehashidx d < rehashidx d' \<and> 0 < ht_used d' 0"
  proof
    assume "dictIsRehashing d'"
    then have eq: "d' = d1" "out \<or> ht_used d1 0 \<noteq> 0" using run by blast+
    then have "0 < ht_used d1 0" using rehash_loop_out [of T 1 "int 1 * 10" d d1] L(1) by (cases out) (simp_all del: rehash_loop.simps)
    then show "rehash_runs can_resize d' \<and> ht_size_exp d' = ht_size_exp d \<and> rehashidx d < rehashidx d' \<and> 0 < ht_used d' 0"
      using eq L(4,5) runs by (auto simp: rehash_runs_def rehash_skipped_def same_shape_def)
  qed
  then show ?thesis using tick d'(2,4) by blast
qed

lemma rehashidx_bound:
  assumes inv: "dict_inv T d" and re: "dictIsRehashing d" and used: "0 < ht_used d 0"
  shows "rehashidx d < int (DICTHT_SIZE (ht_size_exp d 0))"
proof -
  from inv re obtain tbl0 tbl1 where "ht_table d 0 = Some tbl0" "ht_table d 1 = Some tbl1"
    and I: "table_ok T tbl0 (ht_size_exp d 0) (ht_used d 0)" "0 \<le> rehashidx d" "\<And>i. i < nat (rehashidx d) \<Longrightarrow> tbl0 ! i = []"
    by (rule dict_inv_rehashing) blast
  from nonempty_bucket [OF I(1), of "nat (rehashidx d)"] I(3) used obtain j where "j < length tbl0" "nat (rehashidx d) \<le> j" by blast
  then show ?thesis using table_ok_size [OF I(1)] I(2) by linarith
qed

lemma rehash_ticks_progress:
  assumes "dict_inv T d" "rehash_runs can_resize d" "dictIsRehashing d"
  shows "\<exists>d'. rehash_ticks (Suc n) can_resize T d = Some d' \<and> dict_inv T d' \<and> mset (entries d') = mset (entries d) \<and>
    (dictIsRehashing d' \<longrightarrow> 0 < ht_used d' 0 \<and> rehashidx d + int (Suc n) < int (DICTHT_SIZE (ht_size_exp d 0)))"
  using assms
proof (induction n arbitrary: d)
  case (0 d)
  obtain d1 where d1: "rehash_tick can_resize T d = Some d1" "dict_inv T d1" "mset (entries d1) = mset (entries d)"
    "dictIsRehashing d1 \<longrightarrow> rehash_runs can_resize d1 \<and> ht_size_exp d1 = ht_size_exp d \<and> rehashidx d < rehashidx d1 \<and> 0 < ht_used d1 0"
    using rehash_tick_runs [OF 0] by blast
  have "rehashidx d1 < int (DICTHT_SIZE (ht_size_exp d 0))" if "dictIsRehashing d1"
    using rehashidx_bound [OF d1(2) that] d1(4) that by simp
  then show ?case using d1 by auto
next
  case (Suc n d)
  obtain d1 where d1: "rehash_tick can_resize T d = Some d1" "dict_inv T d1" "mset (entries d1) = mset (entries d)"
    "dictIsRehashing d1 \<longrightarrow> rehash_runs can_resize d1 \<and> ht_size_exp d1 = ht_size_exp d \<and> rehashidx d < rehashidx d1 \<and> 0 < ht_used d1 0"
    using rehash_tick_runs [OF Suc.prems] by blast
  show ?case
  proof (cases "dictIsRehashing d1")
    case True
    then show ?thesis using Suc.IH [OF d1(2)] d1 by fastforce
  next
    case False
    then show ?thesis using d1 rehash_tick_idle [OF False, of "Suc n" can_resize T] by auto
  qed
qed

section \<open>The dictionary types of the server\<close>

lemma dictSdsKeyCompare_eq: "dictSdsKeyCompare a b \<longleftrightarrow> a = b"
proof -
  have "list_all (\<lambda>(x, y). x = y) (zip a b) \<longleftrightarrow> a = b" if "length a = length b"
    using that by (induction rule: list_induct2) auto
  then show ?thesis by (auto simp: dictSdsKeyCompare_def Let_def)
qed

lemma server_dictTypes_ok [simp]:
  "dictType_ok (dbDictType h om)" "dictType_ok (setDictType h)" "dictType_ok (hashDictType h)"
  by (simp_all add: dictType_ok_def dbDictType_def setDictType_def hashDictType_def dictSdsKeyCompare_eq)

interpretation dbdict: kv_store "dict_inv (dbDictType h om)" dict_map "2 ^ 60" "dict_ops (dbDictType h om) v0"
  for h om v0
  by (rule dict_kv_store) simp

interpretation setdict: kv_store "dict_inv (setDictType h)" dict_map "2 ^ 60" "dict_ops (setDictType h) v0"
  for h v0
  by (rule dict_kv_store) simp

section \<open>Properties\<close>

text \<open>
  C5: A dictionary that starts empty answers every sequence of lookups, additions,
  replacements and deletions exactly as a finite map does, whatever the hash function and
  whatever \<open>dict_can_resize\<close> is at each call, however expansions and rehash steps
  interleave with the operations. No operation leaves a table's bounds.
\<close>

theorem dict_refines_map:
  assumes "dictType_ok T" "length ps \<le> 2 ^ 60"
  shows "\<exists>d' rs. store_run (dict_ops T v0) (dictInit d0) ps = Some (d', rs) \<and> dict_inv T d' \<and>
    map_run Map.empty (map snd ps) = (dict_map d', rs)"
proof -
  have "kv_store (dict_inv T) dict_map (2 ^ 60) (dict_ops T v0)"
    using assms(1) by (rule dict_kv_store)
  from kv_store.run_refines [OF this, of "dictInit d0" ps] assms(2) show ?thesis
    by (simp add: dict_inv_init)
qed

theorem dict_refines_map_witness:
  "\<exists>d' rs. store_run (dict_ops (hashDictType (\<lambda>k. of_nat (length k))) ([] :: buffer))
      (dictInit \<lparr>ht_table = \<lambda>_. None, ht_used = \<lambda>_. 7, rehashidx = 3, pauserehash = 1, ht_size_exp = \<lambda>_. 9\<rparr>)
      [(DICT_RESIZE_ENABLE, KvAdd [1] [2]), (DICT_RESIZE_AVOID, KvReplace [1] [3]), (DICT_RESIZE_FORBID, KvFetch [1])] =
        Some (d', rs) \<and> dict_inv (hashDictType (\<lambda>k. of_nat (length k))) d' \<and>
      rs = [KvFlag True, KvFlag False, KvVal (Some [3])]"
  using dict_refines_map [of "hashDictType (\<lambda>k. of_nat (length k))"
      "[(DICT_RESIZE_ENABLE, KvAdd [1] [2]), (DICT_RESIZE_AVOID, KvReplace [1] [3]), (DICT_RESIZE_FORBID, KvFetch [1])]"
      "[] :: buffer"
      "\<lparr>ht_table = \<lambda>_. None, ht_used = \<lambda>_. 7, rehashidx = 3, pauserehash = 1, ht_size_exp = \<lambda>_. 9\<rparr>"]
  by (auto simp del: store_run.simps)

text \<open>
  C6: Incremental rehashing. Any positive number of accesses to a dictionary keeps its entries and its invariant and never
  fails. While an iterator pauses the rehash, or the resize policy forbids it (always, or under
  \<open>DICT_RESIZE_AVOID\<close> while the two tables differ in size by less than the forced ratio), the accesses leave the dictionary as it is.
  Otherwise each access does a step: as soon as no entry is left in the old table the rehash is over, in that same step,
  and this is the case after at most as many accesses as there are buckets from \<open>rehashidx\<close> to the end of the old table.
\<close>

theorem rehash_terminates:
  assumes "dict_inv T d" "0 < n"
  shows "\<exists>d'. rehash_ticks n can_resize T d = Some d' \<and> dict_inv T d' \<and> dictSize d' = dictSize d \<and> dict_map d' = dict_map d \<and>
    (if rehash_runs can_resize d
     then (dictIsRehashing d' \<longrightarrow> 0 < ht_used d' 0 \<and> rehashidx d + int n < int (DICTHT_SIZE (ht_size_exp d 0)))
     else d' = d)"
proof -
  have fin: ?thesis if d': "rehash_ticks n can_resize T d = Some d'" "dict_inv T d'" "mset (entries d') = mset (entries d)"
    "if rehash_runs can_resize d
     then (dictIsRehashing d' \<longrightarrow> 0 < ht_used d' 0 \<and> rehashidx d + int n < int (DICTHT_SIZE (ht_size_exp d 0)))
     else d' = d" for d'
  proof -
    have "dictSize d' = dictSize d"
      using dictSize_entries [OF assms(1)] dictSize_entries [OF d'(2)] d'(3) by (metis size_mset)
    with d' dict_map_mset [OF assms(1) d'(3)] show ?thesis by blast
  qed
  consider "\<not> rehash_runs can_resize d" | "rehash_runs can_resize d" "\<not> dictIsRehashing d" | "rehash_runs can_resize d" "dictIsRehashing d" by blast
  then show ?thesis
  proof cases
    case 1
    then have "rehash_ticks n can_resize T d = Some d" for n by (induction n) (simp_all add: rehash_tick_stops [OF assms(1)])
    then show ?thesis using 1 assms(1) by (intro fin [of d]) simp_all
  next
    case 2
    then show ?thesis using rehash_tick_idle [OF 2(2)] assms(1) by (intro fin [of d]) simp_all
  next
    case 3
    obtain m where "n = Suc m" using assms(2) gr0_implies_Suc by blast
    then obtain d' where "rehash_ticks n can_resize T d = Some d'" "dict_inv T d'" "mset (entries d') = mset (entries d)"
      "dictIsRehashing d' \<longrightarrow> 0 < ht_used d' 0 \<and> rehashidx d + int n < int (DICTHT_SIZE (ht_size_exp d 0))"
      using rehash_ticks_progress [OF assms(1) 3, of m] by blast
    then show ?thesis using 3 by (intro fin [of d']) simp_all
  qed
qed

text \<open>A dictionary in the middle of a rehash from four to eight buckets.\<close>

definition demo_dict :: "(buffer, nat) dict" where
  "demo_dict =
     \<lparr>ht_table = (\<lambda>_. None)(0 := Some [[], [], [([1, 2], 5)], []], 1 := Some [[], [([9], 4)], [], [], [], [], [], []]),
      ht_used = \<lambda>_. 1, rehashidx = 2, pauserehash = 0, ht_size_exp = (\<lambda>_. - 1)(0 := 2, 1 := 3)\<rparr>"

lemma table_ok_enumerate:
  "table_ok T tbl e n \<longleftrightarrow>
     0 \<le> e \<and> e < 64 \<and> length tbl = 2 ^ nat e \<and> n = length (concat tbl) \<and>
     list_all (\<lambda>(i, b). \<forall>x \<in> set b. slot (hashFunction T (fst x)) e = i) (enumerate 0 tbl)"
  by (auto simp: table_ok_def list_all_length nth_enumerate_eq)

lemma demo_dict_inv: "dict_inv (hashDictType (\<lambda>k. of_nat (length k))) demo_dict"
proof -
  let ?T = "hashDictType (\<lambda>k. of_nat (length k))"
  have "slot 2 2 = 2" "slot 1 3 = 1" by (simp_all add: slot_mod)
  then have "ht_ok ?T demo_dict 0" "ht_ok ?T demo_dict 1"
    by (simp_all add: ht_ok_def table_ok_enumerate demo_dict_def hashDictType_def)
  moreover have "distinct (map fst (entries demo_dict))" "rehash_ok demo_dict"
    by (simp_all add: entries_def tab_def demo_dict_def rehash_ok_def dictIsRehashing_def numeral_2_eq_2 less_Suc_eq)
  ultimately show ?thesis by (simp add: dict_inv_def)
qed

theorem rehash_terminates_witness:
  "dictIsRehashing demo_dict \<and>
   (\<exists>d'. rehash_ticks 2 DICT_RESIZE_ENABLE (hashDictType (\<lambda>k. of_nat (length k))) demo_dict = Some d' \<and>
     \<not> dictIsRehashing d' \<and> dict_map d' = dict_map demo_dict)"
proof -
  have r: "rehash_runs DICT_RESIZE_ENABLE demo_dict" by (simp add: rehash_runs_def rehash_skipped_def demo_dict_def)
  have b: "\<not> rehashidx demo_dict + int 2 < int (DICTHT_SIZE (ht_size_exp demo_dict 0))" by (simp add: demo_dict_def DICTHT_SIZE_def)
  have i: "dictIsRehashing demo_dict" by (simp add: demo_dict_def dictIsRehashing_def)
  show ?thesis using rehash_terminates [OF demo_dict_inv, of 2 DICT_RESIZE_ENABLE] r b i by (simp del: rehash_ticks.simps) blast
qed

end
