(* ===== verification/RedisDictScanProofs.thy ===== *)
theory RedisDictScanProofs
  imports RedisDictScan RedisDictProofs
begin

unbundle bit_operations_syntax

text \<open>
  Correctness of the walks over a dictionary of \<open>RedisDictScan\<close>: \<open>rev_bits\<close> reverses a
  word, a cursor stands for the position \<open>scan_pos\<close> of the reversed order, one call of
  \<open>dictScan\<close> reports exactly the hash values up to the next position, and a scan over
  a changing dictionary misses no key that stays. Clearing frees every entry once; an
  iterator returns every entry once.
\<close>

section \<open>Reversing the bits of a word\<close>

text \<open>A round with blocks of \<open>2 ^ k\<close> bits moves bit \<open>n\<close> to the index with bit \<open>k\<close> flipped.\<close>

primrec flips :: "nat \<Rightarrow> nat \<Rightarrow> nat" where
  "flips 0 n = n"
| "flips (Suc k) n = flip_bit k (flips k n)"

lemma mask_round:
  "((\<not> bit i (Suc k)) \<noteq> (2 ^ k \<le> i \<and> \<not> bit (i - 2 ^ k) (Suc k))) \<longleftrightarrow> \<not> bit i k" for i :: nat
proof -
  define q where "q = i div 2 ^ k"
  have bs: "bit x (Suc k) \<longleftrightarrow> odd (x div 2 ^ k div 2)" for x :: nat
    by (simp add: bit_iff_odd div_mult2_eq [symmetric] mult.commute)
  have le: "2 ^ k \<le> i \<longleftrightarrow> 1 \<le> q" by (simp add: q_def Suc_le_eq div_greater_zero_iff)
  have sub: "(i - 2 ^ k) div 2 ^ k = q - 1" if "1 \<le> q"
    using that le div_mult_self1 [of "2 ^ k" "i - 2 ^ k" 1] by (simp add: q_def)
  have "(even (q div 2) \<noteq> (1 \<le> q \<and> even ((q - 1) div 2))) \<longleftrightarrow> even q"
  proof (cases "even q")
    case True
    then obtain r where "q = 2 * r" by blast
    then show ?thesis by (cases r) simp_all
  next
    case False
    then obtain r where "q = 2 * r + 1" by (rule oddE)
    then show ?thesis by simp
  qed
  then show ?thesis using le sub by (auto simp: bs bit_iff_odd [of i k] q_def)
qed

lemma bit_flips: "bit (flips k n) j \<longleftrightarrow> (bit n j \<noteq> (j < k))"
  by (induction k) (auto simp: bit_flip_bit_iff less_Suc_eq)

lemma less_64_bit: "n < 64 \<longleftrightarrow> (\<forall>j \<ge> 6. \<not> bit n j)" for n :: nat
proof
  assume "n < 64"
  then have "take_bit 6 n = n" by (simp add: take_bit_nat_eq_self_iff)
  then show "\<forall>j \<ge> 6. \<not> bit n j" by (metis bit_take_bit_iff not_le)
next
  assume "\<forall>j \<ge> 6. \<not> bit n j"
  then have "take_bit 6 n = n" by (intro bit_eqI) (metis bit_take_bit_iff not_le)
  then show "n < 64" using take_bit_nat_less_exp [of 6 n] by simp
qed

lemma flips_less: "k \<le> 6 \<Longrightarrow> n < 64 \<Longrightarrow> flips k n < 64"
  by (auto simp: less_64_bit bit_flips)

lemma flips_6: "n < 64 \<Longrightarrow> flips 6 n = 63 - n"
proof -
  assume n: "n < 64"
  have "n + flips 6 n = n OR flips 6 n"
    using n by (intro disjunctive_add) (auto simp: bit_flips less_64_bit not_le)
  also have "\<dots> = mask 6" using n by (intro bit_eqI) (auto simp: bit_simps bit_flips less_64_bit not_le)
  finally show ?thesis by (simp add: mask_eq_exp_minus_1)
qed

lemma swap_step_bit:
  fixes v :: "64 word"
  assumes "n < 64" "k < 6" "\<And>i. i < 64 \<Longrightarrow> bit m i \<longleftrightarrow> \<not> bit i k"
  shows "bit ((drop_bit (2 ^ k) v AND m) OR (push_bit (2 ^ k) v AND NOT m)) n \<longleftrightarrow> bit v (flip_bit k n)"
proof (cases "bit n k")
  case True
  then have "n div 2 ^ k \<noteq> 0" by (metis bit_iff_odd even_zero)
  then have "2 ^ k \<le> n" by (metis div_less not_le)
  moreover have "flip_bit k n = n - 2 ^ k"
  proof -
    have "n = set_bit k (unset_bit k n)" using True by (intro bit_eqI) (auto simp: bit_simps)
    also have "\<dots> = unset_bit k n + 2 ^ k" by (simp add: set_bit_eq bit_simps)
    finally show ?thesis using True by (simp add: flip_bit_eq_if)
  qed
  ultimately show ?thesis using True assms by (auto simp: bit_simps)
next
  case False
  then have "flip_bit k n = n + 2 ^ k" by (simp add: flip_bit_eq_if set_bit_eq)
  with False assms show ?thesis by (auto simp: bit_simps ac_simps)
qed

lemma rev_loop_bit:
  assumes "k \<le> 6" "n < 64" "\<And>i. i < 64 \<Longrightarrow> bit m i \<longleftrightarrow> \<not> bit i k"
  shows "bit (rev_loop (2 ^ k) m v) n \<longleftrightarrow> bit v (flips k n)"
  using assms
proof (induction k arbitrary: m v)
  case 0
  then show ?case by (simp add: rev_loop.simps)
next
  case (Suc k)
  let ?m = "m XOR push_bit (2 ^ k) m"
  have m: "bit ?m i \<longleftrightarrow> \<not> bit i k" if "i < 64" for i
    using that Suc.prems(1) Suc.prems(3) [of i] Suc.prems(3) [of "i - 2 ^ k"] mask_round [of i k]
    by (auto simp: bit_simps)
  have "rev_loop (2 ^ Suc k) m v = rev_loop (2 ^ k) ?m ((drop_bit (2 ^ k) v AND ?m) OR (push_bit (2 ^ k) v AND NOT ?m))"
    by (simp add: rev_loop.simps [of "2 * 2 ^ k"] Let_def)
  then show ?case
    using Suc.IH [OF _ Suc.prems(2) m] swap_step_bit [OF flips_less _ m, of k n v] Suc.prems(1,2) by simp
qed

lemma bit_rev_bits: "bit (rev_bits v) n \<longleftrightarrow> n < 64 \<and> bit v (63 - n)"
proof (cases "n < 64")
  case True
  have "bit (rev_loop (2 ^ 6) (NOT 0) v) n \<longleftrightarrow> bit v (flips 6 n)"
    using True by (intro rev_loop_bit) (auto simp: bit_simps bit_nat_def)
  then show ?thesis using True flips_6 by (simp add: rev_bits_def)
next
  case False
  then show ?thesis using bit_imp_le_length [of "rev_bits v" n] by auto
qed

lemma rev_bits_rev_bits [simp]: "rev_bits (rev_bits v) = v"
  by (rule bit_word_eqI) (auto simp: bit_rev_bits)

lemma rev_bits_inject: "rev_bits a = rev_bits b \<longleftrightarrow> a = b"
  by (metis rev_bits_rev_bits)

lemma rev_bits_0 [simp]: "rev_bits 0 = 0"
  by (rule bit_word_eqI) (simp add: bit_rev_bits)

section \<open>The cursor\<close>

text \<open>The order in which a scan visits the hash values: by their reversed bits.\<close>

definition scan_pos :: "64 word \<Rightarrow> nat" where
  "scan_pos v = unat (rev_bits v)"

lemma scan_pos_less: "scan_pos v < 2 ^ 64"
  unfolding scan_pos_def using unsigned_less [of "rev_bits v"] by simp

lemma scan_pos_inject: "scan_pos a = scan_pos b \<longleftrightarrow> a = b"
  unfolding scan_pos_def by (metis rev_bits_inject word_eq_iff_unsigned)

lemma scan_pos_0 [simp]: "scan_pos 0 = 0"
  by (simp add: scan_pos_def)

text \<open>The elements of a bucket are an interval in this order.\<close>

lemma scan_pos_bucket:
  assumes "e \<le> 64"
  shows "h AND mask e = v AND mask e \<longleftrightarrow> scan_pos h div 2 ^ (64 - e) = scan_pos v div 2 ^ (64 - e)"
proof -
  have "h AND mask e = v AND mask e \<longleftrightarrow> take_bit e h = take_bit e v"
    by (simp add: take_bit_eq_mask)
  also have "\<dots> \<longleftrightarrow> (\<forall>n < e. bit h n \<longleftrightarrow> bit v n)"
    using assms by (auto simp: bit_eq_iff [of "take_bit e h"] bit_simps) (metis order_less_le_trans)+
  also have "\<dots> \<longleftrightarrow> (\<forall>n. bit (drop_bit (64 - e) (rev_bits h)) n \<longleftrightarrow> bit (drop_bit (64 - e) (rev_bits v)) n)"
  proof -
    have "bit (drop_bit (64 - e) (rev_bits w)) n \<longleftrightarrow> n < e \<and> bit w (e - 1 - n)" for w n
      using assms by (auto simp: bit_simps bit_rev_bits)
    moreover have "n < e \<longleftrightarrow> e - 1 - n < e \<and> n = e - 1 - (e - 1 - n)" for n by auto
    ultimately show ?thesis by (metis (no_types))
  qed
  also have "\<dots> \<longleftrightarrow> drop_bit (64 - e) (rev_bits h) = drop_bit (64 - e) (rev_bits v)"
    by (metis bit_eqI)
  also have "\<dots> \<longleftrightarrow> unat (drop_bit (64 - e) (rev_bits h)) = unat (drop_bit (64 - e) (rev_bits v))"
    by (rule word_eq_iff_unsigned)
  also have "\<dots> \<longleftrightarrow> scan_pos h div 2 ^ (64 - e) = scan_pos v div 2 ^ (64 - e)"
  proof -
    have "unat (drop_bit n w) = drop_bit n (unat w)" for n and w :: "64 word"
      by (rule bit_eqI) (auto simp: bit_simps dest: bit_imp_le_length)
    then show ?thesis by (simp only: scan_pos_def drop_bit_eq_div)
  qed
  finally show ?thesis .
qed

text \<open>The cursor moves to the start of the next interval, and to 0 after the last.\<close>

lemma scan_pos_incr:
  assumes "e \<le> 64"
  shows "scan_pos (incr_cursor (mask e) v) = (scan_pos v div 2 ^ (64 - e) + 1) * 2 ^ (64 - e) mod 2 ^ 64"
proof -
  let ?b = "64 - e"
  have "rev_bits (v OR NOT (mask e)) = rev_bits v OR mask ?b"
    using assms by (intro bit_word_eqI) (auto simp: bit_simps bit_rev_bits)
  then have "unat (rev_bits (v OR NOT (mask e))) = scan_pos v OR mask ?b"
    by (intro bit_eqI) (auto simp: scan_pos_def bit_simps)
  also have "\<dots> = push_bit ?b (drop_bit ?b (scan_pos v)) OR mask ?b"
    by (intro bit_eqI) (auto simp: bit_simps)
  also have "\<dots> = push_bit ?b (drop_bit ?b (scan_pos v)) + mask ?b"
    by (rule disjunctive_add [symmetric]) (auto simp: bit_simps)
  also have "\<dots> = scan_pos v div 2 ^ ?b * 2 ^ ?b + (2 ^ ?b - 1)"
    by (simp add: push_bit_eq_mult drop_bit_eq_div mask_eq_exp_minus_1)
  finally have "Suc (unat (rev_bits (v OR NOT (mask e)))) = (scan_pos v div 2 ^ ?b + 1) * 2 ^ ?b"
    by simp
  moreover have "scan_pos (incr_cursor (mask e) v) = Suc (unat (rev_bits (v OR NOT (mask e)))) mod 2 ^ 64"
    by (simp add: incr_cursor_def scan_pos_def unat_word_ariths)
  ultimately show ?thesis by (simp only:)
qed

definition scan_next :: "nat \<Rightarrow> 64 word \<Rightarrow> nat" where
  "scan_next e v = (scan_pos v div 2 ^ (64 - e) + 1) * 2 ^ (64 - e)"

lemma scan_next_bounds:
  assumes "e \<le> 64"
  shows "scan_pos v < scan_next e v" "scan_next e v \<le> 2 ^ 64"
proof -
  show "scan_pos v < scan_next e v"
    using dividend_less_div_times [of "2 ^ (64 - e)" "scan_pos v"] by (simp add: scan_next_def)
  have "scan_pos v < 2 ^ e * 2 ^ (64 - e)" using scan_pos_less [of v] assms by (simp flip: power_add)
  then have "scan_pos v div 2 ^ (64 - e) < 2 ^ e" by (simp add: less_mult_imp_div_less)
  then have "scan_next e v \<le> 2 ^ e * 2 ^ (64 - e)" unfolding scan_next_def by (intro mult_le_mono1) simp
  then show "scan_next e v \<le> 2 ^ 64" using assms by (simp flip: power_add)
qed

lemma scan_next_bucket:
  assumes "e \<le> 64" "scan_pos v \<le> scan_pos h" "scan_pos h < scan_next e v"
  shows "h AND mask e = v AND mask e"
proof -
  have "scan_pos v div 2 ^ (64 - e) \<le> scan_pos h div 2 ^ (64 - e)" using assms(2) by (rule div_le_mono)
  moreover have "scan_pos h div 2 ^ (64 - e) < scan_pos v div 2 ^ (64 - e) + 1"
    using assms(3) unfolding scan_next_def by (simp add: less_mult_imp_div_less)
  ultimately show ?thesis using scan_pos_bucket [OF assms(1)] by simp
qed

lemma scan_pos_dvd: "2 ^ (64 - e) dvd scan_pos v \<longleftrightarrow> (\<forall>i. e \<le> i \<and> i < 64 \<longrightarrow> \<not> bit v i)"
proof -
  have b: "bit (scan_pos v) j \<longleftrightarrow> j < 64 \<and> bit v (63 - j)" for j
    by (auto simp: scan_pos_def bit_unsigned_iff bit_rev_bits)
  have "2 ^ (64 - e) dvd scan_pos v \<longleftrightarrow> take_bit (64 - e) (scan_pos v) = 0"
    by (simp add: take_bit_eq_mod dvd_eq_mod_eq_0)
  also have "\<dots> \<longleftrightarrow> (\<forall>j. \<not> bit (take_bit (64 - e) (scan_pos v)) j)"
    by (metis bit_0_eq bit_eqI bot_apply bot_bool_def)
  also have "\<dots> \<longleftrightarrow> (\<forall>j < 64 - e. \<not> bit v (63 - j))" by (auto simp: bit_take_bit_iff b)
  also have "\<dots> \<longleftrightarrow> (\<forall>i. e \<le> i \<and> i < 64 \<longrightarrow> \<not> bit v i)"
  proof safe
    fix i assume "\<forall>j < 64 - e. \<not> bit v (63 - j)" "e \<le> i" "i < 64" "bit v i"
    moreover from this have "63 - (63 - i) = i" "63 - i < 64 - e" by auto
    ultimately show False by metis
  next
    fix j assume "\<forall>i. e \<le> i \<and> i < 64 \<longrightarrow> \<not> bit v i" "j < 64 - e" "bit v (63 - j)"
    moreover from this have "e \<le> 63 - j" "63 - j < 64" by auto
    ultimately show False by blast
  qed
  finally show ?thesis .
qed

lemma scan_continue:
  assumes "e0 \<le> e1" "e1 \<le> 64" "2 ^ (64 - e1) dvd scan_pos v"
  shows "v AND (mask e0 XOR mask e1) = 0 \<longleftrightarrow> 2 ^ (64 - e0) dvd scan_pos v"
proof -
  have "v AND (mask e0 XOR mask e1) = 0 \<longleftrightarrow> (\<forall>i. \<not> bit (v AND (mask e0 XOR mask e1)) i)"
    by (metis bit_0_eq bit_eqI bot_apply bot_bool_def)
  also have "\<dots> \<longleftrightarrow> (\<forall>i. e0 \<le> i \<and> i < e1 \<longrightarrow> \<not> bit v i)"
  proof -
    have "bit (v AND (mask e0 XOR mask e1)) i \<longleftrightarrow> e0 \<le> i \<and> i < e1 \<and> bit v i" for i
      using assms(1,2) by (auto simp: bit_simps)
    then show ?thesis by blast
  qed
  also have "\<dots> \<longleftrightarrow> (\<forall>i. e0 \<le> i \<and> i < 64 \<longrightarrow> \<not> bit v i)"
    using assms scan_pos_dvd [of e1 v] by (meson not_le order_less_le_trans)
  finally show ?thesis by (simp add: scan_pos_dvd)
qed

section \<open>One call of dictScan\<close>

lemma size_mask: "0 \<le> e \<Longrightarrow> e < 64 \<Longrightarrow> DICTHT_SIZE_MASK e = mask (nat e)"
  by (simp add: DICTHT_SIZE_MASK_def DICTHT_SIZE_def mask_eq_exp_minus_1)

text \<open>The events report the entries of a table whose positions lie in an interval.\<close>

definition reported :: "'k dictType \<Rightarrow> ('k, 'v) table \<Rightarrow> nat \<Rightarrow> nat \<Rightarrow> ('k, 'v) scan_event list \<Rightarrow> bool" where
  "reported T tbl lo hi es \<longleftrightarrow>
     (\<forall>x \<in> set (concat tbl). lo \<le> scan_pos (hashFunction T (fst x)) \<and> scan_pos (hashFunction T (fst x)) < hi \<longrightarrow>
        ScanEntry (fst x) (snd x) \<in> set es)"

lemma reported_append:
  "reported T tbl lo mid es \<Longrightarrow> reported T tbl mid hi es' \<Longrightarrow> reported T tbl lo hi (es @ es')"
  unfolding reported_def by (metis Un_iff not_le set_append)

lemma scan_bucket_spec:
  assumes tbl: "ht_table d t = Some tbl" and ok: "table_ok T tbl e n"
  obtains es where "scan_bucket bf d t (v AND DICTHT_SIZE_MASK e) = Some es"
    "reported T tbl (scan_pos v) (scan_next (nat e) v) es"
proof -
  have e: "0 \<le> e" "e < 64" using ok by (simp_all add: table_ok_def)
  let ?i = "unat (v AND DICTHT_SIZE_MASK e)"
  have lt: "?i < length tbl" using slot_less [OF e, of v] ok by (simp add: slot_def table_ok_def)
  have *: "ScanEntry (fst x) (snd x) \<in> (\<lambda>(k, v). ScanEntry k v) ` set (tbl ! ?i)"
    if "x \<in> set (concat tbl)" "scan_pos v \<le> scan_pos (hashFunction T (fst x))"
      "scan_pos (hashFunction T (fst x)) < scan_next (nat e) v" for x
  proof -
    have "hashFunction T (fst x) AND DICTHT_SIZE_MASK e = v AND DICTHT_SIZE_MASK e"
      using that e by (simp add: size_mask scan_next_bucket)
    then have "x \<in> set (tbl ! ?i)" using that(1) concat_bucket(1) [OF ok, of x] by (simp add: slot_def)
    then show ?thesis by (force simp: image_iff split: prod.splits)
  qed
  have "reported T tbl (scan_pos v) (scan_next (nat e) v) (pre @ map (\<lambda>(k, v). ScanEntry k v) (tbl ! ?i))" for pre
    unfolding reported_def using * by (simp del: set_concat)
  with lt tbl show ?thesis by (intro that) (simp_all add: scan_bucket_def)
qed

lemma scan_next_mono:
  assumes "e0 \<le> e1" "e1 \<le> 64"
  shows "scan_next e1 v \<le> scan_next e0 v"
    and "scan_next e1 v < scan_next e0 v \<Longrightarrow> \<not> 2 ^ (64 - e0) dvd scan_next e1 v"
proof -
  let ?B = "(2 :: nat) ^ (64 - e0)" and ?b = "(2 :: nat) ^ (64 - e1)"
  have B: "?B = 2 ^ (e1 - e0) * ?b" using assms by (simp flip: power_add)
  let ?q = "scan_pos v div ?b"
  have "scan_pos v div ?B = ?q div 2 ^ (e1 - e0)"
    using div_mult2_eq [of "scan_pos v" ?b "2 ^ (e1 - e0)"] B by (simp add: mult.commute)
  then have N0: "scan_next e0 v = (?q div 2 ^ (e1 - e0) + 1) * 2 ^ (e1 - e0) * ?b"
    by (simp add: scan_next_def B algebra_simps)
  have "?q + 1 \<le> (?q div 2 ^ (e1 - e0) + 1) * 2 ^ (e1 - e0)"
    using dividend_less_div_times [of "2 ^ (e1 - e0)" ?q] by (simp add: Suc_le_eq)
  then show "scan_next e1 v \<le> scan_next e0 v" unfolding N0 scan_next_def [of e1] by (rule mult_le_mono1)
  assume lt: "scan_next e1 v < scan_next e0 v"
  show "\<not> ?B dvd scan_next e1 v"
  proof
    assume "?B dvd scan_next e1 v"
    then obtain c where c: "scan_next e1 v = ?B * c" by blast
    have "scan_pos v < ?B * c" using scan_next_bounds(1) [OF assms(2), of v] c by simp
    then have "scan_pos v div ?B < c" by (simp add: less_mult_imp_div_less mult.commute)
    then have "(scan_pos v div ?B + 1) * ?B \<le> c * ?B" by (intro mult_le_mono1) simp
    then have "scan_next e0 v \<le> ?B * c" unfolding scan_next_def by (simp only: mult.commute)
    with lt c show False by simp
  qed
qed

lemma scan_expand_spec:
  assumes tbl: "ht_table d t = Some tbl" and ok: "table_ok T tbl e n"
    and e: "e0 \<le> nat e"
  shows "\<exists>v' es. scan_expand bf d t (mask e0) (DICTHT_SIZE_MASK e) v = Some (v', es) \<and>
    scan_pos v' = scan_next e0 v mod 2 ^ 64 \<and> reported T tbl (scan_pos v) (scan_next e0 v) es"
proof (induction "scan_next e0 v - scan_pos v" arbitrary: v rule: less_induct)
  case less
  have b: "0 \<le> e" "e < 64" "nat e \<le> 64" using ok by (auto simp: table_ok_def)
  obtain es where es: "scan_bucket bf d t (v AND DICTHT_SIZE_MASK e) = Some es"
    "reported T tbl (scan_pos v) (scan_next (nat e) v) es"
    by (rule scan_bucket_spec [OF tbl ok])
  define v1 where "v1 = incr_cursor (DICTHT_SIZE_MASK e) v"
  have p1: "scan_pos v1 = scan_next (nat e) v mod 2 ^ 64"
    using b by (simp add: v1_def size_mask scan_pos_incr scan_next_def)
  have pd: "(2 :: nat) ^ k dvd 2 ^ 64" if "k \<le> 64" for k using that by (intro le_imp_power_dvd)
  have dv1: "2 ^ (64 - nat e) dvd scan_pos v1"
    unfolding p1 using pd [of "64 - nat e"] by (simp add: dvd_mod scan_next_def)
  note cont = scan_continue [OF e b(3) dv1]
  have le: "scan_next (nat e) v \<le> scan_next e0 v" using scan_next_mono(1) [OF e b(3)] .
  show ?case
  proof (cases "scan_next (nat e) v = scan_next e0 v")
    case True
    have "2 ^ (64 - e0) dvd scan_pos v1"
      unfolding p1 True using pd [of "64 - e0"] by (simp add: dvd_mod scan_next_def)
    with cont have "v1 AND (mask e0 XOR DICTHT_SIZE_MASK e) = 0" using b by (simp add: size_mask)
    then have "scan_expand bf d t (mask e0) (DICTHT_SIZE_MASK e) v = Some (v1, es)"
      using es(1) by (simp add: scan_expand.simps Let_def v1_def [symmetric])
    with p1 True es(2) show ?thesis by simp
  next
    case False
    with le have lt: "scan_next (nat e) v < scan_next e0 v" by simp
    have N0: "scan_next e0 v \<le> 2 ^ 64" using e b by (intro scan_next_bounds) simp
    with lt p1 have p1': "scan_pos v1 = scan_next (nat e) v" by simp
    have "\<not> 2 ^ (64 - e0) dvd scan_pos v1" using scan_next_mono(2) [OF e b(3) lt] p1' by simp
    with cont have c: "v1 AND (mask e0 XOR DICTHT_SIZE_MASK e) \<noteq> 0" using b by (simp add: size_mask)
    have same: "scan_next e0 v1 = scan_next e0 v"
    proof -
      have "scan_pos v \<le> scan_pos v1" "scan_pos v1 < scan_next e0 v"
        using p1' lt scan_next_bounds(1) [OF b(3), of v] by simp_all
      then have "v1 AND mask e0 = v AND mask e0" using e b by (intro scan_next_bucket) simp_all
      then show ?thesis using scan_pos_bucket [of e0 v1 v] e b by (simp add: scan_next_def)
    qed
    have dec: "scan_next e0 v1 - scan_pos v1 < scan_next e0 v - scan_pos v"
      using same p1' lt scan_next_bounds(1) [OF b(3), of v] by linarith
    from less [OF dec] obtain v' es' where
      r: "scan_expand bf d t (mask e0) (DICTHT_SIZE_MASK e) v1 = Some (v', es')"
        "scan_pos v' = scan_next e0 v mod 2 ^ 64" "reported T tbl (scan_pos v1) (scan_next e0 v) es'"
      unfolding same by blast
    have "scan_expand bf d t (mask e0) (DICTHT_SIZE_MASK e) v = Some (v', es @ es')"
      using es(1) c r(1) by (subst scan_expand.simps) (simp add: Let_def v1_def [symmetric])
    moreover have "reported T tbl (scan_pos v) (scan_next e0 v) (es @ es')"
      using es(2) r(3) p1' by (auto intro: reported_append)
    ultimately show ?thesis using r(2) by blast
  qed
qed

text \<open>The exponent of the smaller table in use.\<close>

definition scan_exp :: "('k, 'v) dict \<Rightarrow> nat" where
  "scan_exp d =
     nat (if dictIsRehashing d then min (ht_size_exp d 0) (ht_size_exp d 1) else ht_size_exp d 0)"

lemma DICTHT_SIZE_less:
  "table_ok T t0 e0 n0 \<Longrightarrow> table_ok T t1 e1 n1 \<Longrightarrow> DICTHT_SIZE e0 > DICTHT_SIZE e1 \<longleftrightarrow> e0 > e1"
  by (auto simp: table_ok_def DICTHT_SIZE_def nat_less_eq_zless)

lemma scan_two_tables:
  assumes t0: "ht_table d t = Some tbl" "table_ok T tbl e n"
    and t1: "ht_table d t' = Some tbl'" "table_ok T tbl' e' n'" and e: "e \<le> e'"
  shows "\<exists>v' es es'. scan_bucket bf d t (v AND DICTHT_SIZE_MASK e) = Some es \<and>
    scan_expand bf d t' (DICTHT_SIZE_MASK e) (DICTHT_SIZE_MASK e') v = Some (v', es') \<and>
    scan_pos v' = scan_next (nat e) v mod 2 ^ 64 \<and>
    reported T tbl (scan_pos v) (scan_next (nat e) v) (es @ es') \<and>
    reported T tbl' (scan_pos v) (scan_next (nat e) v) (es @ es')"
proof -
  have b: "0 \<le> e" "e < 64" using t0(2) by (auto simp: table_ok_def)
  obtain es where es: "scan_bucket bf d t (v AND DICTHT_SIZE_MASK e) = Some es"
    "reported T tbl (scan_pos v) (scan_next (nat e) v) es"
    by (rule scan_bucket_spec [OF t0])
  have "nat e \<le> nat e'" using e by simp
  from scan_expand_spec [OF t1 this, of bf v] obtain v' es' where
    x: "scan_expand bf d t' (DICTHT_SIZE_MASK e) (DICTHT_SIZE_MASK e') v = Some (v', es')"
      "scan_pos v' = scan_next (nat e) v mod 2 ^ 64" "reported T tbl' (scan_pos v) (scan_next (nat e) v) es'"
    unfolding size_mask [OF b] by blast
  have "reported T tbl (scan_pos v) (scan_next (nat e) v) (es @ es')"
    "reported T tbl' (scan_pos v) (scan_next (nat e) v) (es @ es')"
    using es(2) x(3) by (auto simp: reported_def simp del: set_concat)
  with es x show ?thesis by blast
qed

lemma dictScan_spec:
  assumes inv: "dict_inv T d" and ne: "dictSize d \<noteq> 0"
  shows "\<exists>v' es. dictScan bf d v = Some (v', es) \<and> scan_pos v' = scan_next (scan_exp d) v mod 2 ^ 64 \<and>
    (\<forall>x \<in> set (entries d). scan_pos v \<le> scan_pos (hashFunction T (fst x)) \<and>
       scan_pos (hashFunction T (fst x)) < scan_next (scan_exp d) v \<longrightarrow> ScanEntry (fst x) (snd x) \<in> set es)"
proof (cases "dictIsRehashing d")
  case False
  obtain tbl where tbl: "ht_table d 0 = Some tbl" using dict_nonempty_table [OF inv ne] by auto
  then have ok: "table_ok T tbl (ht_size_exp d 0) (ht_used d 0)" using inv by (simp add: dict_inv_def ht_ok_def)
  obtain es where es: "scan_bucket bf d 0 (v AND DICTHT_SIZE_MASK (ht_size_exp d 0)) = Some es"
    "reported T tbl (scan_pos v) (scan_next (nat (ht_size_exp d 0)) v) es"
    by (rule scan_bucket_spec [OF tbl ok])
  have b: "0 \<le> ht_size_exp d 0" "ht_size_exp d 0 < 64" using ok by (auto simp: table_ok_def)
  have "dictScan bf d v = Some (incr_cursor (mask (nat (ht_size_exp d 0))) v, es)"
    using ne False es(1) by (simp add: dictScan_def Let_def size_mask [OF b])
  moreover have "entries d = concat tbl" using dict_inv_idle(4) [OF inv False] tbl by simp
  ultimately show ?thesis
    using False es(2) b by (simp add: scan_exp_def scan_pos_incr scan_next_def reported_def del: set_concat)
next
  case True
  from inv True obtain tbl0 tbl1 where I: "ht_table d 0 = Some tbl0" "ht_table d 1 = Some tbl1"
    "table_ok T tbl0 (ht_size_exp d 0) (ht_used d 0)" "table_ok T tbl1 (ht_size_exp d 1) (ht_used d 1)"
    "entries d = concat tbl0 @ concat tbl1"
    by (rule dict_inv_rehashing) blast
  note sz = DICTHT_SIZE_less [OF I(3,4)]
  show ?thesis
  proof (cases "ht_size_exp d 0 > ht_size_exp d 1")
    case gt: True
    then have "ht_size_exp d 1 \<le> ht_size_exp d 0" by simp
    from scan_two_tables [OF I(2,4,1,3) this, of bf v] True gt ne sz show ?thesis
      by (fastforce simp: dictScan_def scan_exp_def I(5) reported_def simp del: set_concat)
  next
    case le: False
    then have "ht_size_exp d 0 \<le> ht_size_exp d 1" by simp
    from scan_two_tables [OF I(1,3,2,4) this, of bf v] True le ne sz show ?thesis
      by (fastforce simp: dictScan_def scan_exp_def I(5) reported_def simp del: set_concat)
  qed
qed

section \<open>A complete scan\<close>

text \<open>
  The loop of a client: call \<open>dictScan\<close> with the cursor of the last call until it is 0. The
  dictionary may be any other one at every call. The flag says that the cursor came back to 0.
\<close>

fun scan_loop ::
  "bool \<Rightarrow> ('k, 'v) dict list \<Rightarrow> 64 word \<Rightarrow> (bool \<times> ('k, 'v) scan_event list) option" where
  "scan_loop bf [] v = Some (False, [])"
| "scan_loop bf (d # ds) v = do {
     (v', es) \<leftarrow> dictScan bf d v;
     if v' = 0 then Some (True, es)
     else do { (fin, es') \<leftarrow> scan_loop bf ds v'; Some (fin, es @ es') }
   }"

lemma scan_loop_safe:
  assumes "\<forall>d \<in> set ds. dict_inv T d"
  shows "\<exists>fin es. scan_loop bf ds v = Some (fin, es)"
  using assms
proof (induction ds arbitrary: v)
  case Nil
  then show ?case by auto
next
  case (Cons d ds)
  obtain v' es where r: "dictScan bf d v = Some (v', es)"
    using dictScan_spec [of T d bf v] Cons.prems by (cases "dictSize d = 0") (auto simp: dictScan_def)
  from Cons.IH [of v'] Cons.prems obtain fin es' where "scan_loop bf ds v' = Some (fin, es')" by auto
  with r show ?case by (cases "v' = 0") auto
qed

lemma scan_loop_reports:
  assumes "\<forall>d \<in> set ds. dict_inv T d" "scan_loop bf ds v = Some (True, es)"
    "\<forall>d \<in> set ds. k \<in> dom (dict_map d)" "scan_pos v \<le> scan_pos (hashFunction T k)"
  shows "\<exists>x. ScanEntry k x \<in> set es"
  using assms
proof (induction ds arbitrary: v es)
  case Nil
  then show ?case by simp
next
  case (Cons d ds)
  have inv: "dict_inv T d" and kd: "k \<in> dom (dict_map d)" using Cons.prems by auto
  obtain x where x: "(k, x) \<in> set (entries d)" using kd by (auto simp: dict_map_def dest: map_of_SomeD)
  then have ne: "dictSize d \<noteq> 0" using dictSize_entries [OF inv] by auto
  obtain v' es1 where r: "dictScan bf d v = Some (v', es1)" "scan_pos v' = scan_next (scan_exp d) v mod 2 ^ 64"
    "\<forall>y \<in> set (entries d). scan_pos v \<le> scan_pos (hashFunction T (fst y)) \<and>
       scan_pos (hashFunction T (fst y)) < scan_next (scan_exp d) v \<longrightarrow> ScanEntry (fst y) (snd y) \<in> set es1"
    using dictScan_spec [OF inv ne, of bf v] by blast
  show ?case
  proof (cases "scan_pos (hashFunction T k) < scan_next (scan_exp d) v")
    case True
    then have "ScanEntry k x \<in> set es1" using r(3) x Cons.prems(4) by force
    then show ?thesis using Cons.prems(2) r(1) by (auto split: if_splits bind_splits)
  next
    case False
    then have lt: "scan_next (scan_exp d) v < 2 ^ 64" using scan_pos_less [of "hashFunction T k"] by linarith
    then have p: "scan_pos v' = scan_next (scan_exp d) v" using r(2) by simp
    then have "v' \<noteq> 0" by (auto simp: scan_next_def)
    then obtain es' where "scan_loop bf ds v' = Some (True, es')" "es = es1 @ es'"
      using Cons.prems(2) r(1) by (auto split: bind_splits)
    then show ?thesis using Cons.IH [of v' es'] Cons.prems p False by auto
  qed
qed

lemma scan_loop_terminates:
  assumes "\<forall>d \<in> set ds. dict_inv T d \<and> scan_exp d \<le> e" "e \<le> 64"
    "2 ^ e \<le> scan_pos v div 2 ^ (64 - e) + length ds" "scan_loop bf ds v = Some (fin, es)"
  shows fin
  using assms
proof (induction ds arbitrary: v es)
  case Nil
  have "scan_pos v < 2 ^ e * 2 ^ (64 - e)" using scan_pos_less [of v] Nil.prems(2) by (simp flip: power_add)
  then have "scan_pos v div 2 ^ (64 - e) < 2 ^ e" by (simp add: less_mult_imp_div_less)
  with Nil.prems(3) show ?case by simp
next
  case (Cons d ds)
  have inv: "dict_inv T d" and e: "scan_exp d \<le> e" using Cons.prems by auto
  show ?case
  proof (cases "dictSize d = 0")
    case True
    then show ?thesis using Cons.prems(4) by (simp add: dictScan_def)
  next
    case False
    then obtain v' es1 where r: "dictScan bf d v = Some (v', es1)" "scan_pos v' = scan_next (scan_exp d) v mod 2 ^ 64"
      using dictScan_spec [OF inv False, of bf v] by blast
    show ?thesis
    proof (cases "v' = 0")
      case True
      then show ?thesis using Cons.prems(4) r(1) by simp
    next
      case nz: False
      have "scan_exp d \<le> 64" using e Cons.prems(2) by simp
      then have "scan_next (scan_exp d) v \<le> 2 ^ 64" by (rule scan_next_bounds)
      moreover have "scan_next (scan_exp d) v \<noteq> 2 ^ 64"
        using nz r(2) scan_pos_inject [of v' 0] by auto
      ultimately have p: "scan_pos v' = scan_next (scan_exp d) v" using r(2) by simp
      have "scan_next e v \<le> scan_pos v'" using scan_next_mono(1) [OF e Cons.prems(2)] p by simp
      then have "(scan_pos v div 2 ^ (64 - e) + 1) * 2 ^ (64 - e) div 2 ^ (64 - e) \<le> scan_pos v' div 2 ^ (64 - e)"
        unfolding scan_next_def by (rule div_le_mono)
      then have "scan_pos v div 2 ^ (64 - e) + 1 \<le> scan_pos v' div 2 ^ (64 - e)"
        by (subst (asm) nonzero_mult_div_cancel_right) simp_all
      moreover obtain es' where "scan_loop bf ds v' = Some (fin, es')"
        using Cons.prems(4) r(1) nz by (auto split: bind_splits)
      ultimately show ?thesis using Cons.IH [of v' es'] Cons.prems by auto
    qed
  qed
qed

section \<open>Clearing\<close>

lemma clear_loop_spec:
  assumes "ht_table d t = Some tbl" "DICTHT_SIZE (ht_size_exp d t) = length tbl" "i \<le> length tbl"
  shows "clear_loop d t i (length (concat (drop i tbl))) = Some (concat (drop i tbl))"
  using assms(3)
proof (induction "length tbl - i" arbitrary: i)
  case 0
  then show ?case by (simp add: clear_loop.simps)
next
  case (Suc n)
  then have i: "i < length tbl" by simp
  then have split: "concat (drop i tbl) = tbl ! i @ concat (drop (Suc i) tbl)" by (simp add: Cons_nth_drop_Suc [symmetric])
  show ?case
  proof (cases "concat (drop i tbl) = []")
    case True
    then show ?thesis by (simp add: clear_loop.simps [of d t i] del: concat_eq_Nil_conv)
  next
    case False
    have "length tbl - Suc i = n" using Suc.hyps(2) by simp
    with Suc.hyps(1) [of "Suc i"] i have "clear_loop d t (Suc i) (length (concat (drop (Suc i) tbl))) = Some (concat (drop (Suc i) tbl))"
      by simp
    with False i assms(1,2) split show ?thesis
      by (subst clear_loop.simps) (simp del: length_concat concat_eq_Nil_conv)
  qed
qed

lemma dictClear_spec:
  assumes "ht_ok T d t"
  shows "dictClear d t = Some (dictReset d t, concat (tab d t))"
proof (cases "ht_table d t")
  case None
  with assms show ?thesis by (simp add: dictClear_def ht_ok_def tab_def clear_loop.simps DICTHT_SIZE_def)
next
  case (Some tbl)
  with assms have ok: "table_ok T tbl (ht_size_exp d t) (ht_used d t)" by (simp add: ht_ok_def)
  have "ht_used d t = length (concat (drop 0 tbl))" using ok unfolding table_ok_def by simp
  then show ?thesis
    using clear_loop_spec [OF Some, of 0] table_ok_size [OF ok] Some by (simp add: dictClear_def del: length_concat)
qed

section \<open>Iterators\<close>

lemma dict_inv_pause [simp]:
  "dict_inv T (d\<lparr>pauserehash := x\<rparr>) = dict_inv T d" "entries (d\<lparr>pauserehash := x\<rparr>) = entries d"
  "dictSize (d\<lparr>pauserehash := x\<rparr>) = dictSize d" "tab (d\<lparr>pauserehash := x\<rparr>) t = tab d t"
  "dictIsRehashing (d\<lparr>pauserehash := x\<rparr>) = dictIsRehashing d"
  by (simp_all add: dict_inv_def ht_ok_def rehash_ok_def dictIsRehashing_def entries_def tab_def dictSize_def
      cong: option.case_cong)

text \<open>The entries in the buckets after a position.\<close>

definition rest :: "('k, 'v) dict \<Rightarrow> nat \<Rightarrow> int \<Rightarrow> ('k \<times> 'v) list" where
  "rest d t i = concat (drop (nat (i + 1)) (tab d t)) @ (if t = 0 then concat (tab d 1) else [])"

lemma iter_seek_spec:
  assumes "dict_inv T d" "- 1 \<le> i" "t \<le> 1" "t = 1 \<longrightarrow> dictIsRehashing d"
  shows "\<exists>t' i' r. iter_seek d t i = Some (t', i', r) \<and> - 1 < i' \<and> t' \<le> 1 \<and> (t' = 1 \<longrightarrow> dictIsRehashing d) \<and>
    (case r of None \<Rightarrow> rest d t i = [] \<and> rest d t' i' = []
     | Some b \<Rightarrow> b \<noteq> [] \<and> rest d t i = b @ rest d t' i')"
  using assms
proof (induction d t i rule: iter_seek.induct)
  case (1 d t i)
  have len: "length (tab d t) = DICTHT_SIZE (ht_size_exp d t)" if "t \<le> 1" for t
    using that "1.prems"(1)
    by (cases "t = 0") (auto simp: dict_inv_def ht_ok_def tab_def table_ok_def DICTHT_SIZE_def le_Suc_eq split: option.splits)
  show ?case
  proof (cases "iter_advance d t (i + 1)")
    case None
    then have e: "int (DICTHT_SIZE (ht_size_exp d t)) \<le> i + 1" "\<not> (dictIsRehashing d \<and> t = 0)"
      by (auto simp: iter_advance_def split: if_splits)
    have "tab d 1 = []" if "t = 0"
      using e(2) that dict_inv_idle(1) [OF "1.prems"(1)] by (simp add: tab_def)
    with e(1) len [OF "1.prems"(3)] have "rest d t i = []" "rest d t (i + 1) = []" by (auto simp: rest_def)
    with None "1.prems" show ?thesis by (simp add: iter_seek.simps [of d t i])
  next
    case (Some ti)
    obtain t1 i1 where ti: "ti = (t1, i1)" by (cases ti)
    have rh: "DICTHT_SIZE (ht_size_exp d 1) \<noteq> 0" if "dictIsRehashing d"
    proof -
      from "1.prems"(1) that obtain tbl1 where "ht_table d 1 = Some tbl1" "table_ok T tbl1 (ht_size_exp d 1) (ht_used d 1)"
        by (rule dict_inv_rehashing) blast
      then show ?thesis using table_ok_size [of T tbl1] by simp
    qed
    have t1: "t1 \<le> 1" "t1 = 1 \<longrightarrow> dictIsRehashing d" "0 \<le> i1" "i1 < int (length (tab d t1))"
      using Some ti "1.prems" len [of 0] len [of 1] len [of t] rh
      by (auto simp: iter_advance_def split: if_splits)
    have split: "rest d t i = tab d t1 ! nat i1 @ rest d t1 i1"
    proof (cases "int (DICTHT_SIZE (ht_size_exp d t)) \<le> i + 1")
      case True
      with Some ti have "t = 0" "t1 = 1" "i1 = 0" by (auto simp: iter_advance_def split: if_splits)
      moreover from this have "tab d 1 \<noteq> []" "drop (nat (i + 1)) (tab d 0) = []"
        using t1(4) True len [of 0] by auto
      ultimately show ?thesis by (cases "tab d 1") (simp_all add: rest_def)
    next
      case False
      with Some ti have "t1 = t" "i1 = i + 1" by (auto simp: iter_advance_def split: if_splits)
      moreover from this have "concat (drop (nat i1) (tab d t)) = tab d t ! nat i1 @ concat (drop (Suc (nat i1)) (tab d t))"
        using t1(3,4) by (simp add: Cons_nth_drop_Suc [symmetric])
      ultimately show ?thesis using t1(3) by (simp add: rest_def Suc_nat_eq_nat_zadd1 add.commute)
    qed
    obtain tbl where tbl: "ht_table d t1 = Some tbl" "tab d t1 = tbl"
      using t1(3,4) by (auto simp: tab_def split: option.splits)
    then have b: "get_bucket d t1 (nat i1) = Some (tab d t1 ! nat i1)" using t1(3,4) by simp
    show ?thesis
    proof (cases "tab d t1 ! nat i1 = []")
      case True
      have "iter_seek d t i = iter_seek d t1 i1"
        using Some ti b True t1(3) by (simp add: iter_seek.simps [of d t i])
      moreover have "\<exists>t' i' r. iter_seek d t1 i1 = Some (t', i', r) \<and> - 1 < i' \<and> t' \<le> 1 \<and> (t' = 1 \<longrightarrow> dictIsRehashing d) \<and>
          (case r of None \<Rightarrow> rest d t1 i1 = [] \<and> rest d t' i' = []
           | Some b \<Rightarrow> b \<noteq> [] \<and> rest d t1 i1 = b @ rest d t' i')"
        using "1.IH" [OF refl Some ti [symmetric] _ b True] "1.prems"(1) t1 by simp
      moreover have "rest d t i = rest d t1 i1" using split True by simp
      ultimately show ?thesis by (simp only:)
    next
      case False
      then have "iter_seek d t i = Some (t1, i1, Some (tab d t1 ! nat i1))"
        using Some ti b t1(3) by (simp add: iter_seek.simps [of d t i])
      with False split t1 show ?thesis by simp
    qed
  qed
qed

definition iter_ok :: "('k, 'v) dict \<Rightarrow> ('k, 'v) dictIterator \<Rightarrow> bool" where
  "iter_ok d it \<longleftrightarrow> - 1 \<le> it_index it \<and> it_table it \<le> 1 \<and> (it_table it = 1 \<longrightarrow> dictIsRehashing d) \<and>
     (it_entry it \<noteq> [] \<longrightarrow> it_index it \<noteq> - 1)"

text \<open>The entries an iterator has yet to return.\<close>

definition remaining :: "('k, 'v) dict \<Rightarrow> ('k, 'v) dictIterator \<Rightarrow> ('k \<times> 'v) list" where
  "remaining d it = (if it_entry it = [] then [] else it_nextEntry it) @ rest d (it_table it) (it_index it)"

lemma dictNext_spec:
  assumes "dict_inv T d" "iter_ok d it" "iter_start addr d it = (d1, it1)"
  shows "\<exists>it'. dictNext addr d it = Some (d1, it', case remaining d it of [] \<Rightarrow> None | x # _ \<Rightarrow> Some x) \<and>
    iter_ok d1 it' \<and> it_index it' \<noteq> - 1 \<and> it_safe it' = it_safe it1 \<and> it_fingerprint it' = it_fingerprint it1 \<and>
    remaining d1 it' = tl (remaining d it)"
proof (cases "it_entry it \<noteq> [] \<and> it_nextEntry it \<noteq> []")
  case True
  then have "iter_start addr d it = (d, it)" using assms(2) by (auto simp: iter_start_def iter_ok_def)
  then have [simp]: "d1 = d" "it1 = it" using assms(3) by simp_all
  obtain x xs where x: "it_nextEntry it = x # xs" using True by (cases "it_nextEntry it") auto
  show ?thesis using True assms(2) by (simp add: dictNext_def x iter_ok_def remaining_def)
next
  case False
  have d1: "dict_inv T d1" "it_table it1 = it_table it" "it_index it1 = it_index it"
    "dictIsRehashing d1 = dictIsRehashing d" "rest d1 = rest d"
    using assms(1,3) by (auto simp: iter_start_def rest_def fun_eq_iff split: if_splits)
  have rem: "remaining d it = rest d (it_table it) (it_index it)" using False by (auto simp: remaining_def)
  obtain t' i' r where s: "iter_seek d1 (it_table it) (it_index it) = Some (t', i', r)" "- 1 < i'" "t' \<le> 1"
    "t' = 1 \<longrightarrow> dictIsRehashing d"
    "case r of None \<Rightarrow> rest d (it_table it) (it_index it) = [] \<and> rest d t' i' = []
     | Some b \<Rightarrow> b \<noteq> [] \<and> rest d (it_table it) (it_index it) = b @ rest d t' i'"
    using iter_seek_spec [OF d1(1), of "it_index it" "it_table it"] assms(2) unfolding d1(4,5) iter_ok_def by blast
  have run: "dictNext addr d it =
      (case r of
         None \<Rightarrow> Some (d1, it1\<lparr>it_table := t', it_index := i', it_entry := []\<rparr>, None)
       | Some b \<Rightarrow> Some (d1, it1\<lparr>it_table := t', it_index := i', it_entry := b, it_nextEntry := tl b\<rparr>, Some (hd b)))"
    using False assms(3) s(1) d1(2,3) by (auto simp: dictNext_def split: option.splits)
  show ?thesis
  proof (cases r)
    case None
    with s run rem d1 show ?thesis by (simp add: iter_ok_def remaining_def)
  next
    case (Some b)
    then obtain x xs where b: "b = x # xs" using s(5) by (cases b) auto
    with Some s run rem d1 show ?thesis by (simp add: iter_ok_def remaining_def)
  qed
qed

text \<open>A client that takes every entry; the number of calls is bounded by the first argument.\<close>

fun iter_collect ::
  "nat \<Rightarrow> (nat \<Rightarrow> 64 word) \<Rightarrow> ('k, 'v) dict \<Rightarrow> ('k, 'v) dictIterator \<Rightarrow>
    (('k \<times> 'v) list \<times> ('k, 'v) dict \<times> ('k, 'v) dictIterator) option" where
  "iter_collect 0 addr d it = None"
| "iter_collect (Suc n) addr d it = do {
     (d, it, e) \<leftarrow> dictNext addr d it;
     case e of
       None \<Rightarrow> Some ([], d, it)
     | Some e \<Rightarrow> do { (es, d, it) \<leftarrow> iter_collect n addr d it; Some (e # es, d, it) }
   }"

lemma iter_collect_started:
  assumes "dict_inv T d" "iter_ok d it" "it_index it \<noteq> - 1" "length (remaining d it) < n"
  shows "\<exists>it'. iter_collect n addr d it = Some (remaining d it, d, it') \<and> it_index it' \<noteq> - 1 \<and>
    it_safe it' = it_safe it \<and> it_fingerprint it' = it_fingerprint it"
  using assms
proof (induction n arbitrary: it)
  case 0
  then show ?case by simp
next
  case (Suc n)
  have st: "iter_start addr d it = (d, it)" using Suc.prems(3) by (simp add: iter_start_def)
  from dictNext_spec [OF Suc.prems(1,2) st] obtain it' where
    n: "dictNext addr d it = Some (d, it', case remaining d it of [] \<Rightarrow> None | x # _ \<Rightarrow> Some x)"
      "iter_ok d it'" "it_index it' \<noteq> - 1" "it_safe it' = it_safe it" "it_fingerprint it' = it_fingerprint it"
      "remaining d it' = tl (remaining d it)" by blast
  show ?case
  proof (cases "remaining d it")
    case Nil
    with n show ?thesis by simp
  next
    case (Cons x xs)
    with Suc.IH [OF Suc.prems(1) n(2,3)] n Suc.prems(4) show ?thesis by auto
  qed
qed

lemma iter_collect_spec:
  assumes "dict_inv T d" "it = dictGetIterator fp0 \<or> it = dictGetSafeIterator fp0" "dictSize d < n"
  shows "\<exists>d' it'. iter_collect n addr d it = Some (entries d, d', it') \<and> dictReleaseIterator addr d' it' = Some d"
proof -
  obtain d1 it1 where st: "iter_start addr d it = (d1, it1)" by fastforce
  have ok: "iter_ok d it" and rem: "remaining d it = entries d"
    using assms(2) by (auto simp: iter_ok_def remaining_def rest_def entries_def dictGetIterator_def dictGetSafeIterator_def)
  from dictNext_spec [OF assms(1) ok st] obtain it' where
    n: "dictNext addr d it = Some (d1, it', case remaining d it of [] \<Rightarrow> None | x # _ \<Rightarrow> Some x)"
      "iter_ok d1 it'" "it_index it' \<noteq> - 1" "it_safe it' = it_safe it1" "it_fingerprint it' = it_fingerprint it1"
      "remaining d1 it' = tl (remaining d it)" by blast
  have d1: "dict_inv T d1" "d1 = (if it_safe it1 then d\<lparr>pauserehash := pauserehash d + 1\<rparr> else d)"
    "\<not> it_safe it1 \<longrightarrow> it_fingerprint it1 = dictFingerprint addr d1"
    using assms(1,2) st by (auto simp: iter_start_def dictGetIterator_def dictGetSafeIterator_def)
  have rel: "dictReleaseIterator addr d1 it2 = Some d"
    if "it_index it2 \<noteq> - 1" "it_safe it2 = it_safe it1" "it_fingerprint it2 = it_fingerprint it1" for it2
    using that d1(2,3) by (auto simp: dictReleaseIterator_def)
  have len: "length (entries d) < n" using assms(3) dictSize_entries [OF assms(1)] by simp
  then obtain m where m: "n = Suc m" by (cases n) auto
  show ?thesis
  proof (cases "entries d")
    case Nil
    with n rem rel m show ?thesis by simp
  next
    case (Cons x xs)
    have "length (remaining d1 it') < m" using len m Cons n(6) rem by simp
    from iter_collect_started [OF d1(1) n(2,3) this, of addr] obtain it2 where
      "iter_collect m addr d1 it' = Some (xs, d1, it2)" "it_index it2 \<noteq> - 1" "it_safe it2 = it_safe it1"
      "it_fingerprint it2 = it_fingerprint it1"
      using n(4,5,6) rem Cons by auto
    with n(1) rem Cons m rel show ?thesis by simp
  qed
qed

section \<open>Properties\<close>

text \<open>
  C7: The guarantee of \<open>dictScan\<close>: a scan is memory safe and returns the cursor 0 after at
  most as many calls as the smaller table ever had buckets; and once it has done so, it has
  reported every key that was in the dictionary all the time, whatever growing, shrinking
  and rehashing happened between the calls.
\<close>

theorem dictScan_complete:
  assumes "\<forall>d \<in> set ds. dict_inv T d"
  shows "\<exists>fin es. scan_loop bf ds 0 = Some (fin, es) \<and>
    (fin \<longrightarrow> (\<forall>k. (\<forall>d \<in> set ds. k \<in> dom (dict_map d)) \<longrightarrow> (\<exists>x. ScanEntry k x \<in> set es))) \<and>
    ((\<exists>e \<le> 64. (\<forall>d \<in> set ds. scan_exp d \<le> e) \<and> 2 ^ e \<le> length ds) \<longrightarrow> fin)"
proof -
  obtain fin es where r: "scan_loop bf ds 0 = Some (fin, es)" using scan_loop_safe [OF assms] by blast
  then show ?thesis
    using scan_loop_reports [OF assms, of bf 0 es] scan_loop_terminates [of ds T _ 0 bf fin es] assms
    by auto
qed

text \<open>The hash table of one entry, at rest.\<close>

definition tiny_dict :: "(buffer, nat) dict" where
  "tiny_dict =
     \<lparr>ht_table = (\<lambda>_. None)(0 := Some [[], [([7], 5)], [], []]),
      ht_used = (\<lambda>_. 0)(0 := 1), rehashidx = - 1, pauserehash = 0, ht_size_exp = (\<lambda>_. - 1)(0 := 2)\<rparr>"

lemma tiny_dict_inv: "dict_inv (hashDictType (\<lambda>k. of_nat (length k))) tiny_dict"
proof -
  have "slot 1 2 = 1" by (simp add: slot_mod)
  then show ?thesis
    by (simp add: dict_inv_def ht_ok_def table_ok_enumerate rehash_ok_def dictIsRehashing_def entries_def tab_def
        tiny_dict_def hashDictType_def)
qed

theorem dictScan_complete_witness:
  "\<exists>es x. scan_loop False [tiny_dict, tiny_dict, tiny_dict, tiny_dict] 0 = Some (True, es) \<and> ScanEntry [7] x \<in> set es"
proof -
  let ?ds = "[tiny_dict, tiny_dict, tiny_dict, tiny_dict]"
  have e: "\<exists>e \<le> 64. (\<forall>d \<in> set ?ds. scan_exp d \<le> e) \<and> 2 ^ e \<le> length ?ds"
    by (rule exI [of _ 2]) (simp add: scan_exp_def tiny_dict_def dictIsRehashing_def)
  have k: "\<forall>d \<in> set ?ds. [7] \<in> dom (dict_map d)"
    by (simp add: dict_map_def entries_def tab_def tiny_dict_def)
  have inv: "\<forall>d \<in> set ?ds. dict_inv (hashDictType (\<lambda>k. of_nat (length k))) d" using tiny_dict_inv by simp
  obtain fin es where r: "scan_loop False ?ds 0 = Some (fin, es)"
    "fin \<longrightarrow> (\<forall>k. (\<forall>d \<in> set ?ds. k \<in> dom (dict_map d)) \<longrightarrow> (\<exists>x. ScanEntry k x \<in> set es))"
    "(\<exists>e \<le> 64. (\<forall>d \<in> set ?ds. scan_exp d \<le> e) \<and> 2 ^ e \<le> length ?ds) \<longrightarrow> fin"
    using dictScan_complete [OF inv, of False] by metis
  have fin using r(3) e by (rule mp)
  with r(1,2) k show ?thesis by auto
qed

text \<open>
  C8: Walking over a dictionary with an iterator, safe or unsafe, returns every entry
  exactly once, also in the middle of a rehash; releasing the iterator afterwards does not
  trip the fingerprint assertion and restores the dictionary. Emptying a dictionary frees
  exactly the entries that it has, and leaves a valid empty dictionary.
\<close>

theorem dict_iterate_and_empty:
  assumes "dict_inv T d" "it = dictGetIterator fp0 \<or> it = dictGetSafeIterator fp0"
  shows "(\<exists>d' it'. iter_collect (Suc (dictSize d)) addr d it = Some (entries d, d', it') \<and>
      dictReleaseIterator addr d' it' = Some d) \<and>
    (\<exists>d'. dictEmpty d = Some (d', entries d) \<and> dict_inv T d' \<and> dictSize d' = 0 \<and> dict_map d' = Map.empty) \<and>
    dictRelease d = Some (entries d)"
proof -
  have c0: "dictClear d 0 = Some (dictReset d 0, concat (tab d 0))"
    and c1: "dictClear (dictReset d 0) 1 = Some (dictReset (dictReset d 0) 1, concat (tab d 1))"
  proof -
    have "ht_ok T d 0" "ht_ok T (dictReset d 0) 1" "tab (dictReset d 0) 1 = tab d 1"
      using assms(1) by (simp_all add: dict_inv_def ht_ok_def dictReset_def tab_def cong: option.case_cong)
    then show "dictClear d 0 = Some (dictReset d 0, concat (tab d 0))"
      "dictClear (dictReset d 0) 1 = Some (dictReset (dictReset d 0) 1, concat (tab d 1))"
      by (simp_all add: dictClear_spec)
  qed
  have "dict_inv T ((dictReset (dictReset d 0) 1)\<lparr>rehashidx := - 1, pauserehash := 0\<rparr>)"
    "dict_map ((dictReset (dictReset d 0) 1)\<lparr>rehashidx := - 1, pauserehash := 0\<rparr>) = Map.empty"
    using dict_inv_init(1) [of T d] dict_inv_init(2) [of d] by (simp_all add: dictInit_def)
  then show ?thesis
    using iter_collect_spec [OF assms, of "Suc (dictSize d)" addr] c0 c1
    by (simp add: dictEmpty_def dictRelease_def entries_def dictSize_def dictReset_def)
qed

theorem dict_iterate_and_empty_witness:
  "\<exists>d' it'. iter_collect 3 (\<lambda>_. 64) demo_dict (dictGetSafeIterator 0) = Some ([([1, 2], 5), ([9], 4)], d', it')"
proof -
  have "entries demo_dict = [([1, 2], 5), ([9], 4)]" "Suc (dictSize demo_dict) = 3"
    by (simp_all add: entries_def tab_def demo_dict_def dictSize_def)
  then show ?thesis
    using dict_iterate_and_empty [OF demo_dict_inv, of "dictGetSafeIterator 0" 0 "\<lambda>_. 64"] by fastforce
qed

end
