(* ===== verification/RedisIntset.thy ===== *)
theory RedisIntset
  imports RedisPrelude
begin

text \<open>
  The sorted array of integers of \<open>intset.c\<close>, at the level of its bytes. The record
  holds the two header fields and the allocated memory behind them; an element is 2, 4 or
  8 little-endian bytes, as the encoding says. \<open>None\<close> is an access outside the
  allocation, a failed assertion or an overflow of a signed counter. Memory that
  \<open>zrealloc\<close> adds has arbitrary contents \<open>fresh\<close>.
\<close>

section \<open>Model\<close>

record intset =
  encoding :: nat
  len :: nat
  contents :: buffer

definition INTSET_ENC_INT16 :: nat where "INTSET_ENC_INT16 = 2"
definition INTSET_ENC_INT32 :: nat where "INTSET_ENC_INT32 = 4"
definition INTSET_ENC_INT64 :: nat where "INTSET_ENC_INT64 = 8"

definition intsetValueEncoding :: "int \<Rightarrow> nat" where
  "intsetValueEncoding v =
     (if v < - (2 ^ 31) \<or> v > 2 ^ 31 - 1 then INTSET_ENC_INT64
      else if v < - (2 ^ 15) \<or> v > 2 ^ 15 - 1 then INTSET_ENC_INT32
      else INTSET_ENC_INT16)"

text \<open>The size of the C type that an encoding selects in the three-way conditionals.\<close>

definition enc_size :: "nat \<Rightarrow> nat" where
  "enc_size enc = (if enc = INTSET_ENC_INT64 then 8 else if enc = INTSET_ENC_INT32 then 4 else 2)"

definition intsetGetEncoded :: "intset \<Rightarrow> int \<Rightarrow> nat \<Rightarrow> int option" where
  "intsetGetEncoded is pos enc =
     map_option sle_dec (peek (contents is) (pos * int (enc_size enc)) (enc_size enc))"

definition intsetGet_raw :: "intset \<Rightarrow> int \<Rightarrow> int option" where
  "intsetGet_raw is pos = intsetGetEncoded is pos (encoding is)"

definition intsetSet :: "intset \<Rightarrow> int \<Rightarrow> int \<Rightarrow> intset option" where
  "intsetSet is pos v =
     (let w = enc_size (encoding is) in do {
        c \<leftarrow> poke (contents is) (pos * int w) (sle_enc w v);
        Some (is\<lparr>contents := c\<rparr>)
      })"

definition intsetNew :: intset where
  "intsetNew = \<lparr>encoding = INTSET_ENC_INT16, len = 0, contents = []\<rparr>"

definition intsetResize :: "(nat \<Rightarrow> byte) \<Rightarrow> intset \<Rightarrow> nat \<Rightarrow> intset option" where
  "intsetResize fresh is n =
     (let size = n * encoding is in
      if size \<le> 2 ^ 64 - 1 - 8 then Some (is\<lparr>contents := realloc fresh (contents is) size\<rparr>) else None)"

text \<open>The conversion of a \<open>uint32_t\<close> to \<open>int\<close>.\<close>

definition int_of_u32 :: "nat \<Rightarrow> int" where
  "int_of_u32 x = (if x < 2 ^ 31 then int x else int x - 2 ^ 32)"

partial_function (option) search_loop ::
  "intset \<Rightarrow> int \<Rightarrow> int \<Rightarrow> int \<Rightarrow> int \<Rightarrow> int \<Rightarrow> (int \<times> int \<times> int) option" where
  "search_loop is v mn mx mid cur =
     (if mx \<ge> mn then
        (let mid = (mn + mx) mod 2 ^ 32 div 2 in do {
           cur \<leftarrow> intsetGet_raw is mid;
           if v > cur then search_loop is v (mid + 1) mx mid cur
           else if v < cur then search_loop is v mn (mid - 1) mid cur
           else Some (mn, mid, cur)
         })
      else Some (mn, mid, cur))"

text \<open>\<open>intsetSearch\<close>: whether the value was found, and \<open>*pos\<close>.\<close>

definition intsetSearch :: "intset \<Rightarrow> int \<Rightarrow> (bool \<times> int) option" where
  "intsetSearch is v =
     (let mx = int_of_u32 ((len is + (2 ^ 32 - 1)) mod 2 ^ 32) in
      if len is = 0 then Some (False, 0)
      else do {
        last \<leftarrow> intsetGet_raw is mx;
        if v > last then Some (False, int (len is))
        else do {
          first \<leftarrow> intsetGet_raw is 0;
          if v < first then Some (False, 0)
          else do {
            (mn, mid, cur) \<leftarrow> search_loop is v 0 mx (- 1) (- 1);
            if v = cur then Some (True, mid) else Some (False, mn)
          }
        }
      })"

text \<open>The loop \<open>while(length--)\<close> of the upgrade, from the last element to the first.\<close>

fun upgrade_loop :: "nat \<Rightarrow> nat \<Rightarrow> nat \<Rightarrow> intset \<Rightarrow> intset option" where
  "upgrade_loop 0 prepend curenc is = Some is"
| "upgrade_loop (Suc n) prepend curenc is = do {
     v \<leftarrow> intsetGetEncoded is (int n) curenc;
     is \<leftarrow> intsetSet is (int n + int prepend) v;
     upgrade_loop n prepend curenc is
   }"

definition intsetUpgradeAndAdd :: "(nat \<Rightarrow> byte) \<Rightarrow> intset \<Rightarrow> int \<Rightarrow> intset option" where
  "intsetUpgradeAndAdd fresh is v =
     (let curenc = encoding is;
          newenc = intsetValueEncoding v;
          n = int_of_u32 (len is);
          prepend = (if v < 0 then 1 else 0 :: nat)
      in if n < 0 then None
         else do {
           is \<leftarrow> intsetResize fresh (is\<lparr>encoding := newenc\<rparr>) ((len is + 1) mod 2 ^ 32);
           is \<leftarrow> upgrade_loop (nat n) prepend curenc is;
           is \<leftarrow> (if prepend \<noteq> 0 then intsetSet is 0 v else intsetSet is (int_of_u32 (len is)) v);
           Some (is\<lparr>len := (len is + 1) mod 2 ^ 32\<rparr>)
         })"

text \<open>\<open>bytes\<close> is a \<open>uint32_t\<close>: both the difference and the product are taken modulo \<open>2 ^ 32\<close>.\<close>

definition intsetMoveTail :: "intset \<Rightarrow> nat \<Rightarrow> nat \<Rightarrow> intset option" where
  "intsetMoveTail is from to =
     (let w = enc_size (encoding is);
          bytes = (len is + (2 ^ 32 - from)) mod 2 ^ 32;
          bytes = (bytes * w) mod 2 ^ 32
      in do {
        blk \<leftarrow> peek (contents is) (int (from * w)) bytes;
        c \<leftarrow> poke (contents is) (int (to * w)) blk;
        Some (is\<lparr>contents := c\<rparr>)
      })"

definition intsetAdd :: "(nat \<Rightarrow> byte) \<Rightarrow> intset \<Rightarrow> int \<Rightarrow> (intset \<times> bool) option" where
  "intsetAdd fresh is v =
     (if intsetValueEncoding v > encoding is then do {
        is \<leftarrow> intsetUpgradeAndAdd fresh is v;
        Some (is, True)
      }
      else do {
        (found, pos) \<leftarrow> intsetSearch is v;
        if found then Some (is, False)
        else do {
          is \<leftarrow> intsetResize fresh is ((len is + 1) mod 2 ^ 32);
          is \<leftarrow> (if pos < int (len is) then intsetMoveTail is (nat pos) (nat pos + 1) else Some is);
          is \<leftarrow> intsetSet is (int_of_u32 (nat pos)) v;
          Some (is\<lparr>len := (len is + 1) mod 2 ^ 32\<rparr>, True)
        }
      })"

definition intsetRemove :: "(nat \<Rightarrow> byte) \<Rightarrow> intset \<Rightarrow> int \<Rightarrow> (intset \<times> bool) option" where
  "intsetRemove fresh is v =
     (if intsetValueEncoding v \<le> encoding is then do {
        (found, pos) \<leftarrow> intsetSearch is v;
        if found then
          (let n = len is in do {
             is \<leftarrow> (if pos < int n - 1 then intsetMoveTail is (nat pos + 1) (nat pos) else Some is);
             is \<leftarrow> intsetResize fresh is (n - 1);
             Some (is\<lparr>len := n - 1\<rparr>, True)
           })
        else Some (is, False)
      }
      else Some (is, False))"

definition intsetFind :: "intset \<Rightarrow> int \<Rightarrow> bool option" where
  "intsetFind is v =
     (if intsetValueEncoding v \<le> encoding is then map_option fst (intsetSearch is v) else Some False)"

text \<open>\<open>rand\<close> is the value of \<open>rand()\<close>.\<close>

definition intsetRandom :: "intset \<Rightarrow> nat \<Rightarrow> int option" where
  "intsetRandom is rand = (if len is = 0 then None else intsetGet_raw is (int_of_u32 (rand mod len is)))"

definition intsetGet :: "intset \<Rightarrow> nat \<Rightarrow> int option option" where
  "intsetGet is pos =
     (if pos < len is then map_option Some (intsetGet_raw is (int_of_u32 pos)) else Some None)"

definition intsetLen :: "intset \<Rightarrow> nat" where
  "intsetLen is = len is"

definition intsetBlobLen :: "intset \<Rightarrow> nat" where
  "intsetBlobLen is = 8 + len is * encoding is"

text \<open>The bytes of an intset, and the intset a pointer into a buffer is read as.\<close>

definition intsetBlob :: "intset \<Rightarrow> buffer" where
  "intsetBlob is = le_enc 4 (encoding is) @ le_enc 4 (len is) @ contents is"

definition intsetOfBlob :: "buffer \<Rightarrow> intset" where
  "intsetOfBlob p = \<lparr>encoding = le_dec (take 4 p), len = le_dec (take 4 (drop 4 p)), contents = drop 8 p\<rparr>"

fun validate_loop :: "intset \<Rightarrow> nat \<Rightarrow> nat \<Rightarrow> int \<Rightarrow> bool option" where
  "validate_loop is 0 i prev = Some True"
| "validate_loop is (Suc n) i prev = do {
     cur \<leftarrow> intsetGet_raw is (int_of_u32 i);
     if cur \<le> prev then Some False else validate_loop is n (i + 1) cur
   }"

definition intsetValidateIntegrity :: "buffer \<Rightarrow> bool \<Rightarrow> bool option" where
  "intsetValidateIntegrity p deep =
     (if length p < 8 then Some False
      else
        (let is = intsetOfBlob p in
         if encoding is \<noteq> INTSET_ENC_INT64 \<and> encoding is \<noteq> INTSET_ENC_INT32 \<and> encoding is \<noteq> INTSET_ENC_INT16
         then Some False
         else if 8 + len is * encoding is \<noteq> length p then Some False
         else if len is = 0 then Some False
         else if \<not> deep then Some True
         else do {
           prev \<leftarrow> intsetGet_raw is 0;
           validate_loop is (len is - 1) 1 prev
         }))"

end
