(* ===== verification/RedisIntsetProofs.thy ===== *)
theory RedisIntsetProofs
  imports RedisIntset RedisStore
begin

text \<open>
  Correctness of the integer sets of \<open>intset.c\<close>. The memory of an intset is the packed
  array of a strictly increasing list of integers (\<open>intset_rep\<close>). The binary search finds
  the place of a value, insertion, removal and the in-place upgrade of the encoding keep the
  representation, and the integrity check accepts exactly the represented states. An intset
  implements the interface \<open>set_store\<close>.
\<close>


section \<open>Packed arrays\<close>

lemma sle_dec_range: "- (256 ^ length bs) \<le> 2 * sle_dec bs" "2 * sle_dec bs < 256 ^ length bs"
proof -
  define u m :: int where "u = int (le_dec bs)" and "m = 256 ^ length bs"
  have "0 \<le> u" "u < m"
    unfolding u_def m_def using le_dec_bound [of bs] by (simp, metis of_nat_less_iff of_nat_power of_nat_numeral)
  then show "- (256 ^ length bs) \<le> 2 * sle_dec bs" "2 * sle_dec bs < 256 ^ length bs"
    unfolding sle_dec_def Let_def u_def [symmetric] m_def [symmetric] by auto
qed

definition packed :: "nat \<Rightarrow> int list \<Rightarrow> buffer" where
  "packed w xs = concat (map (sle_enc w) xs)"

lemma packed_simps [simp]:
  "packed w [] = []" "packed w (x # xs) = sle_enc w x @ packed w xs"
  "packed w (xs @ ys) = packed w xs @ packed w ys"
  by (simp_all add: packed_def)

lemma length_packed [simp]: "length (packed w xs) = length xs * w"
  by (induction xs) simp_all

lemma take_packed: "take (n * w) (packed w xs) = packed w (take n xs)"
proof (induction xs arbitrary: n)
  case (Cons x xs)
  then show ?case by (cases n) simp_all
qed simp

lemma drop_packed: "drop (n * w) (packed w xs) = packed w (drop n xs)"
proof (induction xs arbitrary: n)
  case (Cons x xs)
  then show ?case by (cases n) simp_all
qed simp

lemma packed_of_bytes:
  assumes "length bs = n * w"
  obtains xs where "bs = packed w xs" "length xs = n" "\<forall>x \<in> set xs. - (256 ^ w) \<le> 2 * x \<and> 2 * x < 256 ^ w"
  using assms
proof (induction n arbitrary: bs thesis)
  case 0
  then show ?case by simp
next
  case (Suc n)
  have "length (drop w bs) = n * w" using Suc.prems(2) by simp
  then obtain xs where xs: "drop w bs = packed w xs" "length xs = n"
    "\<forall>x \<in> set xs. - (256 ^ w) \<le> 2 * x \<and> 2 * x < 256 ^ w" using Suc.IH by blast
  let ?x = "sle_dec (take w bs)"
  have l: "length (take w bs) = w" using Suc.prems(2) by simp
  then have "sle_enc w ?x = take w bs" using sle_enc_dec [of "take w bs"] by simp
  then have "bs = packed w (?x # xs)" using xs(1) by (metis append_take_drop_id packed_simps(2))
  moreover have "- (256 ^ w) \<le> 2 * ?x \<and> 2 * ?x < 256 ^ w" using sle_dec_range [of "take w bs"] l by simp
  ultimately show ?case using Suc.prems(1) [of "?x # xs"] xs(2,3) by simp
qed

text \<open>Blocks of elements.\<close>

lemma peek_packed:
  assumes "a + n \<le> length xs"
  shows "peek (packed w xs) (int (a * w)) (n * w) = Some (packed w (take n (drop a xs)))"
proof -
  have "(a + n) * w \<le> length xs * w" using assms by (rule mult_le_mono1)
  then show ?thesis by (simp add: peek_def drop_packed take_packed add_mult_distrib del: of_nat_mult)
qed

lemma poke_packed:
  assumes "a + length zs \<le> length xs"
  shows "poke (packed w xs) (int (a * w)) (packed w zs) = Some (packed w (blit xs a zs))"
proof -
  have "(a + length zs) * w \<le> length xs * w" using assms by (rule mult_le_mono1)
  moreover have "blit (packed w xs) (a * w) (packed w zs) = packed w (blit xs a zs)"
    by (simp add: blit_def take_packed drop_packed flip: add_mult_distrib)
  ultimately show ?thesis by (simp add: poke_def add_mult_distrib del: of_nat_mult)
qed

lemma blit_single: "a < length xs \<Longrightarrow> blit xs a [v] = xs[a := v]"
  by (simp add: blit_def upd_conv_take_nth_drop)

section \<open>Representation\<close>

definition enc_ok :: "nat \<Rightarrow> bool" where
  "enc_ok w \<longleftrightarrow> w = 2 \<or> w = 4 \<or> w = 8"

definition fits :: "nat \<Rightarrow> int \<Rightarrow> bool" where
  "fits w v \<longleftrightarrow> - (256 ^ w) \<le> 2 * v \<and> 2 * v < 256 ^ w"

lemma enc_size_ok [simp]: "enc_ok w \<Longrightarrow> enc_size w = w"
  by (auto simp: enc_ok_def enc_size_def INTSET_ENC_INT64_def INTSET_ENC_INT32_def)

lemma enc_ok_value: "enc_ok (intsetValueEncoding v)"
  by (simp add: enc_ok_def intsetValueEncoding_def INTSET_ENC_INT64_def INTSET_ENC_INT32_def INTSET_ENC_INT16_def)

lemma fits_iff_encoding:
  assumes "in_llong v" "enc_ok w"
  shows "fits w v \<longleftrightarrow> intsetValueEncoding v \<le> w"
  using assms by (auto simp: fits_def enc_ok_def intsetValueEncoding_def INTSET_ENC_INT64_def
      INTSET_ENC_INT32_def INTSET_ENC_INT16_def)

lemma fits_mono: "fits w v \<Longrightarrow> enc_ok w \<Longrightarrow> enc_ok w' \<Longrightarrow> w \<le> w' \<Longrightarrow> fits w' v"
  by (auto simp: fits_def enc_ok_def)

lemma sle_dec_enc_fits: "fits w v \<Longrightarrow> enc_ok w \<Longrightarrow> sle_dec (sle_enc w v) = v"
  by (rule sle_dec_enc) (auto simp: fits_def enc_ok_def)

text \<open>An intset stands for a strictly increasing list of integers.\<close>

definition intset_rep :: "intset \<Rightarrow> int list \<Rightarrow> bool" where
  "intset_rep is xs \<longleftrightarrow>
     enc_ok (encoding is) \<and> len is = length xs \<and> contents is = packed (encoding is) xs \<and>
     (\<forall>x \<in> set xs. fits (encoding is) x) \<and> sorted_wrt (<) xs"

lemma get_packed:
  assumes "contents is = packed w xs" "enc_ok w" "i < length xs" "fits w (xs ! i)"
  shows "intsetGetEncoded is (int i) w = Some (xs ! i)"
proof -
  have "peek (packed w xs) (int (i * w)) (1 * w) = Some (packed w (take 1 (drop i xs)))"
    using assms(3) by (intro peek_packed) simp
  moreover have "take 1 (drop i xs) = [xs ! i]" using assms(3) by (simp add: take_Suc_conv_app_nth hd_drop_conv_nth take_Suc)
  ultimately show ?thesis
    using assms by (simp add: intsetGetEncoded_def sle_dec_enc_fits)
qed

lemma set_packed:
  assumes "contents is = packed (encoding is) xs" "enc_ok (encoding is)" "i < length xs"
  shows "intsetSet is (int i) v = Some (is\<lparr>contents := packed (encoding is) (xs[i := v])\<rparr>)"
  using assms poke_packed [of i "[v]" xs "encoding is"] by (simp add: intsetSet_def Let_def blit_single)

lemma get_rep:
  assumes "intset_rep is xs" "i < length xs"
  shows "intsetGet_raw is (int i) = Some (xs ! i)"
  using assms unfolding intsetGet_raw_def by (intro get_packed) (auto simp: intset_rep_def)

section \<open>Binary search\<close>

text \<open>The position of a value in a sorted list.\<close>

definition lower :: "int list \<Rightarrow> int \<Rightarrow> nat" where
  "lower xs v = length (takeWhile (\<lambda>x. x < v) xs)"

lemma lower_eqI:
  assumes "p \<le> length xs" "\<And>j. j < p \<Longrightarrow> xs ! j < v" "p < length xs \<Longrightarrow> v \<le> xs ! p"
  shows "lower xs v = p"
proof -
  have "takeWhile (\<lambda>x. x < v) xs = take p xs"
    using assms by (intro takeWhile_eq_take_P_nth) force+
  then show ?thesis using assms(1) by (simp add: lower_def)
qed

lemma sorted_strict_nth: "sorted_wrt (<) xs \<Longrightarrow> i < j \<Longrightarrow> j < length xs \<Longrightarrow> xs ! i < (xs ! j :: int)"
  by (rule sorted_wrt_nth_less)

lemma search_loop_spec:
  assumes rep: "intset_rep is xs" and n: "length xs < 2 ^ 31"
    and lo: "0 \<le> mn" "\<And>j. j < nat mn \<Longrightarrow> xs ! j < v"
    and hi: "mx < int (length xs)" "- 1 \<le> mx" "\<And>j. nat (mx + 1) \<le> j \<Longrightarrow> j < length xs \<Longrightarrow> v < xs ! j"
    and ord: "mn \<le> mx + 1" and nocur: "mx < mn \<Longrightarrow> cur \<noteq> v"
  shows "\<exists>mn' mid' cur'. search_loop is v mn mx mid cur = Some (mn', mid', cur') \<and>
    (cur' = v \<longrightarrow> 0 \<le> mid' \<and> nat mid' < length xs \<and> xs ! nat mid' = v) \<and>
    (cur' \<noteq> v \<longrightarrow> v \<notin> set xs \<and> mn' = int (lower xs v))"
  using lo hi ord nocur
proof (induction "nat (mx - mn + 1)" arbitrary: mn mx mid cur rule: less_induct)
  case less
  have sorted: "sorted_wrt (<) xs" using rep by (simp add: intset_rep_def)
  show ?case
  proof (cases "mx < mn")
    case True
    with less.prems(6) have eq: "mn = mx + 1" by simp
    have "v \<notin> set xs"
    proof
      assume "v \<in> set xs"
      then obtain j where "j < length xs" "xs ! j = v" by (auto simp: in_set_conv_nth)
      with less.prems(2) [of j] less.prems(5) [of j] eq show False by (cases "j < nat mn") auto
    qed
    moreover have "lower xs v = nat mn"
      using less.prems(1-5) eq by (intro lower_eqI) (auto intro: less_imp_le)
    ultimately show ?thesis
      using True less.prems(1,7) by (simp add: search_loop.simps)
  next
    case False
    define m where "m = (mn + mx) mod 2 ^ 32 div 2"
    have "mn + mx < 2 ^ 32" "0 \<le> mn + mx" using less.prems n False by auto
    then have m: "m = (mn + mx) div 2" unfolding m_def by simp
    with False less.prems(1,3) have mb: "mn \<le> m" "m \<le> mx" "0 \<le> m" "nat m < length xs" by auto
    have get: "intsetGet_raw is m = Some (xs ! nat m)" using get_rep [OF rep mb(4)] mb(3) by simp
    have step: "search_loop is v mn mx mid cur =
       (if v > xs ! nat m then search_loop is v (m + 1) mx m (xs ! nat m)
        else if v < xs ! nat m then search_loop is v mn (m - 1) m (xs ! nat m)
        else Some (mn, m, xs ! nat m))"
      using False get by (subst search_loop.simps) (simp add: m_def Let_def)
    have below: "xs ! j < v" if "j < nat (m + 1)" "xs ! nat m < v" for j
    proof (cases "j = nat m")
      case False
      then have "j < nat m" using that(1) mb(3) by auto
      then show ?thesis using sorted_strict_nth [OF sorted, of j "nat m"] mb(4) that(2) by simp
    qed (use that in simp)
    have above: "v < xs ! j" if "nat m \<le> j" "j < length xs" "v < xs ! nat m" for j
      using that sorted_strict_nth [OF sorted, of "nat m" j] by (cases "j = nat m") auto
    consider "xs ! nat m < v" | "v < xs ! nat m" | "xs ! nat m = v" by linarith
    then show ?thesis
    proof cases
      case 1
      have "search_loop is v mn mx mid cur = search_loop is v (m + 1) mx m (xs ! nat m)"
        using 1 step by simp
      moreover have "\<exists>mn' mid' cur'. search_loop is v (m + 1) mx m (xs ! nat m) = Some (mn', mid', cur') \<and>
        (cur' = v \<longrightarrow> 0 \<le> mid' \<and> nat mid' < length xs \<and> xs ! nat mid' = v) \<and>
        (cur' \<noteq> v \<longrightarrow> v \<notin> set xs \<and> mn' = int (lower xs v))"
      proof -
        have "\<And>j. j < nat (m + 1) \<Longrightarrow> xs ! j < v" "xs ! nat m \<noteq> v" using below 1 by auto
        then show ?thesis using less.prems mb False by (intro less.hyps) auto
      qed
      ultimately show ?thesis by simp
    next
      case 2
      have "search_loop is v mn mx mid cur = search_loop is v mn (m - 1) m (xs ! nat m)"
        using 2 step by simp
      moreover have "\<exists>mn' mid' cur'. search_loop is v mn (m - 1) m (xs ! nat m) = Some (mn', mid', cur') \<and>
        (cur' = v \<longrightarrow> 0 \<le> mid' \<and> nat mid' < length xs \<and> xs ! nat mid' = v) \<and>
        (cur' \<noteq> v \<longrightarrow> v \<notin> set xs \<and> mn' = int (lower xs v))"
      proof -
        have "\<And>j. nat m \<le> j \<Longrightarrow> j < length xs \<Longrightarrow> v < xs ! j" "xs ! nat m \<noteq> v" using above 2 by auto
        then show ?thesis using less.prems mb False by (intro less.hyps) auto
      qed
      ultimately show ?thesis by simp
    next
      case 3
      then have "search_loop is v mn mx mid cur = Some (mn, m, xs ! nat m)"
        using step by simp
      with 3 mb show ?thesis by simp
    qed
  qed
qed

lemma intsetSearch_spec:
  assumes rep: "intset_rep is xs" and n: "length xs < 2 ^ 31"
  shows "\<exists>pos. intsetSearch is v = Some (v \<in> set xs, int pos) \<and>
    (if v \<in> set xs then pos < length xs \<and> xs ! pos = v else pos = lower xs v)"
proof (cases "xs = []")
  case True
  with rep show ?thesis by (simp add: intsetSearch_def intset_rep_def lower_def)
next
  case False
  define l where "l = length xs - 1"
  have l: "l < length xs" "Suc l = length xs" using False by (simp_all add: l_def)
  have len: "len is = length xs" using rep by (simp add: intset_rep_def)
  have sorted: "sorted_wrt (<) xs" using rep by (simp add: intset_rep_def)
  have mx: "int_of_u32 ((len is + (2 ^ 32 - 1)) mod 2 ^ 32) = int l"
  proof -
    have "(len is + (2 ^ 32 - 1)) mod 2 ^ 32 = (l + 2 ^ 32) mod 2 ^ 32" unfolding len l(2) [symmetric] by simp
    also have "\<dots> = l" using n l by simp
    finally show ?thesis using n l by (simp add: int_of_u32_def)
  qed
  have last: "intsetGet_raw is (int l) = Some (xs ! l)" using get_rep [OF rep l(1)] .
  have first: "intsetGet_raw is 0 = Some (xs ! 0)" using get_rep [OF rep, of 0] False by simp
  have le_last: "xs ! j \<le> xs ! l" if "j < length xs" for j
    using that sorted_strict_nth [OF sorted, of j l] l by (cases "j = l") auto
  have ge_first: "xs ! 0 \<le> xs ! j" if "j < length xs" for j
    using that sorted_strict_nth [OF sorted, of 0 j] by (cases "j = 0") auto
  consider "xs ! l < v" | "v < xs ! 0" "v \<le> xs ! l" | "xs ! 0 \<le> v" "v \<le> xs ! l" by linarith
  then show ?thesis
  proof cases
    case 1
    then have "v \<notin> set xs" using le_last by (force simp: in_set_conv_nth)
    moreover have "lower xs v = length xs" using 1 le_last by (intro lower_eqI) (auto intro: order_le_less_trans)
    ultimately show ?thesis using 1 False len mx last by (simp add: intsetSearch_def Let_def)
  next
    case 2
    then have "v \<notin> set xs" using ge_first by (force simp: in_set_conv_nth)
    moreover have "lower xs v = 0" using 2 by (intro lower_eqI) auto
    ultimately show ?thesis using 2 False len mx last first by (simp add: intsetSearch_def Let_def)
  next
    case 3
    have "nat (int l + 1) = length xs" using l by simp
    with search_loop_spec [OF rep n, of 0 v "int l" "- 1" "- 1"] l obtain mn' mid' cur' where
      s: "search_loop is v 0 (int l) (- 1) (- 1) = Some (mn', mid', cur')"
        "cur' = v \<longrightarrow> 0 \<le> mid' \<and> nat mid' < length xs \<and> xs ! nat mid' = v"
        "cur' \<noteq> v \<longrightarrow> v \<notin> set xs \<and> mn' = int (lower xs v)" by auto
    have run: "intsetSearch is v = (if v = cur' then Some (True, mid') else Some (False, mn'))"
      using 3 False len mx last first s(1) by (simp add: intsetSearch_def Let_def)
    show ?thesis
    proof (cases "cur' = v")
      case True
      then show ?thesis using run s(2) nth_mem [of "nat mid'" xs] by (intro exI [of _ "nat mid'"]) auto
    next
      case False
      then show ?thesis using run s(3) by auto
    qed
  qed
qed

section \<open>Insertion and removal\<close>

definition ins :: "int \<Rightarrow> int list \<Rightarrow> int list" where
  "ins v xs = takeWhile (\<lambda>x. x < v) xs @ v # dropWhile (\<lambda>x. x < v) xs"

lemma ins_lower: "ins v xs = take (lower xs v) xs @ v # drop (lower xs v) xs"
  unfolding ins_def lower_def by (metis dropWhile_eq_drop takeWhile_eq_take)

lemma lower_le: "lower xs v \<le> length xs"
  by (simp add: lower_def length_takeWhile_le)

lemma set_ins [simp]: "set (ins v xs) = insert v (set xs)"
proof -
  have "set xs = set (takeWhile (\<lambda>x. x < v) xs) \<union> set (dropWhile (\<lambda>x. x < v) xs)"
    by (metis set_append takeWhile_dropWhile_id)
  then show ?thesis by (auto simp: ins_def)
qed

lemma length_ins [simp]: "length (ins v xs) = Suc (length xs)"
  using lower_le [of xs v] by (simp add: ins_lower)

lemma sorted_ins:
  assumes "sorted_wrt (<) xs" "v \<notin> set xs"
  shows "sorted_wrt (<) (ins v xs)"
proof -
  have srt: "sorted_wrt (<) (takeWhile (\<lambda>x. x < v) xs @ dropWhile (\<lambda>x. x < v) xs)" using assms(1) by simp
  have "v < y" if "y \<in> set (dropWhile (\<lambda>x. x < v) xs)" for y
  proof -
    obtain z zs where z: "dropWhile (\<lambda>x. x < v) xs = z # zs" using \<open>y \<in> _\<close> by (cases "dropWhile (\<lambda>x. x < v) xs") auto
    then have "v \<le> z" using hd_dropWhile [of "\<lambda>x. x < v" xs] by auto
    moreover have "z \<le> y" using that srt unfolding z by (auto simp: sorted_wrt_append)
    moreover have "y \<noteq> v" using that assms(2) set_dropWhileD by fastforce
    ultimately show ?thesis by simp
  qed
  moreover have "sorted_wrt (<) (takeWhile (\<lambda>x. x < v) xs)" "sorted_wrt (<) (dropWhile (\<lambda>x. x < v) xs)"
    using srt unfolding sorted_wrt_append by blast+
  moreover have "x < v" if "x \<in> set (takeWhile (\<lambda>x. x < v) xs)" for x using set_takeWhileD [OF that] by simp
  ultimately show ?thesis unfolding ins_def sorted_wrt_append by (auto intro: less_trans)
qed

lemma moveTail_packed:
  assumes "contents is = packed (encoding is) ys" "enc_ok (encoding is)" "from \<le> len is" "len is \<le> length ys"
    "to + (len is - from) \<le> length ys" "len is < 2 ^ 29"
  shows "intsetMoveTail is from to =
    Some (is\<lparr>contents := packed (encoding is) (blit ys to (take (len is - from) (drop from ys)))\<rparr>)"
proof -
  have "(len is + (2 ^ 32 - from)) mod 2 ^ 32 = (len is - from + 2 ^ 32) mod 2 ^ 32" using assms(3,6) by simp
  also have "\<dots> = len is - from" using assms(6) by simp
  finally have b: "(len is + (2 ^ 32 - from)) mod 2 ^ 32 = len is - from" .
  have w: "encoding is \<le> 8" using assms(2) by (auto simp: enc_ok_def)
  have "(len is - from) * encoding is \<le> (len is - from) * 8" using w by (rule mult_le_mono2)
  also have "\<dots> < 2 ^ 32" using assms(6) by simp
  finally have m: "(len is - from) * encoding is mod 2 ^ 32 = (len is - from) * encoding is" by simp
  have pk: "peek (packed (encoding is) ys) (int (from * encoding is)) ((len is - from) * encoding is) =
      Some (packed (encoding is) (take (len is - from) (drop from ys)))"
    using assms(3,4) by (intro peek_packed) simp
  have pq: "poke (packed (encoding is) ys) (int (to * encoding is)) (packed (encoding is) (take (len is - from) (drop from ys))) =
      Some (packed (encoding is) (blit ys to (take (len is - from) (drop from ys))))"
    using assms(3,4,5) by (intro poke_packed) simp
  show ?thesis
    unfolding intsetMoveTail_def Let_def b enc_size_ok [OF assms(2)] m assms(1) pk by (simp add: pq del: of_nat_mult)
qed

lemma resize_grow:
  assumes "contents is = packed (encoding is) xs" "enc_ok (encoding is)" "length xs < 2 ^ 31"
  obtains f where "intsetResize fresh is (Suc (length xs)) = Some (is\<lparr>contents := packed (encoding is) (xs @ [f])\<rparr>)"
proof -
  let ?w = "encoding is"
  let ?F = "map fresh [length (packed ?w xs)..<length (packed ?w xs) + ?w]"
  have "length ?F = 1 * ?w" by simp
  then obtain fs where fs: "?F = packed ?w fs" "length fs = 1" by (rule packed_of_bytes)
  then obtain f where f: "fs = [f]" by (cases fs) auto
  have w: "?w \<le> 8" using assms(2) by (auto simp: enc_ok_def)
  have "Suc (length xs) * ?w \<le> 2 ^ 31 * 8" using assms(3) w by (intro mult_le_mono) auto
  moreover have "realloc fresh (packed ?w xs) (Suc (length xs) * ?w) = packed ?w (xs @ [f])"
  proof -
    have "Suc (length xs) * ?w = length (packed ?w xs) + ?w" by simp
    then show ?thesis unfolding realloc_grow fs(1) f by (simp only: realloc_grow fs(1) f packed_simps append_Nil2)
  qed
  ultimately show ?thesis using assms(1) by (intro that [of f]) (simp add: intsetResize_def del: mult_Suc)
qed

lemma add_plain:
  assumes rep: "intset_rep is xs" and n: "length xs < 2 ^ 29 - 1" and enc: "intsetValueEncoding v \<le> encoding is"
    and v: "in_llong v" "v \<notin> set xs"
  shows "\<exists>is'. intsetAdd fresh is v = Some (is', True) \<and> intset_rep is' (ins v xs)"
proof -
  have r: "enc_ok (encoding is)" "len is = length xs" "contents is = packed (encoding is) xs"
    "\<forall>x \<in> set xs. fits (encoding is) x" "sorted_wrt (<) xs" using rep by (simp_all add: intset_rep_def)
  have n31: "length xs < 2 ^ 31" using n by simp
  let ?p = "lower xs v"
  have s: "intsetSearch is v = Some (False, int ?p)" using intsetSearch_spec [OF rep n31, of v] v(2) by auto
  obtain f where f: "intsetResize fresh is (Suc (length xs)) = Some (is\<lparr>contents := packed (encoding is) (xs @ [f])\<rparr>)"
    by (rule resize_grow [OF r(3,1) n31])
  define is1 where "is1 = is\<lparr>contents := packed (encoding is) (xs @ [f])\<rparr>"
  define ys where "ys = (if ?p < length xs then blit (xs @ [f]) (?p + 1) (drop ?p xs) else xs @ [f])"
  have mv: "(if int ?p < int (len is1) then intsetMoveTail is1 ?p (?p + 1) else Some is1) =
      Some (is1\<lparr>contents := packed (encoding is) ys\<rparr>)"
  proof (cases "?p < length xs")
    case True
    have "intsetMoveTail is1 ?p (?p + 1) = Some (is1\<lparr>contents := packed (encoding is1)
        (blit (xs @ [f]) (?p + 1) (take (len is1 - ?p) (drop ?p (xs @ [f]))))\<rparr>)"
      using True r n by (intro moveTail_packed) (auto simp: is1_def)
    with True r(2) show ?thesis by (simp add: is1_def ys_def)
  qed (use r(2) in \<open>simp add: is1_def ys_def\<close>)
  have ys: "length ys = Suc (length xs)" "ys[?p := v] = ins v xs"
  proof -
    have "blit (xs @ [f]) (?p + 1) (drop ?p xs) = take ?p xs @ xs ! ?p # drop ?p xs" if "?p < length xs"
      using that by (simp add: blit_def take_Suc_conv_app_nth)
    moreover have "(take ?p xs @ y # zs)[?p := v] = take ?p xs @ v # zs" for y zs
      using list_update_length [of "take ?p xs" y zs v] lower_le [of xs v] by simp
    ultimately show "length ys = Suc (length xs)" "ys[?p := v] = ins v xs"
      using lower_le [of xs v] by (auto simp: ys_def ins_lower list_update_append)
  qed
  have is1: "len is1 = length xs" "encoding is1 = encoding is" using r(2) by (simp_all add: is1_def)
  have st: "intsetSet (is1\<lparr>contents := packed (encoding is) ys\<rparr>) (int ?p) v =
      Some (is1\<lparr>contents := packed (encoding is) (ins v xs)\<rparr>)"
    using set_packed [of "is1\<lparr>contents := packed (encoding is) ys\<rparr>" ys ?p v] ys r(1) lower_le [of xs v] is1
    by simp
  have "intsetAdd fresh is v = Some (is1\<lparr>contents := packed (encoding is) (ins v xs), len := Suc (length xs)\<rparr>, True)"
  proof -
    have "intsetResize fresh is ((len is + 1) mod 2 ^ 32) = Some is1" using f r(2) n by (simp add: is1_def)
    moreover have "int_of_u32 ?p = int ?p" using lower_le [of xs v] n by (simp add: int_of_u32_def)
    ultimately show ?thesis using enc s mv st is1 n
      by (cases "?p < length xs") (simp_all add: intsetAdd_def)
  qed
  moreover have "intset_rep (is1\<lparr>contents := packed (encoding is) (ins v xs), len := Suc (length xs)\<rparr>) (ins v xs)"
    using r v enc is1 by (simp add: intset_rep_def sorted_ins fits_iff_encoding)
  ultimately show ?thesis by blast
qed

lemma remove_spec:
  assumes rep: "intset_rep is xs" and n: "length xs < 2 ^ 29" and v: "in_llong v"
  shows "\<exists>is'. intsetRemove fresh is v = Some (is', v \<in> set xs) \<and> intset_rep is' (remove1 v xs)"
proof (cases "v \<in> set xs")
  case False
  have "length xs < 2 ^ 31" using n by simp
  then have "\<exists>p. intsetSearch is v = Some (False, p)" using intsetSearch_spec [OF rep, of v] False by auto
  with False rep show ?thesis by (auto simp: intsetRemove_def remove1_idem)
next
  case True
  have r: "enc_ok (encoding is)" "len is = length xs" "contents is = packed (encoding is) xs"
    "\<forall>x \<in> set xs. fits (encoding is) x" "sorted_wrt (<) xs" using rep by (simp_all add: intset_rep_def)
  have enc: "intsetValueEncoding v \<le> encoding is" using True r(1,4) v fits_iff_encoding by blast
  have "length xs < 2 ^ 31" using n by simp
  then obtain p where p: "intsetSearch is v = Some (True, int p)" "p < length xs" "xs ! p = v"
    using intsetSearch_spec [OF rep, of v] True by auto
  define zs where "zs = take p xs @ drop (Suc p) xs"
  have split: "xs = take p xs @ v # drop (Suc p) xs" using p(2,3) id_take_nth_drop by blast
  define ys where "ys = (if p < length xs - 1 then blit xs p (drop (Suc p) xs) else xs)"
  have mv: "(if int p < int (length xs) - 1 then intsetMoveTail is (p + 1) p else Some is) =
      Some (is\<lparr>contents := packed (encoding is) ys\<rparr>)"
  proof (cases "p < length xs - 1")
    case lt: True
    have "intsetMoveTail is (p + 1) p = Some (is\<lparr>contents := packed (encoding is)
        (blit xs p (take (len is - (p + 1)) (drop (p + 1) xs)))\<rparr>)"
      using lt r n by (intro moveTail_packed) auto
    with lt r(2) show ?thesis by (simp add: ys_def)
  next
    case False
    then have "\<not> int p < int (length xs) - 1" by linarith
    with False r(3) show ?thesis by (simp add: ys_def)
  qed
  have zs: "length ys = length xs" "take (length xs - 1) ys = zs"
  proof -
    have "p = length xs - 1" if "\<not> p < length xs - 1" using p(2) that by linarith
    with p(2) show "length ys = length xs" "take (length xs - 1) ys = zs"
      by (auto simp: ys_def zs_def blit_def)
  qed
  have "(length xs - 1) * encoding is \<le> 2 ^ 29 * 8" using n r(1) by (intro mult_le_mono) (auto simp: enc_ok_def)
  then have rs: "intsetResize fresh (is\<lparr>contents := packed (encoding is) ys\<rparr>) (length xs - 1) =
      Some (is\<lparr>contents := packed (encoding is) zs\<rparr>)"
    using zs by (simp add: intsetResize_def realloc_shrink take_packed)
  have dist: "v \<notin> set (take p xs)" "v \<notin> set (drop (Suc p) xs)"
    using r(5) by (subst (asm) split, auto simp: sorted_wrt_append)+
  then have rem: "remove1 v xs = zs" by (subst split) (simp add: remove1_append zs_def)
  have "sorted_wrt (<) zs" using r(5) by (subst (asm) split) (auto simp: sorted_wrt_append zs_def)
  moreover have "set zs \<subseteq> set xs" by (auto simp: zs_def dest: in_set_takeD in_set_dropD)
  moreover have "length zs = length xs - 1" using p(2) by (simp add: zs_def)
  ultimately have "intset_rep (is\<lparr>contents := packed (encoding is) zs, len := length xs - 1\<rparr>) zs"
    using r(1,4) by (auto simp: intset_rep_def)
  moreover have "intsetRemove fresh is v = Some (is\<lparr>contents := packed (encoding is) zs, len := length xs - 1\<rparr>, True)"
    using enc p(1) mv rs r(2) by (cases "int p < int (length xs) - 1") (simp_all add: intsetRemove_def Let_def)
  ultimately show ?thesis using True rem by auto
qed

section \<open>Upgrade to a wider encoding\<close>

lemma upgrade_loop_spec:
  assumes ok: "enc_ok c" "enc_ok (encoding is)" "c \<le> encoding is" "p \<le> 1"
    and len: "length (contents is) = Suc (length xs) * encoding is" and i: "i \<le> length xs"
    and lo: "take (i * c) (contents is) = packed c (take i xs)" "\<forall>x \<in> set xs. fits c x"
    and hi: "drop ((i + p) * encoding is) (contents is) = packed (encoding is) (drop i xs) @ T"
  shows "\<exists>b. upgrade_loop i p c is = Some (is\<lparr>contents := b\<rparr>) \<and> length b = length (contents is) \<and>
    drop (p * encoding is) b = packed (encoding is) xs @ T"
  using len i lo(1) hi ok(2,3)
proof (induction i arbitrary: "is")
  case 0
  then show ?case by (intro exI [of _ "contents is"]) simp
next
  case (Suc i)
  let ?w = "encoding is" and ?b = "contents is"
  have i: "i < length xs" using Suc.prems(2) by simp
  have wpos: "0 < c" "0 < ?w" using ok(1) Suc.prems(5) by (auto simp: enc_ok_def)
  have "(i + p + 1) * ?w \<le> Suc (length xs) * ?w" using i ok(4) by (intro mult_le_mono1) simp
  then have bound: "(i + p) * ?w + ?w \<le> length ?b" using Suc.prems(1) by simp
  have "Suc i * c \<le> (i + p + 1) * ?w" using Suc.prems(6) by (intro mult_le_mono) auto
  then have cb: "i * c + c \<le> length ?b" using bound by (simp add: add_mult_distrib)
  have "take c (drop (i * c) ?b) = drop (i * c) (take (Suc i * c) ?b)" by (simp add: take_drop add.commute)
  also have "\<dots> = packed c (drop i (take (Suc i) xs))" unfolding Suc.prems(3) by (rule drop_packed)
  also have "\<dots> = sle_enc c (xs ! i)" using i by (simp add: take_Suc_conv_app_nth)
  finally have rd: "intsetGetEncoded is (int i) c = Some (xs ! i)"
    using cb lo(2) i ok(1) sle_dec_enc_fits [of c "xs ! i"]
    by (simp add: intsetGetEncoded_def peek_def del: of_nat_mult flip: of_nat_mult)
  define b1 where "b1 = blit ?b ((i + p) * ?w) (sle_enc ?w (xs ! i))"
  have wr: "intsetSet is (int i + int p) (xs ! i) = Some (is\<lparr>contents := b1\<rparr>)"
  proof -
    have "(int i + int p) * int ?w = int ((i + p) * ?w)" by simp
    then show ?thesis using bound Suc.prems(5) by (simp add: intsetSet_def Let_def poke_def b1_def del: of_nat_mult)
  qed
  have l1: "length b1 = length ?b" using bound by (simp add: b1_def)
  have "i * c \<le> (i + p) * ?w" using Suc.prems(6) by (intro mult_le_mono) auto
  then have t1: "take (i * c) b1 = take (i * c) ?b" using bound unfolding b1_def by (intro take_blit_below) auto
  then have lo1: "take (i * c) b1 = packed c (take i xs)"
  proof -
    have "take (i * c) ?b = take (i * c) (take (Suc i * c) ?b)" by (simp add: min_def)
    also have "\<dots> = packed c (take i (take (Suc i) xs))" unfolding Suc.prems(3) by (rule take_packed)
    finally show ?thesis using t1 by (simp add: min_def)
  qed
  have hi1: "drop ((i + p) * ?w) b1 = packed ?w (drop i xs) @ T"
  proof -
    have "drop ((i + p) * ?w) b1 = sle_enc ?w (xs ! i) @ drop ((i + p) * ?w + ?w) ?b"
      using bound by (simp add: b1_def blit_def)
    also have "drop ((i + p) * ?w + ?w) ?b = packed ?w (drop (Suc i) xs) @ T"
      using Suc.prems(4) by (simp add: add.commute add.left_commute)
    finally show ?thesis using i by (simp add: Cons_nth_drop_Suc [symmetric])
  qed
  from Suc.IH [of "is\<lparr>contents := b1\<rparr>"] Suc.prems i l1 lo1 hi1 obtain b where
    "upgrade_loop i p c (is\<lparr>contents := b1\<rparr>) = Some (is\<lparr>contents := b\<rparr>)" "length b = length ?b"
    "drop (p * ?w) b = packed ?w xs @ T" by auto
  with rd wr show ?case by auto
qed

lemma upgrade_spec:
  assumes rep: "intset_rep is xs" and n: "length xs < 2 ^ 31 - 1" and enc: "intsetValueEncoding v > encoding is"
    and v: "in_llong v"
  shows "\<exists>is'. intsetUpgradeAndAdd fresh is v = Some is' \<and> intset_rep is' (ins v xs)"
proof -
  have r: "enc_ok (encoding is)" "len is = length xs" "contents is = packed (encoding is) xs"
    "\<forall>x \<in> set xs. fits (encoding is) x" "sorted_wrt (<) xs" using rep by (simp_all add: intset_rep_def)
  define c w where "c = encoding is" and "w = intsetValueEncoding v"
  define p :: nat where "p = (if v < 0 then 1 else 0)"
  have cw: "enc_ok c" "enc_ok w" "c \<le> w" "p \<le> 1" using r(1) enc by (simp_all add: c_def w_def enc_ok_value p_def)
  have out: "if v < 0 then \<forall>x \<in> set xs. v < x else \<forall>x \<in> set xs. x < v"
  proof -
    have "\<not> fits c v" using enc v fits_iff_encoding cw(1) by (simp add: c_def)
    then have "2 * v < - (256 ^ c) \<or> 256 ^ c \<le> 2 * v" by (auto simp: fits_def)
    moreover have "(0::int) < 256 ^ c" by simp
    ultimately show ?thesis using r(4) unfolding c_def [symmetric] fits_def by fastforce
  qed
  have ins: "ins v xs = (if v < 0 then v # xs else xs @ [v])"
  proof (cases "v < 0")
    case True
    with out have "\<forall>x \<in> set xs. \<not> x < v" by auto
    then have "takeWhile (\<lambda>x. x < v) xs = []" "dropWhile (\<lambda>x. x < v) xs = xs" by (cases xs; simp)+
    with True show ?thesis by (simp add: ins_def)
  next
    case False
    with out have "takeWhile (\<lambda>x. x < v) xs = xs" "dropWhile (\<lambda>x. x < v) xs = []" by simp_all
    with False show ?thesis by (simp add: ins_def)
  qed
  define b where "b = realloc fresh (packed c xs) (Suc (length xs) * w)"
  define is1 where "is1 = is\<lparr>encoding := w, contents := b\<rparr>"
  have w8: "w \<le> 8" "0 < w" using cw(2) by (auto simp: enc_ok_def)
  have "Suc (length xs) * w \<le> 2 ^ 31 * 8" using n w8 by (intro mult_le_mono) auto
  then have rs: "intsetResize fresh (is\<lparr>encoding := w\<rparr>) (Suc (length xs)) = Some is1"
    using r(3) by (simp add: intsetResize_def is1_def b_def c_def)
  have "length xs * c \<le> Suc (length xs) * w" using cw(3) by (intro mult_le_mono) auto
  then have tk: "take (length xs * c) b = packed c xs" by (simp add: b_def realloc_def min_def)
  define T where "T = drop ((length xs + p) * w) b"
  have "\<exists>b'. upgrade_loop (length xs) p c is1 = Some (is1\<lparr>contents := b'\<rparr>) \<and> length b' = length (contents is1) \<and>
      drop (p * encoding is1) b' = packed (encoding is1) xs @ T"
    using cw tk r(4) by (intro upgrade_loop_spec) (simp_all add: is1_def b_def [symmetric] T_def, simp_all add: b_def c_def)
  then obtain b' where b': "upgrade_loop (length xs) p c is1 = Some (is1\<lparr>contents := b'\<rparr>)"
    "length b' = Suc (length xs) * w" "drop (p * w) b' = packed w xs @ T"
    by (auto simp: is1_def b_def)
  have T: "length T = (1 - p) * w" using cw(4) by (auto simp: T_def b_def le_Suc_eq p_def)
  have st: "(if p \<noteq> 0 then intsetSet (is1\<lparr>contents := b'\<rparr>) 0 v else intsetSet (is1\<lparr>contents := b'\<rparr>) (int_of_u32 (len is1)) v) =
      Some (is1\<lparr>contents := packed w (ins v xs)\<rparr>)"
  proof (cases "v < 0")
    case True
    then have "blit b' 0 (sle_enc w v) = packed w (ins v xs)" using T b'(3) by (simp add: ins p_def blit_def)
    with True b'(2) cw(2) show ?thesis by (simp add: p_def intsetSet_def Let_def is1_def poke_def)
  next
    case False
    then have bb: "b' = packed w xs @ T" "length T = w" using T b'(3) by (simp_all add: p_def)
    then have "blit b' (length xs * w) (sle_enc w v) = packed w (ins v xs)"
      using False by (simp add: ins blit_def)
    moreover have "poke b' (int (length xs * w)) (sle_enc w v) = Some (blit b' (length xs * w) (sle_enc w v))"
      using b'(2) by (simp add: poke_def del: of_nat_mult)
    ultimately show ?thesis using False cw(2) r(2) n by (simp add: p_def intsetSet_def Let_def is1_def int_of_u32_def)
  qed
  have len1: "len is1 = length xs" using r(2) by (simp add: is1_def)
  have "intsetUpgradeAndAdd fresh is v = Some (is1\<lparr>contents := packed w (ins v xs), len := Suc (length xs)\<rparr>)"
  proof -
    have u: "int_of_u32 (len is) = int (length xs)" "(len is + 1) mod 2 ^ 32 = Suc (length xs)"
      using r(2) n by (simp_all add: int_of_u32_def)
    show ?thesis
      unfolding intsetUpgradeAndAdd_def Let_def u w_def [symmetric] c_def [symmetric] p_def [symmetric]
      using rs b'(1) st len1 n by (cases "p = 0") simp_all
  qed
  moreover have "intset_rep (is1\<lparr>contents := packed w (ins v xs), len := Suc (length xs)\<rparr>) (ins v xs)"
  proof -
    have "v \<notin> set xs" using out by (auto split: if_splits)
    moreover have "fits w v" using v cw(2) by (simp add: fits_iff_encoding w_def)
    moreover have "\<forall>x \<in> set xs. fits w x" using r(4) cw fits_mono unfolding c_def by blast
    ultimately show ?thesis using cw(2) r(5) by (simp add: intset_rep_def is1_def sorted_ins)
  qed
  ultimately show ?thesis by blast
qed

lemma add_spec:
  assumes rep: "intset_rep is xs" and n: "length xs < 2 ^ 29 - 1" and v: "in_llong v"
  shows "\<exists>is'. intsetAdd fresh is v = Some (is', v \<notin> set xs) \<and>
    intset_rep is' (if v \<in> set xs then xs else ins v xs)"
proof (cases "intsetValueEncoding v > encoding is")
  case True
  have "v \<notin> set xs" using rep v True fits_iff_encoding by (fastforce simp: intset_rep_def)
  moreover have "length xs < 2 ^ 31 - 1" using n by simp
  ultimately show ?thesis using upgrade_spec [OF rep _ True v, of fresh] True by (auto simp: intsetAdd_def)
next
  case le: False
  show ?thesis
  proof (cases "v \<in> set xs")
    case True
    have "length xs < 2 ^ 31" using n by simp
    then have "\<exists>p. intsetSearch is v = Some (True, p)" using intsetSearch_spec [OF rep, of v] True by auto
    with True le rep show ?thesis by (auto simp: intsetAdd_def)
  next
    case False
    then show ?thesis using add_plain [OF rep n _ v, of fresh] le by auto
  qed
qed

lemma find_spec:
  assumes rep: "intset_rep is xs" and n: "length xs < 2 ^ 31" and v: "in_llong v"
  shows "intsetFind is v = Some (v \<in> set xs)"
proof (cases "intsetValueEncoding v \<le> encoding is")
  case True
  then show ?thesis using intsetSearch_spec [OF rep n, of v] by (auto simp: intsetFind_def)
next
  case False
  then have "v \<notin> set xs" using rep v fits_iff_encoding by (fastforce simp: intset_rep_def)
  with False show ?thesis by (simp add: intsetFind_def)
qed

section \<open>Validation of a serialised intset\<close>

lemma get_negative:
  assumes "i < 0" "enc_ok (encoding is)"
  shows "intsetGet_raw is i = None"
proof -
  have "i * int (enc_size (encoding is)) < 0" using assms by (auto simp: enc_ok_def intro: mult_neg_pos)
  then show ?thesis by (simp add: intsetGet_raw_def intsetGetEncoded_def peek_def)
qed

lemma sorted_short: "length ys \<le> 1 \<Longrightarrow> sorted_wrt P ys"
  by (cases ys) auto

lemma sorted_take_step:
  assumes "0 < i" "i < length xs" "i < m"
  shows "sorted_wrt (<) (take (m - (i - 1)) (drop (i - 1) xs)) \<longleftrightarrow>
    xs ! (i - 1) < (xs ! i :: int) \<and> sorted_wrt (<) (take (m - i) (drop i xs))"
proof -
  have "drop (i - 1) xs = xs ! (i - 1) # drop i xs" "drop i xs = xs ! i # drop (Suc i) xs"
    using assms by (metis Cons_nth_drop_Suc Suc_diff_1 less_imp_diff_less, metis Cons_nth_drop_Suc)
  moreover have "m - (i - 1) = Suc (Suc (m - Suc i))" "m - i = Suc (m - Suc i)" using assms by simp_all
  ultimately show ?thesis by (auto intro: less_trans)
qed

lemma validate_loop_spec:
  assumes "enc_ok (encoding is)" "contents is = packed (encoding is) xs" "\<forall>x \<in> set xs. fits (encoding is) x"
    "length xs < 2 ^ 32" "0 < i" "i \<le> 2 ^ 31" "i + n = length xs"
  shows "validate_loop is n i (xs ! (i - 1)) =
    (if sorted_wrt (<) (take (2 ^ 31 - (i - 1)) (drop (i - 1) xs))
     then if length xs \<le> 2 ^ 31 then Some True else None else Some False)"
  using assms(5-7)
proof (induction n arbitrary: i)
  case 0
  then have "drop (i - 1) xs = [xs ! (i - 1)]" by (metis Cons_nth_drop_Suc Suc_diff_1 add_0_right diff_less drop_eq_Nil le_refl zero_less_one)
  moreover have "length xs \<le> 2 ^ 31" using 0 by simp
  ultimately show ?case by (simp add: take_Cons')
next
  case (Suc n)
  then have i: "i < length xs" by simp
  show ?case
  proof (cases "i < 2 ^ 31")
    case True
    have "intsetGet_raw is (int i) = Some (xs ! i)"
      unfolding intsetGet_raw_def using assms(1-3) i by (intro get_packed) auto
    moreover have "int_of_u32 i = int i" using True by (simp add: int_of_u32_def)
    ultimately have run: "validate_loop is (Suc n) i (xs ! (i - 1)) =
      (if xs ! i \<le> xs ! (i - 1) then Some False else validate_loop is n (i + 1) (xs ! (i + 1 - 1)))" by simp
    have "validate_loop is n (i + 1) (xs ! (i + 1 - 1)) = (if sorted_wrt (<) (take (2 ^ 31 - i) (drop i xs))
       then if length xs \<le> 2 ^ 31 then Some True else None else Some False)"
      using Suc.IH [of "i + 1"] Suc.prems True by (simp only: add_diff_cancel_right')
    then show ?thesis unfolding run sorted_take_step [OF Suc.prems(1) i True] by auto
  next
    case False
    then have e: "i = 2 ^ 31" using Suc.prems(2) by linarith
    then have "int_of_u32 i < 0" by (simp add: int_of_u32_def)
    then have "intsetGet_raw is (int_of_u32 i) = None" using assms(1) by (intro get_negative)
    moreover have "length (take (2 ^ 31 - (i - 1)) (drop (i - 1) xs)) \<le> 1" unfolding e by simp
    then have "sorted_wrt (<) (take (2 ^ 31 - (i - 1)) (drop (i - 1) xs))" by (rule sorted_short)
    ultimately show ?thesis using i e by simp
  qed
qed

text \<open>The records of a serialised intset whose header matches its length.\<close>

definition blob_records :: "buffer \<Rightarrow> int list \<Rightarrow> bool" where
  "blob_records p xs \<longleftrightarrow> 8 \<le> length p \<and> (let q = intsetOfBlob p in
     enc_ok (encoding q) \<and> len q = length xs \<and> contents q = packed (encoding q) xs \<and>
     (\<forall>x \<in> set xs. fits (encoding q) x))"

lemma blob_records_unique:
  assumes "blob_records p xs" "blob_records p ys"
  shows "xs = ys"
proof (rule nth_equalityI)
  show len: "length xs = length ys" using assms by (simp add: blob_records_def Let_def)
  fix i assume i: "i < length xs"
  let ?q = "intsetOfBlob p"
  have "intsetGetEncoded ?q (int i) (encoding ?q) = Some (xs ! i)" "intsetGetEncoded ?q (int i) (encoding ?q) = Some (ys ! i)"
    using assms i len by (auto simp: blob_records_def Let_def intro!: get_packed)
  then show "xs ! i = ys ! i" by simp
qed

lemma blob_records_rep:
  "8 \<le> length p \<and> intset_rep (intsetOfBlob p) xs \<longleftrightarrow> blob_records p xs \<and> sorted_wrt (<) xs"
  by (auto simp: blob_records_def intset_rep_def Let_def)

lemma blob_len_bound: "len (intsetOfBlob p) < 2 ^ 32"
proof -
  have "256 ^ length (take 4 (drop 4 p)) \<le> (256::nat) ^ 4" by (intro power_increasing) auto
  then show ?thesis using le_dec_bound [of "take 4 (drop 4 p)"] by (simp add: intsetOfBlob_def)
qed

lemma validate_malformed:
  assumes "\<nexists>xs. blob_records p xs \<and> xs \<noteq> []"
  shows "intsetValidateIntegrity p True = Some False"
proof (rule ccontr)
  let ?q = "intsetOfBlob p"
  assume "intsetValidateIntegrity p True \<noteq> Some False"
  then have w: "8 \<le> length p" "enc_ok (encoding ?q)" "8 + len ?q * encoding ?q = length p" "len ?q \<noteq> 0"
    by (auto simp: intsetValidateIntegrity_def Let_def enc_ok_def INTSET_ENC_INT64_def
        INTSET_ENC_INT32_def INTSET_ENC_INT16_def split: if_splits)
  have c: "length (contents ?q) = len ?q * encoding ?q" using w(1,3) by (simp add: intsetOfBlob_def)
  obtain xs where "contents ?q = packed (encoding ?q) xs" "length xs = len ?q" "\<forall>x \<in> set xs. fits (encoding ?q) x"
    by (rule packed_of_bytes [OF c]) (simp add: fits_def)
  with w have "blob_records p xs" "xs \<noteq> []" by (auto simp: blob_records_def Let_def)
  with assms show False by blast
qed

lemma validate_records:
  assumes r: "blob_records p xs" and ne: "xs \<noteq> []"
  shows "intsetValidateIntegrity p True = (if sorted_wrt (<) (take (2 ^ 31) xs)
    then if length xs \<le> 2 ^ 31 then Some True else None else Some False)"
proof -
  define q where "q = intsetOfBlob p"
  have q: "8 \<le> length p" "enc_ok (encoding q)" "len q = length xs" "contents q = packed (encoding q) xs"
    "\<forall>x \<in> set xs. fits (encoding q) x" using r by (simp_all add: blob_records_def Let_def q_def)
  have "length (contents q) = length p - 8" by (simp add: q_def intsetOfBlob_def)
  then have l: "8 + length xs * encoding q = length p" using q(1,4) by simp
  have "intsetGetEncoded q (int 0) (encoding q) = Some (xs ! 0)"
    using q ne by (intro get_packed) auto
  then have f: "intsetGet_raw q 0 = Some (xs ! 0)" by (simp add: intsetGet_raw_def)
  have "length xs < 2 ^ 32" using blob_len_bound [of p] q(3) by (simp add: q_def)
  then have "validate_loop q (length xs - 1) 1 (xs ! (1 - 1)) =
    (if sorted_wrt (<) (take (2 ^ 31 - (1 - 1)) (drop (1 - 1) xs))
     then if length xs \<le> 2 ^ 31 then Some True else None else Some False)"
    using q ne by (intro validate_loop_spec) (auto simp: Suc_le_eq)
  then show ?thesis
    using q l f ne by (auto simp: intsetValidateIntegrity_def Let_def q_def [symmetric] enc_ok_def
        INTSET_ENC_INT64_def INTSET_ENC_INT32_def INTSET_ENC_INT16_def)
qed

lemma rep_unique:
  assumes "intset_rep is xs" "intset_rep is ys"
  shows "xs = ys"
proof (rule nth_equalityI)
  show len: "length xs = length ys" using assms by (simp add: intset_rep_def)
  fix i assume "i < length xs"
  then show "xs ! i = ys ! i" using get_rep [OF assms(1), of i] get_rep [OF assms(2), of i] len by simp
qed

text \<open>
  C10: Deep validation of a serialised intset, on any buffer. It accepts exactly the buffers that
  hold a well-formed non-empty intset of at most \<open>2 ^ 31\<close> elements. It reads outside the buffer
  (\<open>None\<close>) exactly when the header announces more than \<open>2 ^ 31\<close> records, the buffer has that many,
  and the first \<open>2 ^ 31\<close> of them ascend: the index \<open>2 ^ 31\<close> is then converted to a negative \<open>int\<close>.
  On every other buffer it stays inside and rejects.
\<close>

theorem intsetValidateIntegrity_iff:
  "(intsetValidateIntegrity p True = Some True \<longleftrightarrow>
      8 \<le> length p \<and> (\<exists>xs. xs \<noteq> [] \<and> length xs \<le> 2 ^ 31 \<and> intset_rep (intsetOfBlob p) xs)) \<and>
   (intsetValidateIntegrity p True = None \<longleftrightarrow>
      (\<exists>xs. blob_records p xs \<and> 2 ^ 31 < length xs \<and> sorted_wrt (<) (take (2 ^ 31) xs)))"
proof (cases "\<exists>xs. blob_records p xs \<and> xs \<noteq> []")
  case False
  then have "\<nexists>xs. blob_records p xs \<and> 2 ^ 31 < length xs" by (metis list.size(3) not_less_zero)
  then show ?thesis using False validate_malformed [OF False] blob_records_rep [of p] by auto
next
  case True
  then obtain xs where xs: "blob_records p xs" "xs \<noteq> []" by blast
  have "(\<exists>ys. blob_records p ys \<and> P ys) \<longleftrightarrow> P xs" for P
    using xs(1) blob_records_unique by blast
  note one = this
  have "8 \<le> length p \<and> (\<exists>ys. ys \<noteq> [] \<and> length ys \<le> 2 ^ 31 \<and> intset_rep (intsetOfBlob p) ys) \<longleftrightarrow>
    (\<exists>ys. blob_records p ys \<and> (sorted_wrt (<) ys \<and> ys \<noteq> [] \<and> length ys \<le> 2 ^ 31))"
    using blob_records_rep [of p] by blast
  then show ?thesis unfolding one validate_records [OF xs] using xs(2) by auto
qed
section \<open>An intset is a set of integers\<close>

definition intset_elems :: "intset \<Rightarrow> int list" where
  "intset_elems is = map (\<lambda>i. the (intsetGet_raw is (int i))) [0..<len is]"

lemma intset_elems_rep:
  assumes "intset_rep is xs"
  shows "intset_elems is = xs"
proof -
  have "len is = length xs" using assms by (simp add: intset_rep_def)
  then show ?thesis unfolding intset_elems_def by (intro nth_equalityI) (auto simp: get_rep [OF assms])
qed

definition intset_inv :: "intset \<Rightarrow> bool" where
  "intset_inv is \<longleftrightarrow> intset_rep is (intset_elems is) \<and> len is < 2 ^ 29"

lemma intset_invI: "intset_rep is xs \<Longrightarrow> length xs < 2 ^ 29 \<Longrightarrow> intset_inv is"
  unfolding intset_inv_def by (simp add: intset_elems_rep) (simp add: intset_rep_def)

lemma intset_invD:
  assumes "intset_inv is"
  shows "intset_rep is (intset_elems is)" "length (intset_elems is) < 2 ^ 29"
    "card (set (intset_elems is)) = length (intset_elems is)"
proof -
  show r: "intset_rep is (intset_elems is)" using assms by (simp add: intset_inv_def)
  show "length (intset_elems is) < 2 ^ 29" using assms by (simp add: intset_inv_def intset_elems_def)
  have "distinct (intset_elems is)" using r by (auto simp: intset_rep_def sorted_wrt_iff_nth_less distinct_conv_nth neq_iff)
  then show "card (set (intset_elems is)) = length (intset_elems is)" by (rule distinct_card)
qed

definition intset_ops :: "(nat \<Rightarrow> byte, intset, int) set_ops" where
  "intset_ops = \<lparr>st_add = intsetAdd, st_remove = intsetRemove,
     st_member = \<lambda>_ is v. map_option (Pair is) (intsetFind is v)\<rparr>"

lemma intset_inv_new: "intset_inv intsetNew" "set (intset_elems intsetNew) = {}"
  by (simp_all add: intset_inv_def intset_elems_def intsetNew_def intset_rep_def enc_ok_def INTSET_ENC_INT16_def)

interpretation intset: set_store intset_inv "\<lambda>is. set (intset_elems is)" in_llong "2 ^ 29 - 1" intset_ops
proof
  fix "is" v c
  assume inv: "intset_inv is"
  note r = intset_invD [OF inv]
  show "finite (set (intset_elems is))" by simp
  assume v: "in_llong v"
  show "\<exists>s'. st_remove intset_ops c is v = Some (s', v \<in> set (intset_elems is)) \<and> intset_inv s' \<and>
      set (intset_elems s') = set (intset_elems is) - {v}"
  proof -
    obtain is' where is': "intsetRemove c is v = Some (is', v \<in> set (intset_elems is))" "intset_rep is' (remove1 v (intset_elems is))"
      using remove_spec [OF r(1,2) v] by blast
    moreover have "intset_inv is'" using r(2) by (intro intset_invI [OF is'(2)]) (auto simp: length_remove1)
    moreover have "set (remove1 v (intset_elems is)) = set (intset_elems is) - {v}"
      using r(3) by (simp add: card_distinct set_remove1_eq)
    ultimately show ?thesis using intset_elems_rep [OF is'(2)] by (auto simp: intset_ops_def)
  qed
  show "\<exists>s'. st_member intset_ops c is v = Some (s', v \<in> set (intset_elems is)) \<and> intset_inv s' \<and>
      set (intset_elems s') = set (intset_elems is)"
    using find_spec [OF r(1) _ v] r(2) inv by (simp add: intset_ops_def)
  assume "card (set (intset_elems is)) < 2 ^ 29 - 1"
  then have n: "length (intset_elems is) < 2 ^ 29 - 1" using r(3) by simp
  obtain is' where is': "intsetAdd c is v = Some (is', v \<notin> set (intset_elems is))"
    "intset_rep is' (if v \<in> set (intset_elems is) then intset_elems is else ins v (intset_elems is))"
    using add_spec [OF r(1) n v] by blast
  moreover have "intset_inv is'" using n by (intro intset_invI [OF is'(2)]) auto
  ultimately show "\<exists>s'. st_add intset_ops c is v = Some (s', v \<notin> set (intset_elems is)) \<and> intset_inv s' \<and>
      set (intset_elems s') = insert v (set (intset_elems is))"
    using intset_elems_rep [OF is'(2)] by (auto simp: intset_ops_def)
qed

section \<open>Properties\<close>

text \<open>
  C9: An intset that starts empty behaves as a set of 64-bit integers under every sequence
  of insertions, removals and membership tests, through all upgrades of its encoding; no
  operation leaves the allocated memory, and the bytes stay a sorted array without
  duplicates. The bound on the number of operations keeps the set below \<open>2 ^ 29\<close> elements.
\<close>

theorem intset_refines_set:
  assumes "\<forall>p \<in> set ps. in_llong (op_elem (snd p))" "length ps \<le> 2 ^ 29 - 1"
  shows "\<exists>is' rs. set_run intset_ops intsetNew ps = Some (is', rs) \<and>
    intset_rep is' (sorted_list_of_set (fst (aset_run {} (map snd ps)))) \<and>
    rs = snd (aset_run {} (map snd ps))"
proof -
  have "card (set (intset_elems intsetNew)) + length ps \<le> 2 ^ 29 - 1" using assms(2) by (simp add: intset_inv_new)
  from intset.set_run_refines [OF intset_inv_new(1) assms(1) this] obtain is' rs where
    r: "set_run intset_ops intsetNew ps = Some (is', rs)" "intset_inv is'"
      "aset_run {} (map snd ps) = (set (intset_elems is'), rs)"
    unfolding intset_inv_new(2) by blast
  have "sorted_list_of_set (set (intset_elems is')) = intset_elems is'"
    using intset_invD(1) [OF r(2)] by (auto simp: intset_rep_def strict_sorted_iff intro: sorted_list_of_set.idem_if_sorted_distinct)
  with r intset_invD(1) [OF r(2)] show ?thesis by simp
qed

theorem intset_refines_set_witness:
  "\<exists>is' rs. set_run intset_ops intsetNew
     [(\<lambda>_. 7, SetAdd 5), (\<lambda>_. 9, SetAdd (- 70000)), (\<lambda>_. 1, SetRemove 5), (\<lambda>_. 0, SetMember 5)] = Some (is', rs) \<and>
     intset_rep is' [- 70000] \<and> rs = [True, True, True, False]"
  using intset_refines_set [of "[(\<lambda>_. 7, SetAdd 5), (\<lambda>_. 9, SetAdd (- 70000)), (\<lambda>_. 1, SetRemove 5), (\<lambda>_. 0, SetMember 5)]"]
  by (simp add: insert_Diff_if del: set_run.simps)

theorem intsetValidateIntegrity_iff_witness:
  "\<exists>xs. xs \<noteq> [] \<and> length xs \<le> 2 ^ 31 \<and> intset_rep (intsetOfBlob [2, 0, 0, 0, 1, 0, 0, 0, 44, 1]) xs"
proof -
  have "intsetValidateIntegrity [2, 0, 0, 0, 1, 0, 0, 0, 44, 1] True = Some True" by code_simp
  with intsetValidateIntegrity_iff [of "[2, 0, 0, 0, 1, 0, 0, 0, 44, 1]"] show ?thesis by blast
qed

section \<open>A 32-bit overflow\<close>

lemma wide_rep:
  assumes "0 \<le> m" "m < 2 ^ 32"
  shows "intset_rep \<lparr>encoding = 8, len = nat m + 1, contents = packed 8 (0 # [1..m])\<rparr> (0 # [1..m])"
proof -
  have "sorted_wrt (<) (0 # [1..m])" by auto
  moreover have "length (0 # [1..m]) = nat m + 1" by simp
  moreover have "\<forall>x \<in> set (0 # [1..m]). fits 8 x" using assms by (auto simp: fits_def)
  ultimately show ?thesis unfolding intset_rep_def intset.simps by (simp only: enc_ok_def simp_thms)
qed

lemma wide_len: "nat (2 ^ 29 - 1) + 1 = 2 ^ 29" "length (x # [1..m]) = nat m + 1"
  by simp_all

text \<open>
  C14: The number of bytes that \<open>intsetMoveTail\<close> moves is computed in a \<open>uint32_t\<close>. Once a set
  of 8-byte integers has \<open>2 ^ 29\<close> elements the product is 0: inserting a new minimum then
  overwrites the old one, and fresh memory becomes the last element. The limit of \<open>2 ^ 30\<close>
  entries that \<open>t_set.c\<close> enforces does not exclude this.
\<close>

theorem intsetAdd_overflow:
  assumes rep: "intset_rep is (x # xs)" and n: "length (x # xs) = 2 ^ 29" and enc: "encoding is = 8"
    and v: "in_llong v" "v < x"
  shows "\<exists>is' f. intsetAdd fresh is v = Some (is', True) \<and> len is' = 2 ^ 29 + 1 \<and>
    contents is' = packed 8 (v # xs @ [f])"
proof -
  have r: "enc_ok (encoding is)" "len is = 2 ^ 29" "contents is = packed (encoding is) (x # xs)" "sorted_wrt (<) (x # xs)"
    using rep n by (simp_all add: intset_rep_def)
  have "v \<notin> set (x # xs)" using r(4) v(2) by auto
  moreover have "lower (x # xs) v = 0" using v(2) by (simp add: lower_def)
  moreover have n31: "length (x # xs) < 2 ^ 31" using n by simp
  ultimately have s: "intsetSearch is v = Some (False, 0)" using intsetSearch_spec [OF rep n31, of v] by auto
  obtain f where f: "intsetResize fresh is (Suc (length (x # xs))) = Some (is\<lparr>contents := packed (encoding is) ((x # xs) @ [f])\<rparr>)"
    by (rule resize_grow [OF r(3,1) n31])
  define is1 where "is1 = is\<lparr>contents := packed 8 ((x # xs) @ [f])\<rparr>"
  have rs: "intsetResize fresh is ((len is + 1) mod 2 ^ 32) = Some is1" using f n enc r(2) by (simp add: is1_def)
  have mv: "intsetMoveTail is1 0 1 = Some is1"
    using enc r(2) n by (simp add: intsetMoveTail_def is1_def Let_def peek_def poke_def blit_def enc_size_def INTSET_ENC_INT64_def)
  have st: "intsetSet is1 (int 0) v = Some (is1\<lparr>contents := packed 8 (v # xs @ [f])\<rparr>)"
    using set_packed [of is1 "(x # xs) @ [f]" 0 v] r(1) enc by (simp add: is1_def)
  have "intsetValueEncoding v \<le> 8"
    by (simp add: intsetValueEncoding_def INTSET_ENC_INT64_def INTSET_ENC_INT32_def INTSET_ENC_INT16_def)
  then show ?thesis
    using s rs mv st enc r(2) by (intro exI [of _ "is1\<lparr>contents := packed 8 (v # xs @ [f]), len := 2 ^ 29 + 1\<rparr>"] exI [of _ f])
      (simp add: intsetAdd_def int_of_u32_def, simp add: is1_def)
qed

theorem intsetAdd_overflow_witness:
  "\<exists>is' f. intsetAdd (\<lambda>_. 0) \<lparr>encoding = 8, len = 2 ^ 29, contents = packed 8 (0 # [1..2 ^ 29 - 1])\<rparr> (- 1) = Some (is', True) \<and>
     len is' = 2 ^ 29 + 1 \<and> contents is' = packed 8 (- 1 # [1..2 ^ 29 - 1] @ [f])"
proof (rule intsetAdd_overflow)
  show "intset_rep \<lparr>encoding = 8, len = 2 ^ 29, contents = packed 8 (0 # [1..2 ^ 29 - 1])\<rparr> (0 # [1..2 ^ 29 - 1])"
    using wide_rep [of "2 ^ 29 - 1"] unfolding wide_len(1) by (rule meta_mp)+ simp_all
  show "length (0 # [1..2 ^ 29 - 1]) = 2 ^ 29" unfolding wide_len(2) by (rule wide_len(1))
qed simp_all


end
