(* ===== verification/RedisSds.thy ===== *)
theory RedisSds
  imports RedisPrelude
begin

text \<open>
  The dynamic strings of \<open>sds.c\<close> and \<open>sds.h\<close>, with their headers and allocations. A string
  is a record of the header type, the two header fields and the memory from the first
  character to the end of the allocation. Storing a number in a header field takes it
  modulo the width of the field.

  The allocator is a parameter: \<open>usable n\<close> is the usable size that it reports for a request
  of \<open>n\<close> bytes, \<open>fresh\<close> the contents of new memory. It aborts the process when memory is
  exhausted, so there is no null result. \<open>None\<close> is an access outside the allocation or a
  failed assertion.
\<close>

section \<open>Headers\<close>

definition SDS_TYPE_5 :: nat where "SDS_TYPE_5 = 0"
definition SDS_TYPE_8 :: nat where "SDS_TYPE_8 = 1"
definition SDS_TYPE_16 :: nat where "SDS_TYPE_16 = 2"
definition SDS_TYPE_32 :: nat where "SDS_TYPE_32 = 3"
definition SDS_TYPE_64 :: nat where "SDS_TYPE_64 = 4"
definition SDS_MAX_PREALLOC :: nat where "SDS_MAX_PREALLOC = 1024 * 1024"

lemmas sds_types = SDS_TYPE_5_def SDS_TYPE_8_def SDS_TYPE_16_def SDS_TYPE_32_def SDS_TYPE_64_def

record sds =
  sds_type :: nat
  sh_len :: nat
  sh_alloc :: nat
  sds_buf :: buffer

definition sdsHdrSize :: "nat \<Rightarrow> nat" where
  "sdsHdrSize t =
     (if t = SDS_TYPE_5 then 1 else if t = SDS_TYPE_8 then 3 else if t = SDS_TYPE_16 then 5
      else if t = SDS_TYPE_32 then 9 else if t = SDS_TYPE_64 then 17 else 0)"

definition sdsReqType :: "nat \<Rightarrow> nat" where
  "sdsReqType string_size =
     (if string_size < 2 ^ 5 then SDS_TYPE_5
      else if string_size < 2 ^ 8 then SDS_TYPE_8
      else if string_size < 2 ^ 16 then SDS_TYPE_16
      else if string_size < 2 ^ 32 then SDS_TYPE_32
      else SDS_TYPE_64)"

definition sdsTypeMaxSize :: "nat \<Rightarrow> nat" where
  "sdsTypeMaxSize t =
     (if t = SDS_TYPE_5 then 2 ^ 5 - 1 else if t = SDS_TYPE_8 then 2 ^ 8 - 1
      else if t = SDS_TYPE_16 then 2 ^ 16 - 1 else if t = SDS_TYPE_32 then 2 ^ 32 - 1
      else 2 ^ 64 - 1)"

text \<open>The number of bits of the length and allocation fields of a header.\<close>

definition field_bits :: "nat \<Rightarrow> nat" where
  "field_bits t =
     (if t = SDS_TYPE_5 then 5 else if t = SDS_TYPE_8 then 8 else if t = SDS_TYPE_16 then 16
      else if t = SDS_TYPE_32 then 32 else 64)"

definition sdslen :: "sds \<Rightarrow> nat" where
  "sdslen s = sh_len s"

definition sdsavail :: "sds \<Rightarrow> nat" where
  "sdsavail s = (if sds_type s = SDS_TYPE_5 then 0 else (2 ^ 64 + sh_alloc s - sh_len s) mod 2 ^ 64)"

definition sdssetlen :: "sds \<Rightarrow> nat \<Rightarrow> sds" where
  "sdssetlen s newlen = s\<lparr>sh_len := newlen mod 2 ^ field_bits (sds_type s)\<rparr>"

definition sdsalloc :: "sds \<Rightarrow> nat" where
  "sdsalloc s = (if sds_type s = SDS_TYPE_5 then sh_len s else sh_alloc s)"

definition sdssetalloc :: "sds \<Rightarrow> nat \<Rightarrow> sds" where
  "sdssetalloc s newlen =
     (if sds_type s = SDS_TYPE_5 then s else s\<lparr>sh_alloc := newlen mod 2 ^ field_bits (sds_type s)\<rparr>)"

section \<open>Creation\<close>

text \<open>The pointer \<open>init\<close>: a block of bytes, \<open>NULL\<close>, or the marker \<open>SDS_NOINIT\<close>.\<close>

datatype sds_init = InitFrom buffer | InitNull | SDS_NOINIT

definition sdsnewlen_gen ::
  "(nat \<Rightarrow> nat) \<Rightarrow> (nat \<Rightarrow> byte) \<Rightarrow> sds_init \<Rightarrow> nat \<Rightarrow> sds option" where
  "sdsnewlen_gen usable fresh init initlen =
     (let t = sdsReqType initlen;
          t = (if t = SDS_TYPE_5 \<and> initlen = 0 then SDS_TYPE_8 else t);
          hdrlen = sdsHdrSize t
      in if \<not> (initlen + hdrlen + 1) mod 2 ^ 64 > initlen then None
         else
           (let u = usable (hdrlen + initlen + 1);
                mem = map fresh [0..<u - hdrlen];
                mem = (if init = InitNull then replicate (initlen + 1) 0 @ drop (initlen + 1) mem else mem);
                us = min (u - hdrlen - 1) (sdsTypeMaxSize t)
            in do {
              mem \<leftarrow> (case init of
                        InitFrom p \<Rightarrow> if initlen \<noteq> 0 then do { b \<leftarrow> peek p 0 initlen; poke mem 0 b } else Some mem
                      | _ \<Rightarrow> Some mem);
              mem \<leftarrow> wr mem (int initlen) 0;
              Some (sdssetalloc (sdssetlen \<lparr>sds_type = t, sh_len = 0, sh_alloc = 0, sds_buf = mem\<rparr> initlen) us)
            }))"

definition sdsempty :: "(nat \<Rightarrow> nat) \<Rightarrow> (nat \<Rightarrow> byte) \<Rightarrow> sds option" where
  "sdsempty usable fresh = sdsnewlen_gen usable fresh (InitFrom []) 0"

definition sdsdup :: "(nat \<Rightarrow> nat) \<Rightarrow> (nat \<Rightarrow> byte) \<Rightarrow> sds \<Rightarrow> sds option" where
  "sdsdup usable fresh s = sdsnewlen_gen usable fresh (InitFrom (sds_buf s)) (sdslen s)"

definition sdsclear :: "sds \<Rightarrow> sds option" where
  "sdsclear s = do {
     let s = sdssetlen s 0;
     b \<leftarrow> wr (sds_buf s) 0 0;
     Some (s\<lparr>sds_buf := b\<rparr>)
   }"

section \<open>Growing\<close>

definition sdsMakeRoomFor_gen ::
  "(nat \<Rightarrow> nat) \<Rightarrow> (nat \<Rightarrow> byte) \<Rightarrow> sds \<Rightarrow> nat \<Rightarrow> bool \<Rightarrow> sds option" where
  "sdsMakeRoomFor_gen usable fresh s addlen greedy =
     (if sdsavail s \<ge> addlen then Some s
      else
        (let oldtype = sds_type s;
             len = sdslen s;
             newlen = (len + addlen) mod 2 ^ 64;
             reqlen = newlen
         in if \<not> newlen > len then None
            else
              (let newlen = (if greedy then
                     (if newlen < SDS_MAX_PREALLOC then newlen * 2 else (newlen + SDS_MAX_PREALLOC) mod 2 ^ 64)
                     else newlen);
                   t = sdsReqType newlen;
                   t = (if t = SDS_TYPE_5 then SDS_TYPE_8 else t);
                   hdrlen = sdsHdrSize t
               in if \<not> (hdrlen + newlen + 1) mod 2 ^ 64 > reqlen then None
                  else
                    (let u = usable ((hdrlen + newlen + 1) mod 2 ^ 64) in do {
                       s \<leftarrow> (if oldtype = t then Some (s\<lparr>sds_buf := realloc fresh (sds_buf s) (u - hdrlen)\<rparr>)
                             else do {
                               b \<leftarrow> peek (sds_buf s) 0 (len + 1);
                               mem \<leftarrow> poke (map fresh [0..<u - hdrlen]) 0 b;
                               Some (sdssetlen (s\<lparr>sds_buf := mem, sds_type := t\<rparr>) len)
                             });
                       Some (sdssetalloc s (min (u - hdrlen - 1) (sdsTypeMaxSize t)))
                     }))))"

definition sdsMakeRoomFor :: "(nat \<Rightarrow> nat) \<Rightarrow> (nat \<Rightarrow> byte) \<Rightarrow> sds \<Rightarrow> nat \<Rightarrow> sds option" where
  "sdsMakeRoomFor usable fresh s addlen = sdsMakeRoomFor_gen usable fresh s addlen True"

text \<open>
  \<open>sdsResize\<close>: \<open>already_optimal\<close> is the outcome of the comparison of \<open>je_nallocx\<close> with the size
  of the allocation, false without jemalloc.
\<close>

definition sdsResize ::
  "(nat \<Rightarrow> nat) \<Rightarrow> (nat \<Rightarrow> byte) \<Rightarrow> bool \<Rightarrow> sds \<Rightarrow> nat \<Rightarrow> bool \<Rightarrow> sds option" where
  "sdsResize usable fresh already_optimal s sz would_regrow =
     (let oldtype = sds_type s;
          oldhdrlen = sdsHdrSize oldtype;
          len = sdslen s
      in if sdsalloc s = sz then Some s
         else
           (let len = (if sz < len then sz else len);
                t = sdsReqType sz;
                t = (if would_regrow \<and> t = SDS_TYPE_5 then SDS_TYPE_8 else t);
                hdrlen = sdsHdrSize t;
                use_realloc = (oldtype = t \<or> (t < oldtype \<and> t > SDS_TYPE_8));
                newlen = (if use_realloc then oldhdrlen + sz + 1 else hdrlen + sz + 1)
            in do {
              s \<leftarrow> (if use_realloc \<and> \<not> already_optimal then
                     Some (s\<lparr>sds_buf := realloc fresh (sds_buf s) (newlen - oldhdrlen)\<rparr>)
                   else if \<not> already_optimal then do {
                     b \<leftarrow> peek (sds_buf s) 0 len;
                     mem \<leftarrow> poke (map fresh [0..<newlen - hdrlen]) 0 b;
                     Some (s\<lparr>sds_buf := mem, sds_type := t\<rparr>)
                   }
                   else Some s);
              b \<leftarrow> wr (sds_buf s) (int len) 0;
              Some (sdssetalloc (sdssetlen (s\<lparr>sds_buf := b\<rparr>) len) sz)
            }))"

definition sdsRemoveFreeSpace ::
  "(nat \<Rightarrow> nat) \<Rightarrow> (nat \<Rightarrow> byte) \<Rightarrow> bool \<Rightarrow> sds \<Rightarrow> bool \<Rightarrow> sds option" where
  "sdsRemoveFreeSpace usable fresh already_optimal s would_regrow =
     sdsResize usable fresh already_optimal s (sdslen s) would_regrow"

text \<open>\<open>sdsIncrLen\<close>: its assertions, the new length and the terminator.\<close>

definition sdsIncrLen :: "sds \<Rightarrow> int \<Rightarrow> sds option" where
  "sdsIncrLen s incr =
     (let len = int (sh_len s);
          ok = (if sds_type s = SDS_TYPE_5 then (incr > 0 \<and> len + incr < 32) \<or> (incr < 0 \<and> len \<ge> - incr)
                else (incr \<ge> 0 \<and> int (sh_alloc s) - len \<ge> incr) \<or> (incr < 0 \<and> len \<ge> - incr))
      in if \<not> ok then None
         else do {
           let s = sdssetlen s (nat (len + incr));
           b \<leftarrow> wr (sds_buf s) (int (sh_len s)) 0;
           Some (s\<lparr>sds_buf := b\<rparr>)
         })"

definition sdsgrowzero :: "(nat \<Rightarrow> nat) \<Rightarrow> (nat \<Rightarrow> byte) \<Rightarrow> sds \<Rightarrow> nat \<Rightarrow> sds option" where
  "sdsgrowzero usable fresh s len =
     (let curlen = sdslen s in
      if len \<le> curlen then Some s
      else do {
        s \<leftarrow> sdsMakeRoomFor usable fresh s (len - curlen);
        b \<leftarrow> poke (sds_buf s) (int curlen) (replicate (len - curlen + 1) 0);
        Some (sdssetlen (s\<lparr>sds_buf := b\<rparr>) len)
      })"

definition sdscatlen :: "(nat \<Rightarrow> nat) \<Rightarrow> (nat \<Rightarrow> byte) \<Rightarrow> sds \<Rightarrow> buffer \<Rightarrow> sds option" where
  "sdscatlen usable fresh s t =
     (let curlen = sdslen s in do {
        s \<leftarrow> sdsMakeRoomFor usable fresh s (length t);
        b \<leftarrow> poke (sds_buf s) (int curlen) t;
        let s = sdssetlen (s\<lparr>sds_buf := b\<rparr>) (curlen + length t);
        b \<leftarrow> wr (sds_buf s) (int (curlen + length t)) 0;
        Some (s\<lparr>sds_buf := b\<rparr>)
      })"

definition sdscpylen :: "(nat \<Rightarrow> nat) \<Rightarrow> (nat \<Rightarrow> byte) \<Rightarrow> sds \<Rightarrow> buffer \<Rightarrow> sds option" where
  "sdscpylen usable fresh s t = do {
     s \<leftarrow> (if sdsalloc s < length t then sdsMakeRoomFor usable fresh s (length t - sdslen s) else Some s);
     b \<leftarrow> poke (sds_buf s) 0 t;
     b \<leftarrow> wr b (int (length t)) 0;
     Some (sdssetlen (s\<lparr>sds_buf := b\<rparr>) (length t))
   }"

section \<open>Cutting\<close>

text \<open>\<open>strchr(cset, c)\<close> also finds the terminator of \<open>cset\<close>.\<close>

definition in_cset :: "buffer \<Rightarrow> byte \<Rightarrow> bool" where
  "in_cset cset c \<longleftrightarrow> c \<in> set cset \<or> c = 0"

function trim_left :: "buffer \<Rightarrow> buffer \<Rightarrow> int \<Rightarrow> int \<Rightarrow> int option" where
  "trim_left cset b sp e =
     (if sp \<le> e then do {
        c \<leftarrow> rd b sp;
        if in_cset cset c then trim_left cset b (sp + 1) e else Some sp
      }
      else Some sp)"
  by pat_completeness auto
termination by (relation "measure (\<lambda>(cset, b, sp, e). nat (e - sp + 1))") auto

function trim_right :: "buffer \<Rightarrow> buffer \<Rightarrow> int \<Rightarrow> int \<Rightarrow> int option" where
  "trim_right cset b sp ep =
     (if ep > sp then do {
        c \<leftarrow> rd b ep;
        if in_cset cset c then trim_right cset b sp (ep - 1) else Some ep
      }
      else Some ep)"
  by pat_completeness auto
termination by (relation "measure (\<lambda>(cset, b, sp, ep). nat (ep - sp))") auto

declare trim_left.simps [simp del] trim_right.simps [simp del]

definition sdstrim :: "sds \<Rightarrow> buffer \<Rightarrow> sds option" where
  "sdstrim s cset = do {
     let e = int (sdslen s) - 1;
     sp \<leftarrow> trim_left cset (sds_buf s) 0 e;
     ep \<leftarrow> trim_right cset (sds_buf s) sp e;
     let len = nat (ep - sp + 1);
     b \<leftarrow> (if sp \<noteq> 0 then do { blk \<leftarrow> peek (sds_buf s) sp len; poke (sds_buf s) 0 blk } else Some (sds_buf s));
     b \<leftarrow> wr b (int len) 0;
     Some (sdssetlen (s\<lparr>sds_buf := b\<rparr>) len)
   }"

definition sdssubstr :: "sds \<Rightarrow> nat \<Rightarrow> nat \<Rightarrow> sds option" where
  "sdssubstr s start len =
     (let oldlen = sdslen s;
          (start, len) = (if start \<ge> oldlen then (0, 0) else (start, len));
          len = (if len > oldlen - start then oldlen - start else len)
      in do {
        b \<leftarrow> (if len \<noteq> 0 then do { blk \<leftarrow> peek (sds_buf s) (int start) len; poke (sds_buf s) 0 blk }
             else Some (sds_buf s));
        b \<leftarrow> wr b (int len) 0;
        Some (sdssetlen (s\<lparr>sds_buf := b\<rparr>) len)
      })"

text \<open>The conversions of \<open>start\<close> and of the new length to \<open>size_t\<close> are the reductions modulo \<open>2 ^ 64\<close>.\<close>

definition sdsrange :: "sds \<Rightarrow> int \<Rightarrow> int \<Rightarrow> sds option" where
  "sdsrange s start end =
     (let len = int (sdslen s) in
      if len = 0 then Some s
      else
        (let start = (if start < 0 then len + start else start);
             end = (if end < 0 then len + end else end);
             newlen = (if start > end then 0 else end - start + 1)
         in sdssubstr s (nat (start mod 2 ^ 64)) (nat (newlen mod 2 ^ 64))))"

text \<open>\<open>memcmp\<close>: the sign of the difference of the first bytes that differ.\<close>

fun memcmp :: "buffer \<Rightarrow> buffer \<Rightarrow> int" where
  "memcmp (a # as) (b # bs) = (if a < b then - 1 else if b < a then 1 else memcmp as bs)"
| "memcmp _ _ = 0"

definition sdscmp :: "buffer \<Rightarrow> buffer \<Rightarrow> int" where
  "sdscmp s1 s2 =
     (let l1 = length s1; l2 = length s2; minlen = (if l1 < l2 then l1 else l2);
          cmp = memcmp (take minlen s1) (take minlen s2)
      in if cmp = 0 then (if l1 > l2 then 1 else if l1 < l2 then - 1 else 0) else cmp)"

end
