(* ===== verification/RedisSdsProofs.thy ===== *)
theory RedisSdsProofs
  imports RedisSds
begin

text \<open>
  Correctness of the dynamic strings of \<open>RedisSds\<close>.  The invariant \<open>sds_ok\<close> is the one of
  \<open>sds.h\<close>: the length fits in the allocation, the allocation fits in the length field of
  the header type and in the memory block, and a NUL byte ends the text.  \<open>sds_val\<close> is the byte
  string a string stands for.  Every operation keeps the invariant, never leaves the block and acts
  on the byte string as its specification on lists.
\<close>
section \<open>Invariant\<close>

definition sds_ok :: "sds \<Rightarrow> bool" where
  "sds_ok s \<longleftrightarrow> sds_type s \<le> 4 \<and> sh_len s \<le> sdsalloc s \<and> sdsalloc s \<le> sdsTypeMaxSize (sds_type s) \<and>
     sdsalloc s < length (sds_buf s) \<and> sds_buf s ! sh_len s = 0"

definition sds_val :: "sds \<Rightarrow> buffer" where
  "sds_val s = take (sh_len s) (sds_buf s)"

text \<open>What the strings rely on in the allocator: the usable size covers the request.\<close>

definition usable_ok :: "(nat \<Rightarrow> nat) \<Rightarrow> bool" where
  "usable_ok usable \<longleftrightarrow> (\<forall>n. n \<le> usable n)"

lemma sds_val_length: "sds_ok s \<Longrightarrow> length (sds_val s) = sdslen s"
  by (auto simp: sds_ok_def sds_val_def sdslen_def)

lemma field_fits: "n \<le> sdsTypeMaxSize t \<Longrightarrow> n mod 2 ^ field_bits t = n"
  by (auto simp: sdsTypeMaxSize_def field_bits_def split: if_splits)

lemma req_type_fits: "n < 2 ^ 64 \<Longrightarrow> n \<le> sdsTypeMaxSize (sdsReqType n)"
  by (auto simp: sdsReqType_def sdsTypeMaxSize_def sds_types)

lemma req_type_le: "sdsReqType n \<le> 4" "sdsReqType n = SDS_TYPE_5 \<Longrightarrow> n < 32"
  by (auto simp: sdsReqType_def sds_types split: if_splits)

lemma max_mono: "t \<le> t' \<Longrightarrow> t' \<le> 4 \<Longrightarrow> sdsTypeMaxSize t \<le> sdsTypeMaxSize t'"
  by (auto simp: sdsTypeMaxSize_def sds_types)

lemma max_ge: "31 \<le> sdsTypeMaxSize t" "t \<noteq> SDS_TYPE_5 \<Longrightarrow> 255 \<le> sdsTypeMaxSize t" "sdsTypeMaxSize t < 2 ^ 64"
  by (auto simp: sdsTypeMaxSize_def)

lemma hdr_bounds: "sdsHdrSize t \<le> 17"
  by (simp add: sdsHdrSize_def)

text \<open>A string is determined by what is stored in front of the terminator.\<close>

lemma sds_okI:
  assumes "sds_type s \<le> 4" "sh_len s = n" "n \<le> sdsalloc s" "sdsalloc s \<le> sdsTypeMaxSize (sds_type s)"
    "sdsalloc s < length (sds_buf s)" "take n (sds_buf s) = v" "sds_buf s ! n = 0"
  shows "sds_ok s \<and> sds_val s = v \<and> sdslen s = n"
  using assms by (simp add: sds_ok_def sds_val_def sdslen_def)

section \<open>Creation\<close>

lemma nth_blit0: "length xs \<le> length b \<Longrightarrow> take (length xs) (blit b 0 xs) = xs"
  by (simp add: blit_def)

lemma sdsnewlen_spec:
  assumes u: "usable_ok usable" and n: "length p < 2 ^ 62"
  shows "\<exists>s. sdsnewlen_gen usable fresh (InitFrom p) (length p) = Some s \<and> sds_ok s \<and> sds_val s = p"
proof -
  let ?n = "length p"
  define t where "t = (if sdsReqType ?n = SDS_TYPE_5 \<and> ?n = 0 then SDS_TYPE_8 else sdsReqType ?n)"
  define h where "h = sdsHdrSize t"
  define U where "U = usable (h + ?n + 1)"
  have U: "h + ?n + 1 \<le> U" using u by (simp add: usable_ok_def U_def)
  have h: "h \<le> 17" unfolding h_def by (rule hdr_bounds)
  have t4: "t \<le> 4" using req_type_le(1) [of ?n] by (simp add: t_def SDS_TYPE_8_def)
  have nt: "?n \<le> sdsTypeMaxSize t" using req_type_fits [of ?n] n by (auto simp: t_def)
  define mem where "mem = (if ?n \<noteq> 0 then blit (map fresh [0..<U - h]) 0 p else map fresh [0..<U - h])"
  have len: "length mem = U - h" "?n < U - h" using U by (auto simp: mem_def)
  have tk: "take ?n mem = p" using len(2) by (auto simp: mem_def nth_blit0)
  define a where "a = min (U - h - 1) (sdsTypeMaxSize t)"
  have a: "?n \<le> a" "a \<le> sdsTypeMaxSize t" "a < U - h" using nt len(2) by (auto simp: a_def)
  define s where "s = sdssetalloc (sdssetlen \<lparr>sds_type = t, sh_len = 0, sh_alloc = 0, sds_buf = mem[?n := 0]\<rparr> ?n) a"
  have "sdsnewlen_gen usable fresh (InitFrom p) ?n = Some s"
  proof -
    have "(?n + h + 1) mod 2 ^ 64 = ?n + h + 1" using n h by simp
    moreover have "p \<noteq> [] \<Longrightarrow> peek p 0 ?n \<bind> (\<lambda>b. poke (map fresh [0..<U - h]) 0 b \<bind> f) = f mem"
      "p = [] \<Longrightarrow> mem = map fresh [0..<U - h]" for f :: "buffer \<Rightarrow> sds option"
      using len(2) by (simp_all add: peek_def poke_def mem_def)
    moreover have "wr mem (int ?n) 0 = Some (mem[?n := 0])" using len by (simp add: mem_simps)
    ultimately show ?thesis
      unfolding sdsnewlen_gen_def Let_def t_def [symmetric] h_def [symmetric] U_def [symmetric] a_def [symmetric]
      by (cases "p = []") (simp_all add: s_def del: upt_Suc)
  qed
  moreover have "sds_ok s \<and> sds_val s = p \<and> sdslen s = ?n"
    using t4 nt a len tk
    by (intro sds_okI) (auto simp: s_def sdssetalloc_def sdssetlen_def sdsalloc_def field_fits)
  ultimately show ?thesis by blast
qed

section \<open>Growing\<close>

lemma sdsMakeRoomFor_spec:
  assumes ok: "sds_ok s" and u: "usable_ok usable" and n: "sdslen s + addlen < 2 ^ 62"
  shows "\<exists>s'. sdsMakeRoomFor_gen usable fresh s addlen greedy = Some s' \<and> sds_ok s' \<and> sds_val s' = sds_val s \<and>
    sdslen s' = sdslen s \<and> sdslen s + addlen \<le> sdsalloc s'"
proof (cases "sdsavail s \<ge> addlen")
  case True
  have "sdslen s + addlen \<le> sdsalloc s"
  proof (cases "sds_type s = SDS_TYPE_5")
    case False
    have "sh_len s \<le> sh_alloc s" "sh_alloc s < 2 ^ 64"
      using ok False max_ge(3) [of "sds_type s"] by (auto simp: sds_ok_def sdsalloc_def)
    then have "sdsavail s = sh_alloc s - sh_len s"
      using False by (simp add: sdsavail_def) (metis Nat.add_diff_assoc mod_add_self1 less_imp_diff_less mod_less)
    with True \<open>sh_len s \<le> sh_alloc s\<close> False show ?thesis by (simp add: sdslen_def sdsalloc_def)
  qed (use True in \<open>simp add: sdsavail_def sdslen_def sdsalloc_def\<close>)
  with True ok show ?thesis by (simp add: sdsMakeRoomFor_gen_def)
next
  case False
  define req where "req = sdslen s + addlen"
  define nl where "nl = (if greedy then (if req < SDS_MAX_PREALLOC then req * 2 else (req + SDS_MAX_PREALLOC) mod 2 ^ 64) else req)"
  define t where "t = (if sdsReqType nl = SDS_TYPE_5 then SDS_TYPE_8 else sdsReqType nl)"
  define h where "h = sdsHdrSize t"
  define U where "U = usable (h + nl + 1)"
  have nl: "req \<le> nl" "nl < 2 ^ 63" using n by (auto simp: nl_def req_def SDS_MAX_PREALLOC_def)
  have U: "h + nl + 1 \<le> U" using u by (simp add: usable_ok_def U_def)
  have h: "h \<le> 17" unfolding h_def by (rule hdr_bounds)
  have t: "t \<le> 4" "t \<noteq> SDS_TYPE_5" using req_type_le(1) [of nl] by (simp_all add: t_def sds_types)
  have nt: "nl \<le> sdsTypeMaxSize t"
    using req_type_fits [of nl] nl req_type_le(2) [of nl] max_ge(2) [OF t(2)] by (auto simp: t_def)
  have pos: "0 < addlen" using False by simp
  have lt: "sdslen s < length (sds_buf s)" "sds_buf s ! sdslen s = 0"
    using ok by (auto simp: sds_ok_def sdslen_def)
  define s1 where "s1 = (if sds_type s = t then s\<lparr>sds_buf := realloc fresh (sds_buf s) (U - h)\<rparr>
     else sdssetlen (s\<lparr>sds_buf := blit (map fresh [0..<U - h]) 0 (take (sdslen s + 1) (sds_buf s)), sds_type := t\<rparr>) (sdslen s))"
  define a where "a = min (U - h - 1) (sdsTypeMaxSize t)"
  have run: "sdsMakeRoomFor_gen usable fresh s addlen greedy = Some (sdssetalloc s1 a)"
  proof -
    have m: "(sdslen s + addlen) mod 2 ^ 64 = req" "(h + nl + 1) mod 2 ^ 64 = h + nl + 1"
      using n nl h by (simp_all add: req_def)
    have c: "\<not> addlen \<le> sdsavail s" "sdslen s < req" "req < h + nl + 1" using False pos nl by (auto simp: req_def)
    have p: "peek (sds_buf s) 0 (sdslen s + 1) = Some (take (sdslen s + 1) (sds_buf s))"
      using lt by (simp add: peek_def)
    have q: "poke (map fresh [0..<U - h]) 0 (take (sdslen s + 1) (sds_buf s)) =
       Some (blit (map fresh [0..<U - h]) 0 (take (sdslen s + 1) (sds_buf s)))"
      using lt U nl by (simp add: poke_def req_def)
    show ?thesis
      unfolding sdsMakeRoomFor_gen_def Let_def m(1) nl_def [symmetric] t_def [symmetric] h_def [symmetric] m(2) U_def [symmetric]
        a_def [symmetric] p
      using c q by (simp add: s1_def)
  qed
  have len1: "sh_len s1 = sdslen s"
  proof -
    have "sdslen s \<le> sdsTypeMaxSize t" using nt nl by (simp add: req_def)
    then show ?thesis by (simp add: s1_def sdssetlen_def field_fits sdslen_def)
  qed
  have buf1: "length (sds_buf s1) = U - h" "take (sdslen s + 1) (sds_buf s1) = take (sdslen s + 1) (sds_buf s)" "sds_type s1 = t"
    using lt U nl by (auto simp: s1_def sdssetlen_def realloc_def blit_def req_def)
  have tk: "take (sdslen s) (sds_buf s1) = sds_val s" "sds_buf s1 ! sdslen s = 0"
  proof -
    have "take (sdslen s) (sds_buf s1) = take (sdslen s) (take (sdslen s + 1) (sds_buf s1))" by simp
    then show "take (sdslen s) (sds_buf s1) = sds_val s" unfolding buf1(2) by (simp add: sds_val_def sdslen_def)
    have "sds_buf s1 ! sdslen s = take (sdslen s + 1) (sds_buf s1) ! sdslen s" by simp
    then show "sds_buf s1 ! sdslen s = 0" unfolding buf1(2) using lt by simp
  qed
  have a: "req \<le> a" "a \<le> sdsTypeMaxSize t" "a < U - h" using U nl nt by (auto simp: a_def)
  have al: "sdsalloc (sdssetalloc s1 a) = a" using t(2) buf1(3) a(2) by (simp add: sdsalloc_def sdssetalloc_def field_fits)
  have "sds_ok (sdssetalloc s1 a) \<and> sds_val (sdssetalloc s1 a) = sds_val s \<and> sdslen (sdssetalloc s1 a) = sdslen s"
    using a t(1) buf1 tk len1 al by (intro sds_okI) (auto simp: sdssetalloc_def req_def)
  with run al a(1) show ?thesis by (simp add: req_def)
qed

section \<open>Operations on the text\<close>

text \<open>Storing a text and its terminator into a block that is large enough.\<close>

lemma sds_store:
  assumes "sds_ok s" "n \<le> sdsalloc s" "take n b = v" "length b = length (sds_buf s)" "n = length v"
  shows "wr b (int n) 0 = Some (b[n := 0])"
    and "sds_ok (sdssetlen (s\<lparr>sds_buf := b[n := 0]\<rparr>) n)"
    and "sds_val (sdssetlen (s\<lparr>sds_buf := b[n := 0]\<rparr>) n) = v"
    and "b ! n = 0 \<Longrightarrow> b[n := 0] = b"
proof -
  have l: "n < length b" using assms by (simp add: sds_ok_def)
  then show "wr b (int n) 0 = Some (b[n := 0])" by (simp add: mem_simps)
  have n: "n \<le> sdsTypeMaxSize (sds_type s)" using assms by (simp add: sds_ok_def)
  show "b ! n = 0 \<Longrightarrow> b[n := 0] = b" by (metis list_update_id)
  have a: "n \<le> sdsalloc (sdssetlen (s\<lparr>sds_buf := b[n := 0]\<rparr>) n)"
    "sdsalloc (sdssetlen (s\<lparr>sds_buf := b[n := 0]\<rparr>) n) \<le> sdsTypeMaxSize (sds_type s)"
    "sdsalloc (sdssetlen (s\<lparr>sds_buf := b[n := 0]\<rparr>) n) < length b"
    using assms n l by (auto simp: sds_ok_def sdsalloc_def sdssetlen_def field_fits)
  have "sds_ok (sdssetlen (s\<lparr>sds_buf := b[n := 0]\<rparr>) n) \<and> sds_val (sdssetlen (s\<lparr>sds_buf := b[n := 0]\<rparr>) n) = v \<and>
      sdslen (sdssetlen (s\<lparr>sds_buf := b[n := 0]\<rparr>) n) = n"
    using assms a n l by (intro sds_okI) (auto simp: sds_ok_def sdssetlen_def field_fits)
  then show "sds_ok (sdssetlen (s\<lparr>sds_buf := b[n := 0]\<rparr>) n)"
    and "sds_val (sdssetlen (s\<lparr>sds_buf := b[n := 0]\<rparr>) n) = v" by auto
qed

lemma sds_ok_buf:
  assumes "sds_ok s"
  shows "take (sdslen s) (sds_buf s) = sds_val s" "sdslen s < length (sds_buf s)" "sdslen s \<le> sdsalloc s"
    "sdsalloc s < length (sds_buf s)" "sds_buf s ! sdslen s = 0" "length (sds_val s) = sdslen s"
  using assms by (auto simp: sds_ok_def sds_val_def sdslen_def)

lemma take_blit: "i \<le> length b \<Longrightarrow> take (i + length xs) (blit b i xs) = take i b @ xs"
  by (simp add: blit_def)

lemma sdscatlen_spec:
  assumes ok: "sds_ok s" and u: "usable_ok usable" and n: "sdslen s + length t < 2 ^ 62"
  shows "\<exists>s'. sdscatlen usable fresh s t = Some s' \<and> sds_ok s' \<and> sds_val s' = sds_val s @ t"
proof -
  obtain s1 where s1: "sdsMakeRoomFor usable fresh s (length t) = Some s1" "sds_ok s1" "sds_val s1 = sds_val s"
    "sdslen s1 = sdslen s" "sdslen s + length t \<le> sdsalloc s1"
    using sdsMakeRoomFor_spec [OF ok u n] unfolding sdsMakeRoomFor_def by blast
  note b1 = sds_ok_buf [OF s1(2)]
  define b where "b = blit (sds_buf s1) (sdslen s) t"
  have fit: "sdslen s + length t < length (sds_buf s1)" using s1(5) b1(4) by simp
  have b: "poke (sds_buf s1) (int (sdslen s)) t = Some b" "length b = length (sds_buf s1)"
    "take (sdslen s + length t) b = sds_val s @ t"
    using fit b1(1) s1(3,4) by (simp_all add: poke_def b_def take_blit)
  note st = sds_store [OF s1(2,5) b(3,2)]
  have len: "sdslen s + length t = length (sds_val s @ t)" using b1(6) s1(3,4) by simp
  have "sdscatlen usable fresh s t = Some (sdssetlen (s1\<lparr>sds_buf := b[sdslen s + length t := 0]\<rparr>) (sdslen s + length t))"
    using s1(1) b(1) st(1) [OF len] by (simp add: sdscatlen_def sdssetlen_def Let_def)
  with st(2,3) [OF len] show ?thesis by simp
qed

lemma sdsgrowzero_spec:
  assumes ok: "sds_ok s" and u: "usable_ok usable" and n: "len < 2 ^ 62"
  shows "\<exists>s'. sdsgrowzero usable fresh s len = Some s' \<and> sds_ok s' \<and> sds_val s' = sds_val s @ replicate (len - sdslen s) 0"
proof (cases "len \<le> sdslen s")
  case False
  then have n': "sdslen s + (len - sdslen s) < 2 ^ 62" using n by simp
  obtain s1 where s1: "sdsMakeRoomFor usable fresh s (len - sdslen s) = Some s1" "sds_ok s1" "sds_val s1 = sds_val s"
    "sdslen s1 = sdslen s" "sdslen s + (len - sdslen s) \<le> sdsalloc s1"
    using sdsMakeRoomFor_spec [OF ok u n'] unfolding sdsMakeRoomFor_def by blast
  note b1 = sds_ok_buf [OF s1(2)]
  define b where "b = blit (sds_buf s1) (sdslen s) (replicate (len - sdslen s + 1) 0)"
  have fit: "len < length (sds_buf s1)" "len \<le> sdsalloc s1" using s1(5) b1(4) by auto
  have b: "poke (sds_buf s1) (int (sdslen s)) (replicate (len - sdslen s + 1) 0) = Some b" "length b = length (sds_buf s1)"
    using fit False by (simp_all add: poke_def b_def)
  have tk: "take (len + 1) b = sds_val s @ replicate (len - sdslen s + 1) 0"
    using take_blit [of "sdslen s" "sds_buf s1" "replicate (len - sdslen s + 1) 0"] fit False b1(1) s1(3,4) by (simp add: b_def)
  have v: "take len b = sds_val s @ replicate (len - sdslen s) 0"
    using arg_cong [OF tk, of "take len"] False b1(6) s1(3,4)
    by (simp add: min_def take_replicate del: replicate.simps replicate_Suc)
  have z: "b ! len = 0"
  proof -
    have "b ! len = take (len + 1) b ! len" by simp
    then show ?thesis unfolding tk using False b1(6) s1(3,4) by (simp add: nth_append)
  qed
  have len: "len = length (sds_val s @ replicate (len - sdslen s) 0)" using False b1(6) s1(3,4) by simp
  note st = sds_store [OF s1(2) fit(2) v b(2) len]
  have "sdsgrowzero usable fresh s len = Some (sdssetlen (s1\<lparr>sds_buf := b[len := 0]\<rparr>) len)"
    using s1(1) b(1) False st(4) [OF z] by (simp add: sdsgrowzero_def)
  with st(2,3) show ?thesis by simp
qed (use ok in \<open>simp add: sdsgrowzero_def\<close>)

lemma sdscpylen_spec:
  assumes ok: "sds_ok s" and u: "usable_ok usable" and n: "length t < 2 ^ 62"
  shows "\<exists>s'. sdscpylen usable fresh s t = Some s' \<and> sds_ok s' \<and> sds_val s' = t"
proof -
  obtain s1 where s1: "(if sdsalloc s < length t then sdsMakeRoomFor usable fresh s (length t - sdslen s) else Some s) = Some s1"
    "sds_ok s1" "length t \<le> sdsalloc s1"
  proof (cases "sdsalloc s < length t")
    case True
    then have l: "sdslen s + (length t - sdslen s) = length t" using sds_ok_buf(3) [OF ok] by simp
    show ?thesis
      using sdsMakeRoomFor_spec [OF ok u, of "length t - sdslen s" fresh True] n True that
      unfolding l sdsMakeRoomFor_def by auto
  qed (use ok that in auto)
  note b1 = sds_ok_buf [OF s1(2)]
  define b where "b = blit (sds_buf s1) 0 t"
  have b: "poke (sds_buf s1) 0 t = Some b" "length b = length (sds_buf s1)" "take (length t) b = t"
    using s1(3) b1(4) by (simp_all add: poke_def b_def nth_blit0)
  note st = sds_store [OF s1(2,3) b(3,2) refl]
  have "sdscpylen usable fresh s t = Some (sdssetlen (s1\<lparr>sds_buf := b[length t := 0]\<rparr>) (length t))"
    unfolding sdscpylen_def s1(1) using b(1) st(1) by simp
  with st(2,3) show ?thesis by simp
qed

text \<open>The cutting operations move a block of the text to the front.\<close>

lemma sds_cut:
  assumes ok: "sds_ok s" and n: "i + n \<le> sdslen s"
  shows "\<exists>b. (if i \<noteq> 0 \<or> c then do { blk \<leftarrow> peek (sds_buf s) (int i) n; poke (sds_buf s) 0 blk } else Some (sds_buf s)) = Some b \<and>
     wr b (int n) 0 = Some (b[n := 0]) \<and> sds_ok (sdssetlen (s\<lparr>sds_buf := b[n := 0]\<rparr>) n) \<and>
     sds_val (sdssetlen (s\<lparr>sds_buf := b[n := 0]\<rparr>) n) = take n (drop i (sds_val s))"
proof -
  note o = sds_ok_buf [OF ok]
  define v where "v = take n (drop i (sds_buf s))"
  have v: "v = take n (drop i (sds_val s))" using n by (simp add: v_def sds_val_def sdslen_def drop_take min_def)
  have lv: "length v = n" using n o by (simp add: v_def)
  define b where "b = (if i \<noteq> 0 \<or> c then blit (sds_buf s) 0 v else sds_buf s)"
  have pp: "peek (sds_buf s) (int i) n = Some v" "poke (sds_buf s) 0 v = Some (blit (sds_buf s) 0 v)"
    using n o lv by (simp_all add: peek_def poke_def v_def)
  have b: "take n b = v" "length b = length (sds_buf s)"
    using lv n o nth_blit0 [of v "sds_buf s"] by (auto simp: b_def v_def)
  have "n \<le> sdsalloc s" using n o(3) by simp
  note st = sds_store [OF ok this b lv [symmetric]]
  have "(if i \<noteq> 0 \<or> c then do { blk \<leftarrow> peek (sds_buf s) (int i) n; poke (sds_buf s) 0 blk } else Some (sds_buf s)) = Some b"
    using pp by (simp add: b_def)
  with st(1-3) v show ?thesis by blast
qed

lemma sdssubstr_spec:
  assumes ok: "sds_ok s"
  shows "\<exists>s'. sdssubstr s start len = Some s' \<and> sds_ok s' \<and> sds_val s' = take len (drop start (sds_val s))"
proof -
  note o = sds_ok_buf [OF ok]
  define i where "i = (if start \<ge> sdslen s then 0 else start)"
  define n where "n = (if start \<ge> sdslen s then 0 else min len (sdslen s - start))"
  have n: "i + n \<le> sdslen s" by (auto simp: i_def n_def)
  have v: "take n (drop i (sds_val s)) = take len (drop start (sds_val s))"
    using o(6) by (auto simp: i_def n_def min_def)
  have eq: "sdssubstr s start len = (if n \<noteq> 0 then do { blk \<leftarrow> peek (sds_buf s) (int i) n; poke (sds_buf s) 0 blk }
      else Some (sds_buf s)) \<bind> (\<lambda>b. wr b (int n) 0 \<bind> (\<lambda>b. Some (sdssetlen (s\<lparr>sds_buf := b\<rparr>) n)))"
    by (auto simp: sdssubstr_def i_def n_def min_def Let_def)
  have i0: "n = 0 \<longrightarrow> take n (drop i (sds_val s)) = take n (drop 0 (sds_val s))" by simp
  obtain b where b: "(if n \<noteq> 0 then do { blk \<leftarrow> peek (sds_buf s) (int i) n; poke (sds_buf s) 0 blk }
      else Some (sds_buf s)) = Some b" "wr b (int n) 0 = Some (b[n := 0])"
    "sds_ok (sdssetlen (s\<lparr>sds_buf := b[n := 0]\<rparr>) n)"
    "sds_val (sdssetlen (s\<lparr>sds_buf := b[n := 0]\<rparr>) n) = take n (drop i (sds_val s))"
    using sds_cut [OF ok n, of True] sds_cut [OF ok, of 0 n False] i0 by (cases "n = 0") auto
  show ?thesis unfolding eq b(1) using b(2-4) v by simp
qed

lemma sdsrange_spec:
  assumes ok: "sds_ok s" and r: "- (2 ^ 62) \<le> start" "start < 2 ^ 62" "- (2 ^ 62) \<le> end" "end < 2 ^ 62" and l: "sdslen s < 2 ^ 62"
  shows "\<exists>s'. sdsrange s start end = Some s' \<and> sds_ok s' \<and>
    (let n = int (sdslen s); i = (if start < 0 then n + start else start); j = (if end < 0 then n + end else end)
     in sds_val s' = (if i < 0 \<or> j < i then [] else take (nat (j - i + 1)) (drop (nat i) (sds_val s))))"
proof (cases "sdslen s = 0")
  case True
  then have "sds_val s = []" using sds_ok_buf(6) [OF ok] by simp
  with True ok show ?thesis by (simp add: sdsrange_def Let_def)
next
  case False
  define n where "n = int (sdslen s)"
  define i where "i = (if start < 0 then n + start else start)"
  define j where "j = (if end < 0 then n + end else end)"
  have ij: "- (2 ^ 62) \<le> i" "i < 2 ^ 62" "- (2 ^ 62) \<le> j" "j < 2 ^ 62"
    using r l by (auto simp: i_def j_def n_def)
  define m where "m = (if i > j then 0 else j - i + 1)"
  have m: "nat (m mod 2 ^ 64) = nat m" using ij by (auto simp: m_def)
  obtain s' where s': "sdssubstr s (nat (i mod 2 ^ 64)) (nat m) = Some s'" "sds_ok s'"
    "sds_val s' = take (nat m) (drop (nat (i mod 2 ^ 64)) (sds_val s))"
    using sdssubstr_spec [OF ok] by blast
  have run: "sdsrange s start end = Some s'"
    using False s'(1) unfolding m [symmetric]
    by (simp add: sdsrange_def i_def [symmetric] j_def [symmetric] n_def [symmetric] m_def [symmetric] Let_def)
      (simp add: n_def)
  have "sds_val s' = (if i < 0 \<or> j < i then [] else take (nat (j - i + 1)) (drop (nat i) (sds_val s)))"
  proof (cases "i < 0")
    case True
    have "i mod 2 ^ 64 = (i + 2 ^ 64) mod 2 ^ 64" by simp
    also have "\<dots> = i + 2 ^ 64" using ij True by (intro mod_pos_pos_trivial) auto
    finally have "length (sds_val s) \<le> nat (i mod 2 ^ 64)" using ij l sds_ok_buf(6) [OF ok] by simp
    then show ?thesis using s'(3) True by simp
  next
    case False
    then show ?thesis using s'(3) ij by (simp add: m_def)
  qed
  with run s'(2) show ?thesis by (simp add: i_def j_def n_def Let_def)
qed

text \<open>Trimming.\<close>

lemma trim_left_spec:
  assumes "0 \<le> sp" "e < int (length b)" "sp \<le> e + 1"
  shows "trim_left cset b sp e =
    Some (sp + int (length (takeWhile (in_cset cset) (take (nat (e + 1 - sp)) (drop (nat sp) b)))))"
  using assms
proof (induction cset b sp e rule: trim_left.induct)
  case (1 cset b sp e)
  show ?case
  proof (cases "sp \<le> e")
    case True
    have d: "drop (nat sp) b = b ! nat sp # drop (nat (sp + 1)) b"
      using 1(2,3) True by (simp add: Cons_nth_drop_Suc nat_add_distrib)
    have r: "rd b sp = Some (b ! nat sp)" using 1(2,3) True by (simp add: mem_simps)
    have n: "nat (e + 1 - sp) = Suc (nat (e + 1 - (sp + 1)))" using True by simp
    show ?thesis
      using 1(1) [OF True] 1(2,3) True r by (subst trim_left.simps) (simp add: d n)
  qed (use 1 in \<open>subst trim_left.simps; simp\<close>)
qed

lemma trim_right_spec:
  assumes "0 \<le> sp" "ep < int (length b)" "sp \<le> ep" "\<not> in_cset cset (b ! nat sp)"
  shows "trim_right cset b sp ep =
    Some (ep - int (length (takeWhile (in_cset cset) (rev (take (nat (ep + 1 - sp)) (drop (nat sp) b))))))"
  using assms
proof (induction cset b sp ep rule: trim_right.induct)
  case (1 cset b sp ep)
  have r: "rd b ep = Some (b ! nat ep)" using 1(2-4) by (simp add: mem_simps)
  have n: "nat (ep + 1 - sp) = Suc (nat (ep - sp))" using 1(4) by simp
  have "take (nat (ep + 1 - sp)) (drop (nat sp) b) = take (nat (ep - sp)) (drop (nat sp) b) @ [b ! nat ep]"
    using 1(2-4) unfolding n by (subst take_Suc_conv_app_nth) (auto simp: nat_diff_distrib)
  then have d: "rev (take (nat (ep + 1 - sp)) (drop (nat sp) b)) = b ! nat ep # rev (take (nat (ep - sp)) (drop (nat sp) b))"
    by simp
  show ?case
  proof (cases "ep > sp")
    case True
    then show ?thesis using 1(1) [OF True] 1(2-5) r by (subst trim_right.simps) (simp add: d)
  next
    case False
    then have "ep = sp" using 1(4) by simp
    with d 1(5) have "takeWhile (in_cset cset) (rev (take (nat (ep + 1 - sp)) (drop (nat sp) b))) = []" by simp
    with False show ?thesis by (subst trim_right.simps) simp
  qed
qed

definition trim_both :: "('a \<Rightarrow> bool) \<Rightarrow> 'a list \<Rightarrow> 'a list" where
  "trim_both P xs = rev (dropWhile P (rev (dropWhile P xs)))"

lemma trim_both_take:
  "trim_both P xs = take (length (dropWhile P xs) - length (takeWhile P (rev (dropWhile P xs)))) (drop (length (takeWhile P xs)) xs)"
proof -
  define d where "d = dropWhile P xs"
  have "trim_both P xs = take (length d - length (takeWhile P (rev d))) d"
    by (simp add: trim_both_def d_def [symmetric] dropWhile_eq_drop [of P "rev d"] rev_drop)
  then show ?thesis by (simp add: d_def dropWhile_eq_drop [of P xs])
qed

lemma sdstrim_spec:
  assumes ok: "sds_ok s"
  shows "\<exists>s'. sdstrim s cset = Some s' \<and> sds_ok s' \<and> sds_val s' = trim_both (in_cset cset) (sds_val s)"
proof -
  note o = sds_ok_buf [OF ok]
  let ?P = "in_cset cset" and ?v = "sds_val s"
  define i where "i = length (takeWhile ?P ?v)"
  define d where "d = dropWhile ?P ?v"
  define k where "k = length (takeWhile ?P (rev d))"
  have i: "i \<le> sdslen s" using length_takeWhile_le [of ?P ?v] o(6) by (simp add: i_def)
  have d: "d = drop i ?v" by (simp add: d_def i_def dropWhile_eq_drop)
  have ld: "length d = sdslen s - i" using d o(6) by simp
  have k: "k \<le> length d" using length_takeWhile_le [of ?P "rev d"] by (simp add: k_def)
  have l: "trim_left cset (sds_buf s) 0 (int (sdslen s) - 1) = Some (int i)"
    using trim_left_spec [of 0 "int (sdslen s) - 1" "sds_buf s" cset] o(1,2) by (simp add: i_def)
  have r: "trim_right cset (sds_buf s) (int i) (int (sdslen s) - 1) = Some (int (sdslen s) - 1 - int k)"
  proof (cases "i = sdslen s")
    case True
    then have "k = 0" using ld k by simp
    with True show ?thesis by (subst trim_right.simps) simp
  next
    case False
    then have lt: "i < length ?v" using i o(6) by simp
    have "\<not> ?P (?v ! i)" using nth_length_takeWhile [of ?P ?v] lt by (simp add: i_def)
    then have "\<not> ?P (sds_buf s ! i)" using lt o(6) by (simp add: o(1) [symmetric])
    moreover have "take (sdslen s - i) (drop i (sds_buf s)) = d" by (simp add: d o(1) [symmetric] drop_take)
    moreover have "nat (int (sdslen s) - int i) = sdslen s - i" by simp
    ultimately show ?thesis
      using trim_right_spec [of "int i" "int (sdslen s) - 1" "sds_buf s" cset] lt o(2,6) by (simp add: k_def)
  qed
  define n where "n = length d - k"
  have n: "nat (int (sdslen s) - 1 - int k - int i + 1) = n" "i + n \<le> sdslen s" using i k ld by (auto simp: n_def)
  obtain b where b: "(if i \<noteq> 0 \<or> False then do { blk \<leftarrow> peek (sds_buf s) (int i) n; poke (sds_buf s) 0 blk } else Some (sds_buf s)) = Some b"
     "wr b (int n) 0 = Some (b[n := 0])" "sds_ok (sdssetlen (s\<lparr>sds_buf := b[n := 0]\<rparr>) n)"
     "sds_val (sdssetlen (s\<lparr>sds_buf := b[n := 0]\<rparr>) n) = take n (drop i (sds_val s))"
    using sds_cut [OF ok n(2), of False] by (elim exE conjE) (rule that)
  have b': "(if int i \<noteq> 0 then do { blk \<leftarrow> peek (sds_buf s) (int i) n; poke (sds_buf s) 0 blk } else Some (sds_buf s)) = Some b"
    using b(1) by simp
  have "sdstrim s cset = Some (sdssetlen (s\<lparr>sds_buf := b[n := 0]\<rparr>) n)"
    unfolding sdstrim_def Let_def l bind.bind_lunit r n(1) b' b(2) by (rule refl)
  moreover have "take n (drop i ?v) = trim_both ?P ?v"
    unfolding trim_both_take by (simp add: n_def k_def d_def i_def)
  ultimately show ?thesis using b(3,4) by simp
qed

lemma sds_swap: "s\<lparr>sh_len := n, sds_buf := b\<rparr> = s\<lparr>sds_buf := b, sh_len := n\<rparr>"
  by simp

lemma sdsResize_spec:
  assumes ok: "sds_ok s" and n: "sz < 2 ^ 62"
    and opt: "already_optimal \<Longrightarrow> sz < length (sds_buf s) \<and> sz \<le> sdsTypeMaxSize (sds_type s)"
  shows "\<exists>s'. sdsResize usable fresh already_optimal s sz would_regrow = Some s' \<and> sds_ok s' \<and> sds_val s' = take sz (sds_val s)"
proof (cases "sdsalloc s = sz")
  case True
  then show ?thesis using ok sds_ok_buf [OF ok] by (auto simp: sdsResize_def)
next
  case False
  note o = sds_ok_buf [OF ok]
  define len where "len = (if sz < sdslen s then sz else sdslen s)"
  define t where "t = (if would_regrow \<and> sdsReqType sz = SDS_TYPE_5 then SDS_TYPE_8 else sdsReqType sz)"
  define ur where "ur \<longleftrightarrow> sds_type s = t \<or> (t < sds_type s \<and> t > SDS_TYPE_8)"
  have t: "t \<le> 4" "sz \<le> sdsTypeMaxSize t"
    using req_type_le [of sz] req_type_fits [of sz] n max_ge(2) [of SDS_TYPE_8] by (auto simp: t_def sds_types)
  have ty: "sds_type s \<le> 4" using ok by (simp add: sds_ok_def)
  have len: "len \<le> sz" "len \<le> sdslen s" "len < length (sds_buf s)" using o(2) by (auto simp: len_def)
  have tl: "take len (sds_buf s) = take sz (sds_val s)"
    using o(6) by (auto simp: len_def sds_val_def sdslen_def min_def)
  define s1 where "s1 = (if ur \<and> \<not> already_optimal then s\<lparr>sds_buf := realloc fresh (sds_buf s) (sz + 1)\<rparr>
     else if \<not> already_optimal then s\<lparr>sds_buf := blit (map fresh [0..<sz + 1]) 0 (take len (sds_buf s)), sds_type := t\<rparr>
     else s)"
  have s1: "sds_type s1 \<le> 4" "sz \<le> sdsTypeMaxSize (sds_type s1)" "sz < length (sds_buf s1)"
    using t ty opt len max_mono [of t "sds_type s"] by (auto simp: s1_def ur_def)
  have tk: "take len (sds_buf s1) = take sz (sds_val s)"
  proof -
    have "take len (blit (map fresh [0..<sz + 1]) 0 (take len (sds_buf s))) = take len (sds_buf s)"
      using nth_blit0 [of "take len (sds_buf s)" "map fresh [0..<sz + 1]"] len by simp
    then show ?thesis using len tl by (auto simp: s1_def realloc_def min_def simp del: upt_Suc)
  qed
  have p: "peek (sds_buf s) 0 len = Some (take len (sds_buf s))"
    "poke (map fresh [0..<sz + 1]) 0 (take len (sds_buf s)) = Some (blit (map fresh [0..<sz + 1]) 0 (take len (sds_buf s)))"
    using len by (simp_all add: peek_def poke_def del: upt_Suc)
  have w: "wr (sds_buf s1) (int len) 0 = Some ((sds_buf s1)[len := 0])" using s1(3) len by (simp add: mem_simps)
  define s' where "s' = sdssetalloc (sdssetlen (s1\<lparr>sds_buf := (sds_buf s1)[len := 0]\<rparr>) len) sz"
  have run: "sdsResize usable fresh already_optimal s sz would_regrow = Some s'"
    using False p w s1(3)
    unfolding sdsResize_def Let_def len_def [symmetric] t_def [symmetric] ur_def [symmetric] s'_def
    by (simp add: s1_def split: if_splits del: upt_Suc)
  have "sds_ok s' \<and> sds_val s' = take sz (sds_val s) \<and> sdslen s' = len"
    using s1 tk len by (intro sds_okI) (auto simp: s'_def sdssetalloc_def sdssetlen_def sdsalloc_def field_fits)
  with run show ?thesis by blast
qed

lemma sdsRemoveFreeSpace_spec:
  assumes ok: "sds_ok s" and n: "sdslen s < 2 ^ 62"
  shows "\<exists>s'. sdsRemoveFreeSpace usable fresh already_optimal s would_regrow = Some s' \<and> sds_ok s' \<and> sds_val s' = sds_val s"
proof -
  have "sdslen s < length (sds_buf s) \<and> sdslen s \<le> sdsTypeMaxSize (sds_type s)"
    using ok sds_ok_buf [OF ok] by (auto simp: sds_ok_def)
  then show ?thesis
    using sdsResize_spec [OF ok n, of already_optimal] sds_ok_buf(6) [OF ok]
    unfolding sdsRemoveFreeSpace_def by (metis take_all_iff order_refl)
qed

lemma sdsclear_spec: "sds_ok s \<Longrightarrow> \<exists>s'. sdsclear s = Some s' \<and> sds_ok s' \<and> sds_val s' = []"
  using sds_store [of s 0 "sds_buf s" "[]"] by (simp add: sdsclear_def sdssetlen_def sds_swap)

lemma sdsnewlen_prefix:
  assumes "n \<le> length p"
  shows "sdsnewlen_gen usable fresh (InitFrom p) n = sdsnewlen_gen usable fresh (InitFrom (take n p)) n"
  using assms by (simp add: sdsnewlen_gen_def peek_def Let_def)

lemma sdsdup_spec:
  assumes "sds_ok s" "usable_ok usable" "sdslen s < 2 ^ 62"
  shows "\<exists>s'. sdsdup usable fresh s = Some s' \<and> sds_ok s' \<and> sds_val s' = sds_val s"
  using sdsnewlen_spec [OF assms(2), of "sds_val s"] sds_ok_buf [OF assms(1)] assms(3)
    sdsnewlen_prefix [of "sdslen s" "sds_buf s" usable fresh]
  by (simp add: sdsdup_def)

lemma sdsIncrLen_spec:
  assumes ok: "sds_ok s" and neg: "- int (sdslen s) \<le> incr" "incr < 0"
  shows "\<exists>s'. sdsIncrLen s incr = Some s' \<and> sds_ok s' \<and> sds_val s' = take (nat (int (sdslen s) + incr)) (sds_val s)"
proof -
  define n where "n = nat (int (sdslen s) + incr)"
  note o = sds_ok_buf [OF ok]
  have n: "n \<le> sdslen s" using neg by (simp add: n_def)
  have v: "take n (sds_buf s) = take n (sds_val s)" using n o(1) by (metis min.absorb1 take_take)
  have a: "n \<le> sdsalloc s" using n o(3) by simp
  have l: "n = length (take n (sds_val s))" using n o(6) by simp
  note st = sds_store [OF ok a v refl l]
  have m: "n mod 2 ^ field_bits (sds_type s) = n" using a ok by (intro field_fits) (simp add: sds_ok_def)
  have "sdsIncrLen s incr = Some (sdssetlen (s\<lparr>sds_buf := (sds_buf s)[n := 0]\<rparr>) n)"
    using neg st(1) m by (simp add: sdsIncrLen_def sdssetlen_def sdslen_def n_def Let_def)
  with st(2,3) show ?thesis by (simp add: n_def)
qed

section \<open>Comparison\<close>

lemma memcmp_eq0: "length a = length b \<Longrightarrow> memcmp a b = 0 \<longleftrightarrow> a = b"
  by (induction a b rule: memcmp.induct) auto

lemma sdscmp_Cons: "sdscmp (x # xs) (y # ys) = (if x < y then - 1 else if y < x then 1 else sdscmp xs ys)"
  by (auto simp: sdscmp_def Let_def)

lemma sdscmp_Nil: "sdscmp [] [] = 0" "sdscmp (x # xs) [] = 1" "sdscmp [] (y # ys) = - 1"
  by (simp_all add: sdscmp_def Let_def)

lemma sdscmp_all:
  "(sdscmp xs ys < 0 \<longleftrightarrow> (xs, ys) \<in> lexord {(a, b). a < b}) \<and> (sdscmp xs ys = 0 \<longleftrightarrow> xs = ys) \<and>
   sdscmp ys xs = - sdscmp xs ys"
proof (induction xs arbitrary: ys)
  case Nil
  show ?case by (cases ys) (simp_all add: sdscmp_Nil)
next
  case IH: (Cons x xs)
  show ?case
  proof (cases ys)
    case (Cons y ys')
    note ih = IH [of ys']
    show ?thesis
      unfolding Cons sdscmp_Cons lexord_cons_cons using ih by (cases x y rule: linorder_cases) (simp_all add: less_not_sym less_imp_neq less_imp_neq [symmetric])
  qed (simp add: sdscmp_Nil)
qed

lemma sdscmp_lex:
  "sdscmp xs ys < 0 \<longleftrightarrow> (xs, ys) \<in> lexord {(a, b). a < b}"
  "sdscmp xs ys = 0 \<longleftrightarrow> xs = ys"
  "sdscmp ys xs = - sdscmp xs ys"
  using sdscmp_all [of xs ys] by auto

section \<open>Sequences of operations\<close>

text \<open>The operations of the API on one string, with what each leaves open to the environment: the greediness
  of \<open>sdsMakeRoomFor\<close>, whether the allocator finds the block already optimal.\<close>

datatype sds_op = SdsCat buffer | SdsCpy buffer | SdsGrow nat | SdsTrim buffer | SdsRange int int
  | SdsClear | SdsDup | SdsRoom nat bool | SdsResize nat bool bool | SdsShrink bool bool

fun sds_step :: "(nat \<Rightarrow> nat) \<Rightarrow> (nat \<Rightarrow> byte) \<Rightarrow> sds \<Rightarrow> sds_op \<Rightarrow> sds option" where
  "sds_step usable fresh s (SdsCat t) = sdscatlen usable fresh s t"
| "sds_step usable fresh s (SdsCpy t) = sdscpylen usable fresh s t"
| "sds_step usable fresh s (SdsGrow n) = sdsgrowzero usable fresh s n"
| "sds_step usable fresh s (SdsTrim cset) = sdstrim s cset"
| "sds_step usable fresh s (SdsRange i j) = sdsrange s i j"
| "sds_step usable fresh s SdsClear = sdsclear s"
| "sds_step usable fresh s SdsDup = sdsdup usable fresh s"
| "sds_step usable fresh s (SdsRoom n greedy) = sdsMakeRoomFor_gen usable fresh s n greedy"
| "sds_step usable fresh s (SdsResize n regrow optimal) = sdsResize usable fresh optimal s n regrow"
| "sds_step usable fresh s (SdsShrink optimal regrow) = sdsRemoveFreeSpace usable fresh optimal s regrow"

fun sds_run :: "(nat \<Rightarrow> nat) \<Rightarrow> (nat \<Rightarrow> byte) \<Rightarrow> sds \<Rightarrow> sds_op list \<Rightarrow> sds option" where
  "sds_run usable fresh s [] = Some s"
| "sds_run usable fresh s (x # xs) = do { s \<leftarrow> sds_step usable fresh s x; sds_run usable fresh s xs }"

text \<open>
  The condition on the allocator: when it reports the block of a string as already optimal for a resize, so
  that \<open>sdsResize\<close> keeps the block and its header, the block has room for the new capacity behind that header and
  the fields of the header can hold it. \<open>sdsResize\<close> does not check this.
\<close>

fun resize_safe :: "sds \<Rightarrow> sds_op \<Rightarrow> bool" where
  "resize_safe s (SdsResize n regrow optimal) \<longleftrightarrow>
     (optimal \<longrightarrow> n < length (sds_buf s) \<and> n \<le> sdsTypeMaxSize (sds_type s))"
| "resize_safe s _ \<longleftrightarrow> True"

fun resizes_safe :: "(nat \<Rightarrow> nat) \<Rightarrow> (nat \<Rightarrow> byte) \<Rightarrow> sds \<Rightarrow> sds_op list \<Rightarrow> bool" where
  "resizes_safe usable fresh s [] \<longleftrightarrow> True"
| "resizes_safe usable fresh s (x # xs) \<longleftrightarrow> resize_safe s x \<and>
     (case sds_step usable fresh s x of None \<Rightarrow> True | Some s' \<Rightarrow> resizes_safe usable fresh s' xs)"

text \<open>What the operations mean for the byte string.  A negative start further than the length from the end is
  not clamped: the result is empty.\<close>

definition range_bytes :: "buffer \<Rightarrow> int \<Rightarrow> int \<Rightarrow> buffer" where
  "range_bytes v start end =
     (let n = int (length v); i = (if start < 0 then n + start else start); j = (if end < 0 then n + end else end)
      in if i < 0 \<or> j < i then [] else take (nat (j - i + 1)) (drop (nat i) v))"

fun bytes_step :: "buffer \<Rightarrow> sds_op \<Rightarrow> buffer" where
  "bytes_step v (SdsCat t) = v @ t"
| "bytes_step v (SdsCpy t) = t"
| "bytes_step v (SdsGrow n) = v @ replicate (n - length v) 0"
| "bytes_step v (SdsTrim cset) = trim_both (in_cset cset) v"
| "bytes_step v (SdsRange i j) = range_bytes v i j"
| "bytes_step v SdsClear = []"
| "bytes_step v (SdsResize n regrow optimal) = take n v"
| "bytes_step v _ = v"

text \<open>How many bytes an operation may ask for, and the ranges of its arguments.\<close>

fun sds_need :: "sds_op \<Rightarrow> nat" where
  "sds_need (SdsCat t) = length t"
| "sds_need (SdsCpy t) = length t"
| "sds_need (SdsGrow n) = n"
| "sds_need (SdsRoom n greedy) = n"
| "sds_need (SdsResize n regrow optimal) = n"
| "sds_need (SdsRange i j) = nat \<bar>i\<bar> + nat \<bar>j\<bar>"
| "sds_need _ = 0"

lemma trim_both_length: "length (trim_both P xs) \<le> length xs"
  unfolding trim_both_def by (metis length_rev length_dropWhile_le order_trans)

lemma range_bytes_length: "length (range_bytes v i j) \<le> length v"
  by (auto simp: range_bytes_def Let_def min_le_iff_disj)

lemma bytes_step_length: "length (bytes_step v x) \<le> length v + sds_need x"
  using trim_both_length range_bytes_length by (cases x) (auto simp: trans_le_add1)

lemma sds_step_refines:
  assumes ok: "sds_ok s" and u: "usable_ok usable" and n: "length (sds_val s) + sds_need x < 2 ^ 62" and safe: "resize_safe s x"
  shows "\<exists>s'. sds_step usable fresh s x = Some s' \<and> sds_ok s' \<and> sds_val s' = bytes_step (sds_val s) x"
proof -
  have l: "length (sds_val s) = sdslen s" using sds_ok_buf(6) [OF ok] .
  have n': "sdslen s < 2 ^ 62" "sds_need x < 2 ^ 62" using n l by auto
  show ?thesis
  proof (cases x)
    case (SdsRange i j)
    have "- (2 ^ 62) \<le> i" "i < 2 ^ 62" "- (2 ^ 62) \<le> j" "j < 2 ^ 62" using n SdsRange by auto
    from sdsrange_spec [OF ok this n'(1)] show ?thesis using SdsRange l by (simp add: range_bytes_def Let_def)
  next
    case (SdsRoom m g)
    then show ?thesis using sdsMakeRoomFor_spec [OF ok u, of m fresh g] n l by auto
  next
    case (SdsGrow m)
    then show ?thesis using sdsgrowzero_spec [OF ok u, of m fresh] n' l by simp
  next
    case (SdsCat t)
    then show ?thesis using sdscatlen_spec [OF ok u, of t fresh] n l by simp
  next
    case (SdsCpy t)
    then show ?thesis using sdscpylen_spec [OF ok u, of t fresh] n' by simp
  next
    case (SdsResize m g b)
    then show ?thesis using sdsResize_spec [OF ok, of m b usable fresh g] n' safe by simp
  next
    case (SdsTrim cset)
    then show ?thesis using sdstrim_spec [OF ok, of cset] by simp
  next
    case SdsClear
    then show ?thesis using sdsclear_spec [OF ok] by simp
  next
    case SdsDup
    then show ?thesis using sdsdup_spec [OF ok u n'(1), of fresh] by simp
  next
    case (SdsShrink b r)
    then show ?thesis using sdsRemoveFreeSpace_spec [OF ok n'(1), of usable fresh b r] by simp
  qed
qed

lemma sds_run_refines:
  assumes "sds_ok s" "usable_ok usable" "length (sds_val s) + sum_list (map sds_need xs) < 2 ^ 62"
    "resizes_safe usable fresh s xs"
  shows "\<exists>s'. sds_run usable fresh s xs = Some s' \<and> sds_ok s' \<and> sds_val s' = foldl bytes_step (sds_val s) xs"
  using assms
proof (induction xs arbitrary: s)
  case (Cons x xs)
  have "length (sds_val s) + sds_need x < 2 ^ 62" using Cons.prems(3) by simp
  then obtain s1 where s1: "sds_step usable fresh s x = Some s1" "sds_ok s1" "sds_val s1 = bytes_step (sds_val s) x"
    using sds_step_refines [OF Cons.prems(1,2)] Cons.prems(4) by auto
  have "length (sds_val s1) + sum_list (map sds_need xs) < 2 ^ 62"
    using Cons.prems(3) bytes_step_length [of "sds_val s" x] s1(3) by simp
  from Cons.IH [OF s1(2) Cons.prems(2) this] Cons.prems(4) s1 show ?case by simp
qed simp

text \<open>
  C11: A dynamic string created from a byte string and put through any sequence of appends, copies, zero
  fills, trims, ranges, duplications, reservations and resizes never leaves its memory block, keeps
  the header invariant (length, capacity, terminator and header type agree) and holds
  exactly the bytes the operations describe, whatever the allocator hands out beyond the request. The sizes asked
  for stay below \<open>2 ^ 62\<close>, and a resize that keeps its block because the allocator calls it optimal asks for
  a capacity for which the block has room behind the header it has, and which the fields of this header can hold.
\<close>

theorem sds_refines_bytes:
  assumes "usable_ok usable" and "length p + sum_list (map sds_need xs) < 2 ^ 62"
    and "\<And>s. sdsnewlen_gen usable fresh (InitFrom p) (length p) = Some s \<Longrightarrow> resizes_safe usable fresh s xs"
  shows "\<exists>s. (sdsnewlen_gen usable fresh (InitFrom p) (length p) \<bind> (\<lambda>s. sds_run usable fresh s xs)) = Some s \<and>
    sds_ok s \<and> sds_val s = foldl bytes_step p xs"
proof -
  obtain s0 where s0: "sdsnewlen_gen usable fresh (InitFrom p) (length p) = Some s0" "sds_ok s0" "sds_val s0 = p"
    using sdsnewlen_spec [OF assms(1), of p fresh] assms(2) by auto
  with sds_run_refines [OF s0(2) assms(1), of xs fresh] assms(2,3) show ?thesis by simp
qed

text \<open>
  An allocator with some room to spare; the run goes from a 5-bit header to an 8-bit one, and its resize finds the
  block optimal.
\<close>

theorem sds_refines_bytes_witness:
  "\<exists>s. (sdsnewlen_gen (\<lambda>n. n + 15) (\<lambda>_. 7) (InitFrom [1, 2, 3]) 3 \<bind>
     (\<lambda>s. sds_run (\<lambda>n. n + 15) (\<lambda>_. 7) s
        [SdsResize 9 False True, SdsCat [4, 1], SdsGrow 6, SdsTrim [1], SdsRange (- 3) 1])) = Some s \<and>
     sds_ok s \<and> sds_val s = [2, 3]"
proof -
  let ?xs = "[SdsResize 9 False True, SdsCat [4, 1], SdsGrow 6, SdsTrim [1], SdsRange (- 3) 1]"
  have v: "foldl bytes_step [1, 2, 3] ?xs = [2, 3]"
    by (simp add: trim_both_def in_cset_def range_bytes_def)
  have u: "usable_ok (\<lambda>n. n + 15)" by (simp add: usable_ok_def)
  have l: "length [1, 2, 3 :: byte] = 3" by simp
  have n: "3 + sum_list (map sds_need ?xs) < 2 ^ 62" by simp
  have "resize_safe s (SdsResize 9 False True)"
    if "sdsnewlen_gen (\<lambda>n. n + 15) (\<lambda>_. 7) (InitFrom [1, 2, 3]) 3 = Some s" for s
    using that by (auto simp: sdsnewlen_gen_def Let_def sdsReqType_def sds_types sdsHdrSize_def sdsTypeMaxSize_def
        mem_simps poke_def peek_def bind_eq_Some_conv sdssetalloc_def sdssetlen_def split: if_splits)
  then have safe: "resizes_safe (\<lambda>n. n + 15) (\<lambda>_. 7) s ?xs"
    if "sdsnewlen_gen (\<lambda>n. n + 15) (\<lambda>_. 7) (InitFrom [1, 2, 3]) 3 = Some s" for s
    using that by (simp split: option.split del: sds_step.simps resize_safe.simps(1))
  show ?thesis
    by (rule sds_refines_bytes [OF u, of "[1, 2, 3]" ?xs "\<lambda>_. 7", unfolded l v, OF n]) (rule safe)
qed

text \<open>
  C12: Comparing two strings is the lexicographic order of their bytes read as unsigned numbers, a shorter
  prefix first: negative exactly for smaller strings, zero exactly for equal ones, antisymmetric.
\<close>

theorem sdscmp_lexicographic:
  "(sdscmp xs ys < 0 \<longleftrightarrow> (xs, ys) \<in> lexord {(a, b). a < b}) \<and> (sdscmp xs ys = 0 \<longleftrightarrow> xs = ys) \<and>
   sgn (sdscmp ys xs) = - sgn (sdscmp xs ys)"
  using sdscmp_lex [of xs ys] by simp

text \<open>
  C13: When the allocator already has a block of the right size class, \<open>sdsResize\<close> keeps the old header. Growing a
  full string with an 8-bit header (capacity 255 in a 320-byte block) to 300 bytes then stores the
  capacity modulo 256: it becomes 44, smaller than the length.
\<close>

theorem sdsResize_stale_header:
  assumes "sds_ok s" "sds_type s = SDS_TYPE_8" "sdslen s = 255" "sdsalloc s = 255"
  shows "\<exists>s'. sdsResize usable fresh True s 300 would_regrow = Some s' \<and> sdslen s' = 255 \<and> sdsalloc s' = 44 \<and> \<not> sds_ok s'"
proof -
  have "255 < length (sds_buf s)" using assms sds_ok_buf(2) [OF assms(1)] by simp
  then have w: "wr (sds_buf s) (int 255) 0 = Some ((sds_buf s)[255 := 0])" by (simp add: mem_simps)
  define s' where "s' = sdssetalloc (sdssetlen (s\<lparr>sds_buf := (sds_buf s)[255 := 0]\<rparr>) 255) 300"
  have "sdsResize usable fresh True s 300 would_regrow = Some s'"
    using assms(3,4) w by (simp add: sdsResize_def Let_def s'_def)
  moreover have "field_bits (sds_type s) = 8" "sds_type s \<noteq> SDS_TYPE_5"
    using assms(2) by (simp_all add: field_bits_def sds_types)
  then have "sdslen s' = 255" "sdsalloc s' = 44"
    by (simp_all add: s'_def sdssetalloc_def sdssetlen_def sdslen_def sdsalloc_def)
  moreover from this have "\<not> sds_ok s'" using sds_ok_buf(3) [of s'] by auto
  ultimately show ?thesis by blast
qed

lemma full8:
  defines "s \<equiv> \<lparr>sds_type = 1, sh_len = 255, sh_alloc = 255, sds_buf = replicate 317 0\<rparr>"
  shows "sds_ok s" "sds_type s = SDS_TYPE_8" "sdslen s = 255" "sdsalloc s = 255"
  unfolding s_def sds_ok_def sdsalloc_def sdslen_def sds.simps
  by (intro conjI; simp add: sdsTypeMaxSize_def sds_types) (simp_all add: sds_types)

theorem sdsResize_stale_header_witness:
  "\<exists>s'. sdsResize (\<lambda>n. n) (\<lambda>_. 0) True \<lparr>sds_type = 1, sh_len = 255, sh_alloc = 255, sds_buf = replicate 317 0\<rparr> 300 True = Some s' \<and>
     sdslen s' = 255 \<and> sdsalloc s' = 44 \<and> \<not> sds_ok s'"
  by (rule sdsResize_stale_header [OF full8])

end
