(* ===== verification/RedisSdsText.thy ===== *)
theory RedisSdsText
  imports RedisUtil RedisSdsProofs
begin

text \<open>
  The text functions of \<open>sds.c\<close>: printing integers (\<open>sdsll2str\<close>, \<open>sdsull2str\<close>), splitting
  and joining (\<open>sdssplitlen\<close>, \<open>sdsjoinsds\<close>), and the quoted form of arguments
  (\<open>sdscatrepr\<close>, \<open>sdsneedsrepr\<close>, \<open>sdssplitargs\<close>). The strings these functions build only grow by
  \<open>sdscatlen\<close>, whose effect is the append of \<open>RedisSdsProofs\<close>, so they appear here as byte strings.
  A C string that is scanned up to its terminator is the list of its bytes with the terminator; scanning past
  the end of the list is \<open>None\<close>. Character classification is that of the C locale.
\<close>

section \<open>Printing integers\<close>

definition SDS_LLSTR_SIZE :: nat where "SDS_LLSTR_SIZE = 21"

text \<open>The \<open>do\<close> loop that stores the digits from the least significant one on, at \<open>p\<close>.\<close>

function put_digits :: "buffer \<Rightarrow> nat \<Rightarrow> nat \<Rightarrow> (buffer \<times> nat) option" where
  "put_digits s p v = do {
     s \<leftarrow> wr s (int p) (48 + of_nat (v mod 10));
     if v div 10 \<noteq> 0 then put_digits s (p + 1) (v div 10) else Some (s, p + 1)
   }"
  by pat_completeness auto
termination by (relation "measure (\<lambda>(s, p, v). v)") auto

text \<open>The loop that reverses the bytes from \<open>i\<close> to \<open>p\<close> by swapping.\<close>

function swap_ends :: "buffer \<Rightarrow> int \<Rightarrow> int \<Rightarrow> buffer option" where
  "swap_ends s i p =
     (if i < p then do {
        a \<leftarrow> rd s i;
        b \<leftarrow> rd s p;
        s \<leftarrow> wr s i b;
        s \<leftarrow> wr s p a;
        swap_ends s (i + 1) (p - 1)
      }
      else Some s)"
  by pat_completeness auto
termination by (relation "measure (\<lambda>(s, i, p). nat (p - i))") auto

declare put_digits.simps [simp del] swap_ends.simps [simp del]

definition sdsll2str :: "buffer \<Rightarrow> int \<Rightarrow> (buffer \<times> nat) option" where
  "sdsll2str s value = do {
     let v = (if value < 0 then (if value \<noteq> LLONG_MIN then nat (- value) else nat LLONG_MAX + 1) else nat value);
     (s, p) \<leftarrow> put_digits s 0 v;
     (s, p) \<leftarrow> (if value < 0 then do { s \<leftarrow> wr s (int p) 45; Some (s, p + 1) } else Some (s, p));
     s \<leftarrow> wr s (int p) 0;
     s \<leftarrow> swap_ends s 0 (int p - 1);
     Some (s, p)
   }"

definition sdsull2str :: "buffer \<Rightarrow> nat \<Rightarrow> (buffer \<times> nat) option" where
  "sdsull2str s v = do {
     (s, p) \<leftarrow> put_digits s 0 v;
     s \<leftarrow> wr s (int p) 0;
     s \<leftarrow> swap_ends s 0 (int p - 1);
     Some (s, p)
   }"

definition sdsfromlonglong :: "(nat \<Rightarrow> nat) \<Rightarrow> (nat \<Rightarrow> byte) \<Rightarrow> buffer \<Rightarrow> int \<Rightarrow> sds option" where
  "sdsfromlonglong usable fresh stack value = do {
     (b, len) \<leftarrow> sdsll2str (realloc fresh stack SDS_LLSTR_SIZE) value;
     sdsnewlen_gen usable fresh (InitFrom b) len
   }"

section \<open>Splitting and joining\<close>





fun join_loop :: "buffer \<Rightarrow> buffer \<Rightarrow> buffer list \<Rightarrow> buffer" where
  "join_loop join sep [] = join"
| "join_loop join sep (a # as) = join_loop ((join @ a) @ (if as \<noteq> [] then sep else [])) sep as"

definition sdsjoinsds :: "buffer list \<Rightarrow> buffer \<Rightarrow> buffer" where
  "sdsjoinsds argv sep = join_loop [] sep argv"

section \<open>Quoted arguments\<close>

definition isprint :: "byte \<Rightarrow> bool" where "isprint c \<longleftrightarrow> 32 \<le> c \<and> c \<le> 126"
definition isspace :: "byte \<Rightarrow> bool" where "isspace c \<longleftrightarrow> c = 32 \<or> (9 \<le> c \<and> c \<le> 13)"

text \<open>One digit of \<open>%02x\<close>.\<close>

definition hex_char :: "byte \<Rightarrow> byte" where
  "hex_char d = (if d < 10 then 48 + d else 87 + d)"

definition repr_byte :: "byte \<Rightarrow> buffer" where
  "repr_byte c =
     (if c = 92 \<or> c = 34 then [92, c]
      else if c = 10 then [92, 110]
      else if c = 13 then [92, 114]
      else if c = 9 then [92, 116]
      else if c = 7 then [92, 97]
      else if c = 8 then [92, 98]
      else if isprint c then [c]
      else [92, 120, hex_char (c div 16), hex_char (c mod 16)])"

fun repr_loop :: "buffer \<Rightarrow> buffer \<Rightarrow> buffer" where
  "repr_loop s [] = s"
| "repr_loop s (c # p) = repr_loop (s @ repr_byte c) p"

definition sdscatrepr :: "buffer \<Rightarrow> buffer \<Rightarrow> buffer" where
  "sdscatrepr s p = repr_loop (s @ [34]) p @ [34]"

fun sdsneedsrepr :: "buffer \<Rightarrow> bool" where
  "sdsneedsrepr [] = False"
| "sdsneedsrepr (c # p) =
     (if c = 92 \<or> c = 34 \<or> c = 10 \<or> c = 13 \<or> c = 9 \<or> c = 7 \<or> c = 8 \<or> \<not> isprint c \<or> isspace c then True
      else sdsneedsrepr p)"

definition is_hex_digit :: "byte \<Rightarrow> bool" where
  "is_hex_digit c \<longleftrightarrow> (c \<ge> 48 \<and> c \<le> 57) \<or> (c \<ge> 97 \<and> c \<le> 102) \<or> (c \<ge> 65 \<and> c \<le> 70)"

definition hex_digit_to_int :: "byte \<Rightarrow> byte" where
  "hex_digit_to_int c =
     (if 48 \<le> c \<and> c \<le> 57 then c - 48
      else if 97 \<le> c \<and> c \<le> 102 then c - 87
      else if 65 \<le> c \<and> c \<le> 70 then c - 55
      else 0)"

text \<open>\<open>*(p+1) == 'x' && is_hex_digit(*(p+2)) && is_hex_digit(*(p+3))\<close>, reading no further than needed.\<close>

fun hex_escape :: "buffer \<Rightarrow> bool option" where
  "hex_escape (x # q) =
     (if x \<noteq> 120 then Some False
      else (case q of
              [] \<Rightarrow> None
            | a # q \<Rightarrow> if \<not> is_hex_digit a then Some False
                      else (case q of [] \<Rightarrow> None | b # _ \<Rightarrow> Some (is_hex_digit b))))"
| "hex_escape [] = None"

definition unescape :: "byte \<Rightarrow> byte" where
  "unescape c =
     (if c = 110 then 10 else if c = 114 then 13 else if c = 116 then 9 else if c = 98 then 8
      else if c = 97 then 7 else c)"

datatype quote = Unquoted | InQuotes | InSingleQuotes

text \<open>
  The loop of \<open>sdssplitargs\<close> that collects one token: the quoting state, the token so far and what is left of the
  line. The result is \<open>Inl ()\<close> at \<open>goto err\<close>, and otherwise the token and the rest of the line.
\<close>

function token_loop :: "quote \<Rightarrow> buffer \<Rightarrow> buffer \<Rightarrow> (unit + buffer \<times> buffer) option" where
  "token_loop m current [] = None"
| "token_loop InQuotes current (c # p) =
     (if c = 92 then do {
        h \<leftarrow> hex_escape p;
        if h then token_loop InQuotes (current @ [hex_digit_to_int (p ! 1) * 16 + hex_digit_to_int (p ! 2)]) (drop 3 p)
        else if hd p \<noteq> 0 then token_loop InQuotes (current @ [unescape (hd p)]) (drop 1 p)
        else token_loop InQuotes (current @ [c]) p
      }
      else if c = 34 then do {
        d \<leftarrow> rd p 0;
        Some (if d \<noteq> 0 \<and> \<not> isspace d then Inl () else Inr (current, p))
      }
      else if c = 0 then Some (Inl ())
      else token_loop InQuotes (current @ [c]) p)"
| "token_loop InSingleQuotes current (c # p) =
     (if c = 92 then do {
        d \<leftarrow> rd p 0;
        if d = 39 then token_loop InSingleQuotes (current @ [39]) (drop 1 p)
        else token_loop InSingleQuotes (current @ [c]) p
      }
      else if c = 39 then do {
        d \<leftarrow> rd p 0;
        Some (if d \<noteq> 0 \<and> \<not> isspace d then Inl () else Inr (current, p))
      }
      else if c = 0 then Some (Inl ())
      else token_loop InSingleQuotes (current @ [c]) p)"
| "token_loop Unquoted current (c # p) =
     (if c = 32 \<or> c = 10 \<or> c = 13 \<or> c = 9 then Some (Inr (current, p))
      else if c = 0 then Some (Inr (current, c # p))
      else if c = 34 then token_loop InQuotes current p
      else if c = 39 then token_loop InSingleQuotes current p
      else token_loop Unquoted (current @ [c]) p)"
  by pat_completeness auto
termination by (relation "measure (\<lambda>(m, current, p). length p)") auto

fun skip_blanks :: "buffer \<Rightarrow> buffer option" where
  "skip_blanks [] = None"
| "skip_blanks (c # p) = (if c \<noteq> 0 \<and> isspace c then skip_blanks p else Some (c # p))"

lemma token_loop_length:
  "token_loop m current p = Some (Inr (t, q)) \<Longrightarrow> length q \<le> length p"
proof (induction m current p rule: token_loop.induct)
  case (2 current c p)
  show ?case
    using 2(1) [of True] 2(2,3) [of False] 2(4,5) by (auto simp: bind_eq_Some_conv split: if_splits)
next
  case (3 current c p)
  then show ?case by (auto simp: bind_eq_Some_conv split: if_splits)
next
  case (4 current c p)
  then show ?case by (auto split: if_splits)
qed simp

lemma token_loop_progress:
  "token_loop Unquoted current (c # p) = Some (Inr (t, q)) \<Longrightarrow> c \<noteq> 0 \<Longrightarrow> length q \<le> length p"
  by (auto dest: token_loop_length split: if_splits)

lemma skip_blanks_length: "skip_blanks p = Some q \<Longrightarrow> length q \<le> length p"
  by (induction p rule: skip_blanks.induct) (auto split: if_splits)

text \<open>The outer loop. The inner \<open>None\<close> is the null pointer returned on unbalanced quotes.\<close>

function splitargs_loop :: "buffer \<Rightarrow> buffer list \<Rightarrow> buffer list option option" where
  "splitargs_loop p vector = do {
     p \<leftarrow> skip_blanks p;
     if hd p \<noteq> 0 then do {
       r \<leftarrow> token_loop Unquoted [] p;
       case r of
         Inl _ \<Rightarrow> Some None
       | Inr (current, p) \<Rightarrow> splitargs_loop p (vector @ [current])
     }
     else Some (Some vector)
   }"
  by pat_completeness auto
termination
proof (relation "measure (\<lambda>(p, vector). length p)")
  fix p :: buffer and vector q r t x y
  assume q: "skip_blanks p = Some q" "hd q \<noteq> 0" "token_loop Unquoted [] q = Some r" "r = Inr t" "(x, y) = t"
  then obtain c q' where c: "q = c # q'" by (cases q) auto
  have "length y \<le> length q'" using q token_loop_progress [of "[]" c q' x y] by (simp add: c)
  with skip_blanks_length [OF q(1)] show "((y, vector @ [x]), p, vector) \<in> measure (\<lambda>(p, vector). length p)"
    by (simp add: c)
qed simp

declare splitargs_loop.simps [simp del]

definition sdssplitargs :: "buffer \<Rightarrow> buffer list option option" where
  "sdssplitargs line = splitargs_loop line []"

section \<open>Printing integers\<close>

lemma wr_append: "wr (xs @ a # zs) (int (length xs)) b = Some (xs @ b # zs)"
  by (simp add: wr_def)

lemma rd_append: "rd (xs @ a # zs) (int (length xs)) = Some a"
  by (simp add: rd_def nth_append)

lemma put_digits_spec:
  "length ys = length (dec v) \<Longrightarrow>
   put_digits (xs @ ys @ zs) (length xs) v = Some (xs @ rev (dec v) @ zs, length xs + length (dec v))"
proof (induction v arbitrary: xs ys rule: less_induct)
  case (less v)
  obtain y ys' where ys: "ys = y # ys'" using less.prems by (cases ys) auto
  have w: "wr (xs @ ys @ zs) (int (length xs)) (48 + of_nat (v mod 10)) = Some ((xs @ [48 + of_nat (v mod 10)]) @ ys' @ zs)"
    by (simp add: ys wr_append)
  show ?case
  proof (cases "v < 10")
    case True
    then have "ys' = []" using less.prems ys by (simp add: dec_small)
    with True w show ?thesis by (subst put_digits.simps) (simp add: dec_small)
  next
    case False
    then have "length ys' = length (dec (v div 10))" using less.prems ys by (simp add: dec_step)
    from less.IH [OF _ this, of "xs @ [48 + of_nat (v mod 10)]"] False
    have "put_digits ((xs @ [48 + of_nat (v mod 10)]) @ ys' @ zs) (length xs + 1) (v div 10) =
      Some (xs @ rev (dec v) @ zs, length xs + length (dec v))"
      by (simp add: dec_step)
    moreover have "v div 10 \<noteq> 0" using False by (simp add: div_eq_0_iff)
    ultimately show ?thesis using w by (subst put_digits.simps) simp
  qed
qed

lemma swap_ends_spec:
  "swap_ends (xs @ ys @ zs) (int (length xs)) (int (length xs + length ys) - 1) = Some (xs @ rev ys @ zs)"
proof (induction ys arbitrary: xs zs rule: length_induct)
  case (1 ys)
  show ?case
  proof (cases "length ys \<le> 1")
    case True
    then have "rev ys = ys" by (cases ys) auto
    with True show ?thesis by (subst swap_ends.simps) auto
  next
    case False
    then obtain a ms b where ys: "ys = a # ms @ [b]"
      by (metis One_nat_def le_SucI length_0_conv length_Cons list.exhaust le_zero_eq rev_exhaust order_refl)
    have e: "int (length xs + length ys) - 1 = int (length (xs @ a # ms))" by (simp add: ys)
    have r: "rd (xs @ ys @ zs) (int (length xs)) = Some a" "rd (xs @ ys @ zs) (int (length (xs @ a # ms))) = Some b"
      using rd_append [of xs a] rd_append [of "xs @ a # ms" b zs] by (simp_all add: ys)
    have w: "wr (xs @ ys @ zs) (int (length xs)) b = Some (xs @ b # ms @ b # zs)"
      "wr (xs @ b # ms @ b # zs) (int (length (xs @ a # ms))) a = Some (xs @ b # ms @ a # zs)"
      using wr_append [of "xs @ b # ms" b zs a] by (simp_all add: ys wr_append)
    have "swap_ends ((xs @ [b]) @ ms @ a # zs) (int (length (xs @ [b]))) (int (length (xs @ [b]) + length ms) - 1) =
        Some ((xs @ [b]) @ rev ms @ a # zs)"
      using 1 [rule_format, of ms "xs @ [b]" "a # zs"] by (simp only: ys length_Cons length_append)
    then have ih: "swap_ends (xs @ b # ms @ a # zs) (int (length xs) + 1) (int (length (xs @ a # ms)) - 1) =
        Some (xs @ b # rev ms @ a # zs)" by (simp add: add.commute)
    have lt: "int (length xs) < int (length (xs @ a # ms))" by simp
    show ?thesis unfolding e by (subst swap_ends.simps) (simp only: lt if_True r w ih bind.bind_lunit, simp add: ys)
  qed
qed

lemma sdsull2str_spec:
  assumes "length (dec v) < length s"
  shows "sdsull2str s v = Some (dec v @ 0 # drop (length (dec v) + 1) s, length (dec v))"
proof -
  let ?n = "length (dec v)"
  have s: "s = [] @ take ?n s @ s ! ?n # drop (?n + 1) s" using assms by (simp add: id_take_nth_drop)
  have "put_digits s 0 v = Some (rev (dec v) @ s ! ?n # drop (?n + 1) s, ?n)"
    using put_digits_spec [of "take ?n s" v "[]" "s ! ?n # drop (?n + 1) s"] assms s by (simp add: min_def)
  moreover have "swap_ends (rev (dec v) @ 0 # drop (?n + 1) s) 0 (int ?n - 1) = Some (dec v @ 0 # drop (?n + 1) s)"
    using swap_ends_spec [of "[]" "rev (dec v)" "0 # drop (?n + 1) s"] by simp
  moreover have "wr (rev (dec v) @ s ! ?n # drop (?n + 1) s) (int ?n) 0 = Some (rev (dec v) @ 0 # drop (?n + 1) s)"
    using wr_append [of "rev (dec v)"] by simp
  ultimately show ?thesis by (simp add: sdsull2str_def)
qed

lemma sdsll2str_neg:
  assumes "LLONG_MIN \<le> x" "x < 0" "length (dec_int x) < length s"
  shows "sdsll2str s x = Some (dec_int x @ 0 # drop (length (dec_int x) + 1) s, length (dec_int x))"
proof -
  let ?v = "nat (- x)" let ?n = "length (dec ?v)" let ?z = "drop (?n + 2) s"
  have d: "dec_int x = 45 # dec ?v" using assms(2) by (simp add: dec_int_def)
  have v: "(if x < 0 then (if x \<noteq> LLONG_MIN then nat (- x) else nat LLONG_MAX + 1) else nat x) = ?v"
    using assms(2) by simp
  have s: "s = [] @ take ?n s @ s ! ?n # s ! (?n + 1) # ?z"
    using assms(3) unfolding d by (simp add: id_take_nth_drop Cons_nth_drop_Suc)
  have p: "put_digits s 0 ?v = Some (rev (dec ?v) @ s ! ?n # s ! (?n + 1) # ?z, ?n)"
    using put_digits_spec [of "take ?n s" ?v "[]" "s ! ?n # s ! (?n + 1) # ?z"] assms(3) s d by (simp add: min_def)
  have w: "wr (rev (dec ?v) @ s ! ?n # s ! (?n + 1) # ?z) (int ?n) 45 = Some (rev (dec ?v) @ 45 # s ! (?n + 1) # ?z)"
    "wr (rev (dec ?v) @ 45 # s ! (?n + 1) # ?z) (int (?n + 1)) 0 = Some (rev (45 # dec ?v) @ 0 # ?z)"
    using wr_append [of "rev (dec ?v)" "s ! ?n"] wr_append [of "rev (dec ?v) @ [45]" "s ! (?n + 1)" ?z 0] by simp_all
  have r: "swap_ends (rev (45 # dec ?v) @ 0 # ?z) 0 (int (?n + 1) - 1) = Some (45 # dec ?v @ 0 # ?z)"
    using swap_ends_spec [of "[]" "rev (45 # dec ?v)" "0 # ?z"] by simp
  show ?thesis
    unfolding sdsll2str_def Let_def v p
    using assms(2) w(1) by (simp add: w(2) [simplified] r [simplified] d)
qed

lemma sdsll2str_spec:
  assumes "in_llong x" "length (dec_int x) < length s"
  shows "sdsll2str s x = Some (dec_int x @ 0 # drop (length (dec_int x) + 1) s, length (dec_int x))"
proof (cases "x < 0")
  case False
  then have "sdsll2str s x = sdsull2str s (nat x)" by (simp add: sdsll2str_def sdsull2str_def)
  with False assms(2) show ?thesis by (simp add: sdsull2str_spec dec_int_def)
qed (use assms sdsll2str_neg in blast)

section \<open>Splitting and joining\<close>


lemma join_loop_app: "join_loop (a @ b) sep ts = a @ join_loop b sep ts"
  by (induction ts arbitrary: b) simp_all



















section \<open>Quoted arguments\<close>

lemma byte_div_less: "(c :: byte) div 16 < 16" "(c :: byte) mod 16 < 16"
proof -
  have "unat c < 256" using unsigned_less [of c] by simp
  then show "c div 16 < 16" by (simp add: word_less_nat_alt unat_div)
  show "c mod 16 < 16" by (simp add: word_less_nat_alt unat_mod)
qed

lemma hex_char_digit:
  assumes "d < 16"
  shows "is_hex_digit (hex_char d) \<and> hex_digit_to_int (hex_char d) = d"
proof -
  let ?P = "\<lambda>d. is_hex_digit (hex_char d) \<and> hex_digit_to_int (hex_char d) = d"
  let ?L = "[0, 1, 2, 3, 4, 5, 6, 7, 8, 9, 10, 11, 12, 13, 14, 15]"
  have l: "list_all ?P ?L" by (simp add: hex_char_def is_hex_digit_def hex_digit_to_int_def)
  have m: "?L = map (of_nat :: nat \<Rightarrow> byte) [0..<16]" by (simp add: upt_conv_Cons)
  have "unat d < 16" using assms by (simp add: word_less_nat_alt)
  then have "d \<in> set ?L" unfolding m set_map by (intro image_eqI [of _ _ "unat d"]) simp_all
  then show ?thesis by (rule bspec [OF l [unfolded list_all_iff]])
qed

lemma hex_char_byte: "hex_digit_to_int (hex_char (c div 16)) * 16 + hex_digit_to_int (hex_char (c mod 16)) = c"
  using hex_char_digit [OF byte_div_less(1) [of c]] hex_char_digit [OF byte_div_less(2) [of c]] by (simp add: word_mod_div_equality)

lemma repr_loop_app: "repr_loop s p = s @ concat (map repr_byte p)"
  by (induction p arbitrary: s) simp_all

lemma repr_cases:
  "(c = 92 \<or> c = 34) \<or> (c = 10 \<or> c = 13 \<or> c = 9 \<or> c = 7 \<or> c = 8) \<or>
   (repr_byte c = [c] \<and> c \<noteq> 92 \<and> c \<noteq> 34 \<and> c \<noteq> 0) \<or>
   repr_byte c = [92, 120, hex_char (c div 16), hex_char (c mod 16)]"
  by (cases "isprint c"; cases "c = 0") (simp_all add: repr_byte_def isprint_def)

text \<open>Reading back one escaped byte.\<close>

lemma token_repr_byte: "token_loop InQuotes cur (repr_byte c @ p) = token_loop InQuotes (cur @ [c]) p"
proof -
  consider "c = 92 \<or> c = 34" | "c = 10 \<or> c = 13 \<or> c = 9 \<or> c = 7 \<or> c = 8"
    | "repr_byte c = [c]" "c \<noteq> 92" "c \<noteq> 34" "c \<noteq> 0"
    | "repr_byte c = [92, 120, hex_char (c div 16), hex_char (c mod 16)]"
    using repr_cases [of c] by blast
  then show ?thesis
  proof cases
    case 4
    have "hex_escape ([120, hex_char (c div 16), hex_char (c mod 16)] @ p) = Some True"
      using hex_char_digit [OF byte_div_less(1) [of c]] hex_char_digit [OF byte_div_less(2) [of c]] by simp
    with 4 show ?thesis by (simp add: hex_char_byte)
  next
    case 3
    then show ?thesis by simp
  next
    case 1
    then show ?thesis by (elim disjE; hypsubst; simp add: repr_byte_def unescape_def)
  next
    case 2
    then show ?thesis by (elim disjE; hypsubst; simp add: repr_byte_def unescape_def)
  qed
qed

lemma token_repr:
  "d = 0 \<or> isspace d \<Longrightarrow>
   token_loop InQuotes cur (concat (map repr_byte a) @ 34 # d # rest) = Some (Inr (cur @ a, d # rest))"
  by (induction a arbitrary: cur) (auto simp: token_repr_byte rd_def)

lemma needsrepr_iff:
  "sdsneedsrepr a \<longleftrightarrow> (\<exists>c \<in> set a. c = 92 \<or> c = 34 \<or> \<not> isprint c \<or> isspace c)"
proof (induction a)
  case (Cons c a)
  have "\<not> isprint 10" "\<not> isprint 13" "\<not> isprint 9" "\<not> isprint 7" "\<not> isprint 8" by (simp_all add: isprint_def)
  then have "(c = 92 \<or> c = 34 \<or> c = 10 \<or> c = 13 \<or> c = 9 \<or> c = 7 \<or> c = 8 \<or> \<not> isprint c \<or> isspace c) \<longleftrightarrow>
      (c = 92 \<or> c = 34 \<or> \<not> isprint c \<or> isspace c)" by blast
  then show ?case unfolding sdsneedsrepr.simps Cons by (simp only: list.set(2) bex_simps if_bool_eq_disj) blast
qed simp

lemma plain_char:
  assumes "isprint c" "\<not> isspace c"
  shows "c \<noteq> 0" "c \<noteq> 32" "c \<noteq> 10" "c \<noteq> 13" "c \<noteq> 9"
  using assms by (auto simp: isprint_def isspace_def)

lemma token_plain:
  "\<not> sdsneedsrepr a \<Longrightarrow> 39 \<notin> set a \<Longrightarrow> token_loop Unquoted cur (a @ p) = token_loop Unquoted (cur @ a) p"
proof (induction a arbitrary: cur)
  case (Cons c a)
  have "isprint c" "\<not> isspace c" "c \<noteq> 34" using Cons.prems by (auto simp: needsrepr_iff)
  with Cons plain_char [of c] show ?case by (simp add: needsrepr_iff)
qed simp

text \<open>An argument as it may be written on a line: quoted, or as it is.\<close>

definition arg_text :: "bool \<times> buffer \<Rightarrow> buffer" where
  "arg_text x = (if fst x then sdscatrepr [] (snd x) else snd x)"

definition arg_ok :: "bool \<times> buffer \<Rightarrow> bool" where
  "arg_ok x \<longleftrightarrow> fst x \<or> (\<not> sdsneedsrepr (snd x) \<and> snd x \<noteq> [] \<and> 39 \<notin> set (snd x))"

lemma arg_token:
  assumes "arg_ok x" "d = 0 \<or> d = 32"
  shows "\<exists>r. token_loop Unquoted [] (arg_text x @ d # rest) = Some (Inr (snd x, r)) \<and>
    skip_blanks r = skip_blanks (d # rest)"
proof (cases "fst x")
  case True
  have "arg_text x @ d # rest = 34 # concat (map repr_byte (snd x)) @ 34 # d # rest"
    using True by (simp add: arg_text_def sdscatrepr_def repr_loop_app)
  moreover have "d = 0 \<or> isspace d" using assms(2) by (auto simp: isspace_def)
  ultimately show ?thesis using token_repr [of d "[]" "snd x" rest] by simp
next
  case False
  then show ?thesis
    using assms token_plain [of "snd x" "[]" "d # rest"] by (auto simp: arg_text_def arg_ok_def isspace_def)
qed

lemma arg_start: "arg_ok x \<Longrightarrow> skip_blanks (arg_text x @ p) = Some (arg_text x @ p) \<and> arg_text x \<noteq> [] \<and> hd (arg_text x @ p) \<noteq> 0"
proof (cases "fst x")
  case True
  then show ?thesis by (simp add: arg_text_def sdscatrepr_def repr_loop_app isspace_def)
next
  case False
  assume "arg_ok x"
  then obtain c a where a: "snd x = c # a" "isprint c" "\<not> isspace c"
    using False by (cases "snd x") (auto simp: arg_ok_def needsrepr_iff)
  then show ?thesis using False plain_char [of c] by (simp add: arg_text_def)
qed

lemma splitargs_blanks: "skip_blanks p = skip_blanks q \<Longrightarrow> splitargs_loop p v = splitargs_loop q v"
  by (subst (1 2) splitargs_loop.simps) simp

lemma splitargs_arg:
  assumes "arg_ok x" "d = 0 \<or> d = 32"
  shows "splitargs_loop (arg_text x @ d # rest) v = splitargs_loop (d # rest) (v @ [snd x])"
proof -
  obtain r where r: "token_loop Unquoted [] (arg_text x @ d # rest) = Some (Inr (snd x, r))" "skip_blanks r = skip_blanks (d # rest)"
    using arg_token [OF assms] by blast
  have "splitargs_loop (arg_text x @ d # rest) v = splitargs_loop r (v @ [snd x])"
    using arg_start [OF assms(1), of "d # rest"] r(1) by (subst splitargs_loop.simps) (simp del: hd_append2)
  with splitargs_blanks [OF r(2)] show ?thesis by simp
qed

lemma join_Cons: "sdsjoinsds (a # ts) sep = a @ (if ts \<noteq> [] then sep else []) @ sdsjoinsds ts sep"
  using join_loop_app [of "a @ (if ts \<noteq> [] then sep else [])" "[]" sep ts] by (simp add: sdsjoinsds_def)

lemma splitargs_all:
  "\<forall>x \<in> set xs. arg_ok x \<Longrightarrow>
   splitargs_loop (sdsjoinsds (map arg_text xs) [32] @ [0]) v = Some (Some (v @ map snd xs))"
proof (induction xs arbitrary: v)
  case Nil
  show ?case by (subst splitargs_loop.simps) (simp add: sdsjoinsds_def)
next
  case (Cons x xs)
  show ?case
  proof (cases "xs = []")
    case True
    then show ?thesis
      using Cons.prems splitargs_arg [of x 0 "[]" v] Cons.IH [of "v @ [snd x]"] by (simp add: join_Cons sdsjoinsds_def)
  next
    case False
    let ?r = "sdsjoinsds (map arg_text xs) [32] @ [0]"
    have "splitargs_loop (arg_text x @ 32 # ?r) v = splitargs_loop (32 # ?r) (v @ [snd x])"
      using Cons.prems by (intro splitargs_arg) auto
    also have "\<dots> = splitargs_loop ?r (v @ [snd x])" by (rule splitargs_blanks) (simp add: isspace_def)
    finally show ?thesis using Cons False by (simp add: join_Cons)
  qed
qed

lemma token_unbalanced:
  "92 \<notin> set y \<Longrightarrow> 39 \<notin> set y \<Longrightarrow> 0 \<notin> set y \<Longrightarrow> token_loop InSingleQuotes cur (y @ [0]) = Some (Inl ())"
  by (induction y arbitrary: cur) auto

lemma splitargs_unbalanced:
  assumes n: "\<not> sdsneedsrepr (x @ 39 # y)" and q: "39 \<notin> set x" "39 \<notin> set y"
  shows "sdssplitargs ((x @ 39 # y) @ [0]) = Some None"
proof -
  have p: "c \<in> set (x @ 39 # y) \<Longrightarrow> isprint c \<and> \<not> isspace c \<and> c \<noteq> 92" for c using n by (auto simp: needsrepr_iff)
  have nx: "\<not> sdsneedsrepr x" using n by (auto simp: needsrepr_iff)
  have y: "92 \<notin> set y" "0 \<notin> set y" using p [of 92] p [of 0] plain_char(1) [of 0] by auto
  obtain c z where c: "(x @ 39 # y) @ [0] = c # z" "c \<in> set (x @ 39 # y)" by (cases x) auto
  have s: "skip_blanks ((x @ 39 # y) @ [0]) = Some ((x @ 39 # y) @ [0])" "hd ((x @ 39 # y) @ [0]) \<noteq> 0"
    unfolding c(1) using p [OF c(2)] plain_char(1) [of c] by simp_all
  have "token_loop Unquoted [] ((x @ 39 # y) @ [0]) = Some (Inl ())"
    using token_plain [OF nx q(1), of "[]" "39 # y @ [0]"] token_unbalanced [OF y(1) q(2) y(2)] by simp
  then show ?thesis unfolding sdssplitargs_def by (subst splitargs_loop.simps) (simp only: s bind.bind_lunit, simp)
qed

section \<open>Properties\<close>

lemma sdsfromlonglong_spec:
  assumes "usable_ok usable" "in_llong x"
  shows "\<exists>s. sdsfromlonglong usable fresh stack x = Some s \<and> sds_ok s \<and> sds_val s = dec_int x"
proof -
  let ?n = "length (dec_int x)"
  have n: "?n < 21" using assms(2) by (rule length_dec_int)
  let ?b = "dec_int x @ 0 # drop (?n + 1) (realloc fresh stack SDS_LLSTR_SIZE)"
  have "sdsll2str (realloc fresh stack SDS_LLSTR_SIZE) x = Some (?b, ?n)"
    using sdsll2str_spec [OF assms(2), of "realloc fresh stack SDS_LLSTR_SIZE"] n by (simp add: SDS_LLSTR_SIZE_def)
  moreover have "sdsnewlen_gen usable fresh (InitFrom ?b) ?n = sdsnewlen_gen usable fresh (InitFrom (dec_int x)) ?n"
    using sdsnewlen_prefix [of ?n ?b usable fresh] by simp
  moreover obtain s where "sdsnewlen_gen usable fresh (InitFrom (dec_int x)) ?n = Some s" "sds_ok s" "sds_val s = dec_int x"
    using sdsnewlen_spec [OF assms(1), of "dec_int x" fresh] n by auto
  ultimately show ?thesis by (simp add: sdsfromlonglong_def)
qed

text \<open>
  C18: The string made from a 64-bit integer holds its canonical decimal text, printed without leaving the 21-byte
  stack buffer (\<open>LLONG_MIN\<close> included), and \<open>string2ll\<close> reads the same integer back.
\<close>

theorem sdsfromlonglong_string2ll:
  assumes "usable_ok usable" "in_llong x"
  shows "\<exists>s. sdsfromlonglong usable fresh stack x = Some s \<and> sds_ok s \<and> sds_val s = dec_int x \<and>
    string2ll (sds_val s) = Some x"
  using sdsfromlonglong_spec [OF assms, of fresh stack] string2ll_dec_int [OF assms(2)] by auto

theorem sdsfromlonglong_string2ll_witness:
  "\<exists>s. sdsfromlonglong (\<lambda>n. n) (\<lambda>_. 9) [] (- (2 ^ 63)) = Some s \<and> sds_ok s \<and> string2ll (sds_val s) = Some (- (2 ^ 63))"
  using sdsfromlonglong_string2ll [of "\<lambda>n. n" "- (2 ^ 63)" "\<lambda>_. 9" "[]"] by (auto simp: usable_ok_def)


text \<open>
  C16: \<open>sdssplitargs\<close> reads back a line of arguments, whatever bytes they hold: each argument written by
  \<open>sdscatrepr\<close>, or as it is if \<open>sdsneedsrepr\<close> does not ask for quotes, it is not empty and has no single quote.
\<close>

theorem sdssplitargs_repr:
  assumes "\<forall>x \<in> set xs. arg_ok x"
  shows "sdssplitargs (sdsjoinsds (map arg_text xs) [32] @ [0]) = Some (Some (map snd xs))"
  using splitargs_all [OF assms, of "[]"] by (simp add: sdssplitargs_def)

theorem sdssplitargs_repr_witness:
  "sdssplitargs (sdsjoinsds [sdscatrepr [] [0, 34, 255], [71, 69, 84], sdscatrepr [] []] [32] @ [0]) =
     Some (Some [[0, 34, 255], [71, 69, 84], []])"
  using sdssplitargs_repr [of "[(True, [0, 34, 255]), (False, [71, 69, 84]), (True, [])]"]
  by (simp add: arg_ok_def arg_text_def isprint_def isspace_def)

text \<open>
  C19: \<open>sdsneedsrepr\<close> does not protect single quotes: a string with one single quote that it leaves unquoted
  (as \<open>aof.c\<close> does for the file names in its manifest) is rejected by \<open>sdssplitargs\<close> as unbalanced.
\<close>

theorem sdsneedsrepr_single_quote:
  assumes "\<not> sdsneedsrepr (x @ 39 # y)" "39 \<notin> set x" "39 \<notin> set y"
  shows "sdssplitargs ((x @ 39 # y) @ [0]) = Some None"
  using assms by (rule splitargs_unbalanced)

theorem sdsneedsrepr_single_quote_witness:
  "\<not> sdsneedsrepr [97, 39, 98] \<and> sdssplitargs [97, 39, 98, 0] = Some None"
  using sdsneedsrepr_single_quote [of "[97]" "[98]"] by (simp add: isprint_def isspace_def)

end
