(* ===== verification/RedisSetType.thy ===== *)
theory RedisSetType
  imports RedisIntsetProofs RedisDictScanProofs RedisSdsText
begin

text \<open>
  Set objects (\<open>t_set.c\<close>): the operations that hide whether a set is an intset or a hash table,
  with the conversion from the first encoding to the second, and their iterators. Elements are byte strings;
  copying an sds string (\<open>sdsdup\<close>) leaves its bytes unchanged. \<open>hash\<close> is the hash function of
  \<open>setDictType\<close>, the record \<open>tset_env\<close> what else an operation finds in its environment:
  \<open>dict_can_resize\<close>, the contents of fresh memory, \<open>server.set_max_intset_entries\<close>, the
  memory a new dictionary is placed in, and the table addresses an iterator fingerprint depends on.
\<close>

section \<open>Objects and the environment\<close>

text \<open>The encoding of the object together with what its \<open>ptr\<close> points to.\<close>

datatype set_obj = IntsetObj intset | HtObj "(buffer, unit) dict"

record tset_env =
  te_can_resize :: dictResizeEnable
  te_fresh :: "nat \<Rightarrow> byte"
  te_max_intset :: nat
  te_dict0 :: "(buffer, unit) dict"
  te_addr :: "nat \<Rightarrow> 64 word"
  te_fp0 :: "64 word"

definition isSdsRepresentableAsLongLong :: "buffer \<Rightarrow> int option" where
  "isSdsRepresentableAsLongLong s = string2ll s"

text \<open>The bytes of \<open>sdsfromlonglong(value)\<close>.\<close>

definition ll_text :: "int \<Rightarrow> buffer option" where
  "ll_text value = map_option (\<lambda>(b, len). take len b) (sdsll2str (replicate SDS_LLSTR_SIZE 0) value)"

definition createIntsetObject :: set_obj where
  "createIntsetObject = IntsetObj intsetNew"

definition createSetObject :: "tset_env \<Rightarrow> set_obj" where
  "createSetObject E = HtObj (dictInit (te_dict0 E))"

definition setTypeCreate :: "tset_env \<Rightarrow> buffer \<Rightarrow> set_obj" where
  "setTypeCreate E value =
     (if isSdsRepresentableAsLongLong value \<noteq> None then createIntsetObject else createSetObject E)"

section \<open>Iterators\<close>

datatype set_iter = HtIter "(buffer, unit) dictIterator" | IntsetIter nat

datatype set_elem = SdsEle buffer | LlEle int

definition setTypeInitIterator :: "tset_env \<Rightarrow> set_obj \<Rightarrow> set_iter" where
  "setTypeInitIterator E subject =
     (case subject of HtObj _ \<Rightarrow> HtIter (dictGetIterator (te_fp0 E)) | IntsetObj _ \<Rightarrow> IntsetIter 0)"

definition setTypeReleaseIterator :: "tset_env \<Rightarrow> set_obj \<Rightarrow> set_iter \<Rightarrow> set_obj option" where
  "setTypeReleaseIterator E subject si =
     (case (subject, si) of
        (HtObj d, HtIter di) \<Rightarrow> map_option HtObj (dictReleaseIterator (te_addr E) d di)
      | (IntsetObj _, IntsetIter _) \<Rightarrow> Some subject
      | _ \<Rightarrow> None)"

definition setTypeNext :: "tset_env \<Rightarrow> set_obj \<Rightarrow> set_iter \<Rightarrow> (set_obj \<times> set_iter \<times> set_elem option) option" where
  "setTypeNext E subject si =
     (case (subject, si) of
        (HtObj d, HtIter di) \<Rightarrow> do {
          (d, di, de) \<leftarrow> dictNext (te_addr E) d di;
          Some (HtObj d, HtIter di, map_option (\<lambda>de. SdsEle (fst de)) de)
        }
      | (IntsetObj is, IntsetIter ii) \<Rightarrow> do {
          llele \<leftarrow> intsetGet is ii;
          Some (subject, IntsetIter (ii + 1), map_option LlEle llele)
        }
      | _ \<Rightarrow> None)"

definition elem_sds :: "set_elem \<Rightarrow> buffer option" where
  "elem_sds e = (case e of SdsEle s \<Rightarrow> Some s | LlEle v \<Rightarrow> ll_text v)"

definition setTypeNextObject ::
  "tset_env \<Rightarrow> set_obj \<Rightarrow> set_iter \<Rightarrow> (set_obj \<times> set_iter \<times> buffer option) option" where
  "setTypeNextObject E subject si = do {
     (subject, si, e) \<leftarrow> setTypeNext E subject si;
     case e of
       None \<Rightarrow> Some (subject, si, None)
     | Some e \<Rightarrow> do { s \<leftarrow> elem_sds e; Some (subject, si, Some s) }
   }"

section \<open>Conversion\<close>

partial_function (option) convert_loop ::
  "(buffer \<Rightarrow> 64 word) \<Rightarrow> tset_env \<Rightarrow> set_obj \<Rightarrow> set_iter \<Rightarrow> (buffer, unit) dict \<Rightarrow>
    (set_obj \<times> set_iter \<times> (buffer, unit) dict) option" where
  "convert_loop hash E setobj si d = do {
     (setobj, si, e) \<leftarrow> setTypeNext E setobj si;
     case e of
       None \<Rightarrow> Some (setobj, si, d)
     | Some e \<Rightarrow> do {
         element \<leftarrow> elem_sds e;
         (d, ok) \<leftarrow> dictAdd (te_can_resize E) (setDictType hash) () d element ();
         if ok then convert_loop hash E setobj si d else None
       }
   }"

definition setTypeConvert :: "(buffer \<Rightarrow> 64 word) \<Rightarrow> tset_env \<Rightarrow> set_obj \<Rightarrow> set_obj option" where
  "setTypeConvert hash E setobj =
     (case setobj of
        IntsetObj is \<Rightarrow> do {
          let d = fst (dictExpand (dictInit (te_dict0 E)) (intsetLen is));
          (setobj, si, d) \<leftarrow> convert_loop hash E setobj (setTypeInitIterator E setobj) d;
          setobj \<leftarrow> setTypeReleaseIterator E setobj si;
          Some (HtObj d)
        }
      | HtObj _ \<Rightarrow> None)"

section \<open>Element operations\<close>

definition setTypeAdd :: "(buffer \<Rightarrow> 64 word) \<Rightarrow> tset_env \<Rightarrow> set_obj \<Rightarrow> buffer \<Rightarrow> (set_obj \<times> bool) option" where
  "setTypeAdd hash E subject value =
     (case subject of
        HtObj ht \<Rightarrow> do {
          (ht, de, _) \<leftarrow> dictAddRaw (te_can_resize E) (setDictType hash) () ht value;
          case de of
            Some de \<Rightarrow> do { ht \<leftarrow> dictSetVal ht de (); Some (HtObj ht, True) }
          | None \<Rightarrow> Some (HtObj ht, False)
        }
      | IntsetObj is \<Rightarrow>
          (case isSdsRepresentableAsLongLong value of
             Some llval \<Rightarrow> do {
               (is, success) \<leftarrow> intsetAdd (te_fresh E) is llval;
               if success then
                 (let max_entries = te_max_intset E;
                      max_entries = (if max_entries \<ge> 2 ^ 30 then 2 ^ 30 else max_entries)
                  in if intsetLen is > max_entries
                     then do { s \<leftarrow> setTypeConvert hash E (IntsetObj is); Some (s, True) }
                     else Some (IntsetObj is, True))
               else Some (IntsetObj is, False)
             }
           | None \<Rightarrow> do {
               s \<leftarrow> setTypeConvert hash E subject;
               case s of
                 HtObj d \<Rightarrow> do {
                   (d, ok) \<leftarrow> dictAdd (te_can_resize E) (setDictType hash) () d value ();
                   if ok then Some (HtObj d, True) else None
                 }
               | IntsetObj _ \<Rightarrow> None
             }))"

definition HASHTABLE_MIN_FILL :: nat where "HASHTABLE_MIN_FILL = 10"

definition htNeedsResize :: "('k, 'v) dict \<Rightarrow> bool" where
  "htNeedsResize d =
     (let size = dictSlots d; used = dictSize d
      in size > DICT_HT_INITIAL_SIZE \<and> used * 100 div size < HASHTABLE_MIN_FILL)"

definition setTypeRemove :: "(buffer \<Rightarrow> 64 word) \<Rightarrow> tset_env \<Rightarrow> set_obj \<Rightarrow> buffer \<Rightarrow> (set_obj \<times> bool) option" where
  "setTypeRemove hash E setobj value =
     (case setobj of
        HtObj d \<Rightarrow> do {
          (d, ok) \<leftarrow> dictDelete (te_can_resize E) (setDictType hash) d value;
          Some (HtObj (if ok \<and> htNeedsResize d then fst (dictResize (te_can_resize E) d) else d), ok)
        }
      | IntsetObj is \<Rightarrow>
          (case isSdsRepresentableAsLongLong value of
             Some llval \<Rightarrow> do {
               (is, success) \<leftarrow> intsetRemove (te_fresh E) is llval;
               Some (IntsetObj is, success)
             }
           | None \<Rightarrow> Some (setobj, False)))"

definition setTypeIsMember :: "(buffer \<Rightarrow> 64 word) \<Rightarrow> tset_env \<Rightarrow> set_obj \<Rightarrow> buffer \<Rightarrow> (set_obj \<times> bool) option" where
  "setTypeIsMember hash E subject value =
     (case subject of
        HtObj d \<Rightarrow> do {
          (d, de) \<leftarrow> dictFind (te_can_resize E) (setDictType hash) d value;
          Some (HtObj d, de \<noteq> None)
        }
      | IntsetObj is \<Rightarrow>
          (case isSdsRepresentableAsLongLong value of
             Some llval \<Rightarrow> map_option (Pair subject) (intsetFind is llval)
           | None \<Rightarrow> Some (subject, False)))"

definition setTypeSize :: "set_obj \<Rightarrow> nat" where
  "setTypeSize subject = (case subject of HtObj d \<Rightarrow> dictSize d | IntsetObj is \<Rightarrow> intsetLen is)"

section \<open>Duplication\<close>

partial_function (option) dup_loop ::
  "(buffer \<Rightarrow> 64 word) \<Rightarrow> tset_env \<Rightarrow> set_obj \<Rightarrow> set_iter \<Rightarrow> set_obj \<Rightarrow> (set_obj \<times> set_iter \<times> set_obj) option" where
  "dup_loop hash E obj si newset = do {
     (obj, si, e) \<leftarrow> setTypeNext E obj si;
     case e of
       None \<Rightarrow> Some (obj, si, newset)
     | Some e \<Rightarrow> (case e of
         SdsEle elesds \<Rightarrow> do {
           (newset, _) \<leftarrow> setTypeAdd hash E newset elesds;
           dup_loop hash E obj si newset
         }
       | LlEle _ \<Rightarrow> None)
   }"

definition setTypeDup :: "(buffer \<Rightarrow> 64 word) \<Rightarrow> tset_env \<Rightarrow> set_obj \<Rightarrow> (set_obj \<times> set_obj) option" where
  "setTypeDup hash E obj =
     (case obj of
        IntsetObj is \<Rightarrow> Some (obj, IntsetObj (intsetOfBlob (take (intsetBlobLen is) (intsetBlob is))))
      | HtObj d \<Rightarrow> do {
          let newset = HtObj (fst (dictExpand (dictInit (te_dict0 E)) (dictSize d)));
          (obj, si, newset) \<leftarrow> dup_loop hash E obj (setTypeInitIterator E obj) newset;
          obj \<leftarrow> setTypeReleaseIterator E obj si;
          Some (obj, newset)
        })"

section \<open>Invariant and abstraction\<close>

fun set_inv :: "(buffer \<Rightarrow> 64 word) \<Rightarrow> set_obj \<Rightarrow> bool" where
  "set_inv hash (IntsetObj is) = intset_inv is"
| "set_inv hash (HtObj d) = dict_inv (setDictType hash) d"

fun set_elems :: "set_obj \<Rightarrow> buffer set" where
  "set_elems (IntsetObj is) = dec_int ` set (intset_elems is)"
| "set_elems (HtObj d) = dom (dict_map d)"

fun etext :: "set_elem \<Rightarrow> buffer" where
  "etext (SdsEle s) = s"
| "etext (LlEle v) = dec_int v"

lemma ll_text_dec: "in_llong v \<Longrightarrow> ll_text v = Some (dec_int v)"
  using sdsll2str_spec [of v "replicate SDS_LLSTR_SIZE 0"] length_dec_int [of v]
  by (simp add: ll_text_def SDS_LLSTR_SIZE_def)

lemma dec_int_inj: "in_llong a \<Longrightarrow> in_llong b \<Longrightarrow> dec_int a = dec_int b \<longleftrightarrow> a = b"
  using string2ll_dec_int by (metis option.inject)

lemma ll_repr_iff: "isSdsRepresentableAsLongLong s = Some v \<longleftrightarrow> in_llong v \<and> s = dec_int v"
  using string2ll_dec_int [of v] string2ll_sound [of s v] by (auto simp: isSdsRepresentableAsLongLong_def)

lemma ll_repr_None: "isSdsRepresentableAsLongLong s = None \<Longrightarrow> s = dec_int v \<Longrightarrow> \<not> in_llong v"
  using ll_repr_iff [of s v] by auto

lemma intset_inv_elems:
  assumes "intset_inv is"
  shows "length (intset_elems is) = len is" "len is < 2 ^ 29" "distinct (intset_elems is)"
    "\<And>v. v \<in> set (intset_elems is) \<Longrightarrow> in_llong v"
    "\<And>i. i < len is \<Longrightarrow> intsetGet_raw is (int i) = Some (intset_elems is ! i)"
proof -
  have r: "intset_rep is (intset_elems is)" "len is < 2 ^ 29" using assms by (simp_all add: intset_inv_def)
  show l: "length (intset_elems is) = len is" "len is < 2 ^ 29" using r by (simp_all add: intset_rep_def)
  show "distinct (intset_elems is)" using r(1) by (simp add: intset_rep_def strict_sorted_iff)
  show "in_llong v" if "v \<in> set (intset_elems is)" for v
  proof -
    have "fits (encoding is) v" "enc_ok (encoding is)" using r(1) that by (auto simp: intset_rep_def)
    then show ?thesis by (auto simp: fits_def enc_ok_def)
  qed
  show "intsetGet_raw is (int i) = Some (intset_elems is ! i)" if "i < len is" for i
    using get_rep [OF r(1)] that l by simp
qed

lemma intset_get:
  assumes "intset_inv is"
  shows "intsetGet is i = Some (case drop i (intset_elems is) of [] \<Rightarrow> None | v # _ \<Rightarrow> Some v)"
proof (cases "i < len is")
  case True
  note r = intset_inv_elems [OF assms]
  have "int_of_u32 i = int i" using True r(2) by (simp add: int_of_u32_def)
  moreover have "drop i (intset_elems is) = intset_elems is ! i # drop (Suc i) (intset_elems is)"
    using True r(1) by (simp add: Cons_nth_drop_Suc)
  ultimately show ?thesis using True r(5) by (simp add: intsetGet_def)
qed (use intset_inv_elems(1) [OF assms] in \<open>simp add: intsetGet_def\<close>)

section \<open>Iteration\<close>

text \<open>The elements an iterator has yet to return, and what makes its fingerprint check succeed.\<close>

fun iter_rep :: "(buffer \<Rightarrow> 64 word) \<Rightarrow> tset_env \<Rightarrow> set_obj \<Rightarrow> set_iter \<Rightarrow> set_elem list \<Rightarrow> bool" where
  "iter_rep hash E (IntsetObj is) (IntsetIter ii) xs = (xs = map LlEle (drop ii (intset_elems is)))"
| "iter_rep hash E (HtObj d) (HtIter it) xs =
     (iter_ok d it \<and> \<not> it_safe it \<and> xs = map (\<lambda>e. SdsEle (fst e)) (remaining d it) \<and>
      (if it_index it = - 1 then it_table it = 0 else it_fingerprint it = dictFingerprint (te_addr E) d))"
| "iter_rep hash E _ _ xs = False"

definition all_elems :: "set_obj \<Rightarrow> set_elem list" where
  "all_elems s = (case s of IntsetObj is \<Rightarrow> map LlEle (intset_elems is) | HtObj d \<Rightarrow> map (\<lambda>e. SdsEle (fst e)) (entries d))"

lemma iter_init: "iter_rep hash E s (setTypeInitIterator E s) (all_elems s)"
  by (cases s) (simp_all add: setTypeInitIterator_def all_elems_def dictGetIterator_def iter_ok_def remaining_def
      rest_def entries_def)

lemma iter_next:
  assumes "set_inv hash s" "iter_rep hash E s si xs"
  shows "\<exists>si'. setTypeNext E s si = Some (s, si', case xs of [] \<Rightarrow> None | x # _ \<Rightarrow> Some x) \<and> iter_rep hash E s si' (tl xs)"
proof (cases s)
  case (IntsetObj "is")
  then obtain ii where ii: "si = IntsetIter ii" "xs = map LlEle (drop ii (intset_elems is))"
    using assms(2) by (cases si) auto
  have "intset_inv is" using assms(1) IntsetObj by simp
  moreover have "drop (Suc ii) (intset_elems is) = tl (drop ii (intset_elems is))" by (simp add: drop_Suc tl_drop)
  ultimately show ?thesis
    using IntsetObj ii intset_get [of "is" ii] by (auto simp: setTypeNext_def map_tl split: list.splits)
next
  case (HtObj d)
  then obtain it where it: "si = HtIter it" "iter_ok d it" "\<not> it_safe it" "xs = map (\<lambda>e. SdsEle (fst e)) (remaining d it)"
    "if it_index it = - 1 then it_table it = 0 else it_fingerprint it = dictFingerprint (te_addr E) d"
    using assms(2) by (cases si) auto
  have inv: "dict_inv (setDictType hash) d" using assms(1) HtObj by simp
  define it1 where "it1 = snd (iter_start (te_addr E) d it)"
  have st: "iter_start (te_addr E) d it = (d, it1)" "\<not> it_safe it1" "it_fingerprint it1 = dictFingerprint (te_addr E) d"
    using it(3,5) by (auto simp: iter_start_def it1_def split: if_splits)
  obtain it' where it': "dictNext (te_addr E) d it = Some (d, it', case remaining d it of [] \<Rightarrow> None | x # _ \<Rightarrow> Some x)"
    "iter_ok d it'" "it_index it' \<noteq> - 1" "it_safe it' = it_safe it1" "it_fingerprint it' = it_fingerprint it1"
    "remaining d it' = tl (remaining d it)"
    using dictNext_spec [OF inv it(2) st(1)] by blast
  show ?thesis using HtObj it it' st(2,3) by (auto simp: setTypeNext_def map_tl split: list.splits)
qed

lemma iter_release: "iter_rep hash E s si xs \<Longrightarrow> setTypeReleaseIterator E s si = Some s"
  by (cases s; cases si) (auto simp: setTypeReleaseIterator_def dictReleaseIterator_def split: if_splits)

lemma all_elems_text:
  assumes "set_inv hash s"
  shows "distinct (map etext (all_elems s))" "etext ` set (all_elems s) = set_elems s" "length (all_elems s) = setTypeSize s"
proof -
  have "distinct (map etext (all_elems s)) \<and> etext ` set (all_elems s) = set_elems s \<and> length (all_elems s) = setTypeSize s"
  proof (cases s)
    case (IntsetObj "is")
    with assms have inv: "intset_inv is" by simp
    note r = intset_inv_elems [OF inv]
    have "inj_on dec_int (set (intset_elems is))" using r(4) dec_int_inj by (auto intro: inj_onI)
    then have "distinct (map (etext \<circ> LlEle) (intset_elems is))" using r(3) by (simp add: distinct_map comp_def)
    then show ?thesis using IntsetObj r(1) by (auto simp: all_elems_def setTypeSize_def intsetLen_def image_image)
  next
    case (HtObj d)
    with assms have inv: "dict_inv (setDictType hash) d" by simp
    have "map (etext \<circ> (\<lambda>e. SdsEle (fst e))) (entries d) = map fst (entries d)" by simp
    moreover have "distinct (map fst (entries d))" using inv by (simp add: dict_inv_def)
    ultimately show ?thesis
      using HtObj dictSize_entries [OF inv]
      by (simp add: all_elems_def setTypeSize_def image_image comp_def dict_map_def dom_map_of_conv_image_fst)
  qed
  then show "distinct (map etext (all_elems s))" "etext ` set (all_elems s) = set_elems s" "length (all_elems s) = setTypeSize s"
    by auto
qed

lemma all_elems_sds: "set_inv hash s \<Longrightarrow> x \<in> set (all_elems s) \<Longrightarrow> elem_sds x = Some (etext x)"
  using intset_inv_elems(4) ll_text_dec by (cases s) (auto simp: all_elems_def elem_sds_def)

lemma set_elems_card: "set_inv hash s \<Longrightarrow> finite (set_elems s) \<and> card (set_elems s) = setTypeSize s"
  using all_elems_text [of hash s] distinct_card [of "map etext (all_elems s)"] by (metis finite_set length_map list.set_map)

section \<open>Conversion\<close>

lemma convert_loop_spec:
  assumes "set_inv hash s" "iter_rep hash E s si xs" "dict_inv (setDictType hash) d"
    "\<forall>x \<in> set xs. elem_sds x = Some (etext x)" "distinct (map etext xs)" "dom (dict_map d) \<inter> etext ` set xs = {}"
    "dictSize d + length xs < 2 ^ 60"
  shows "\<exists>si' d'. convert_loop hash E s si d = Some (s, si', d') \<and> iter_rep hash E s si' [] \<and>
    dict_inv (setDictType hash) d' \<and> dom (dict_map d') = dom (dict_map d) \<union> etext ` set xs"
  using assms
proof (induction xs arbitrary: si d)
  case Nil
  then show ?case using iter_next [OF Nil(1,2)] by (subst convert_loop.simps) auto
next
  case (Cons x xs)
  obtain si' where si': "setTypeNext E s si = Some (s, si', Some x)" "iter_rep hash E s si' xs"
    using iter_next [OF Cons.prems(1,2)] by auto
  have sz: "dictSize d < 2 ^ 60" and x: "elem_sds x = Some (etext x)" and new: "dict_map d (etext x) = None"
    using Cons.prems(4,6,7) by (auto simp: domIff)
  obtain d' where d': "dictAdd (te_can_resize E) (setDictType hash) () d (etext x) () = Some (d', True)"
    "dict_inv (setDictType hash) d'" "dict_map d' = (dict_map d)(etext x \<mapsto> ())"
    using dictAdd_spec [OF _ Cons.prems(3) sz, of "te_can_resize E" "()" "etext x" "()"] new by auto
  have "dictSize d' = card (dom (dict_map d'))" using d'(2) by (rule dictSize_map)
  also have "\<dots> \<le> Suc (dictSize d)"
    using d'(3) dictSize_map [OF Cons.prems(3)] by (simp add: card_insert_le_m1)
  finally have sz': "dictSize d' + length xs < 2 ^ 60" using Cons.prems(7) by simp
  have "\<exists>si'' d''. convert_loop hash E s si' d' = Some (s, si'', d'') \<and> iter_rep hash E s si'' [] \<and>
    dict_inv (setDictType hash) d'' \<and> dom (dict_map d'') = dom (dict_map d') \<union> etext ` set xs"
  proof (rule Cons.IH [OF Cons.prems(1) si'(2) d'(2) _ _ _ sz'])
    have "dom (dict_map d') = insert (etext x) (dom (dict_map d))" using d'(3) by simp
    then show "dom (dict_map d') \<inter> etext ` set xs = {}" using Cons.prems(5,6) by auto
  qed (use Cons.prems(4,5) in auto)
  then show ?case using si'(1) x d'(1,3) by (subst convert_loop.simps) auto
qed

lemma new_dict:
  shows "dict_inv (setDictType hash) (fst (dictExpand (dictInit d0) n))" "dict_map (fst (dictExpand (dictInit d0) n)) = Map.empty"
    "dictSize (fst (dictExpand (dictInit d0) n)) = 0"
proof -
  let ?d = "fst (dictExpand (dictInit d0) n)"
  have e: "dict_inv (setDictType hash) ?d \<and> entries ?d = entries (dictInit d0)" for hash
    using dictExpand_spec [OF dict_inv_init(1), of "dictInit d0" n] by (cases "dictExpand (dictInit d0) n") (metis dictExpand_spec dict_inv_init(1) fst_conv)
  then show "dict_inv (setDictType hash) ?d" by blast
  show "dict_map ?d = Map.empty" using e dict_inv_init(2) [of d0] by (simp add: dict_map_def)
  then show "dictSize ?d = 0" using dictSize_map [of "setDictType hash" ?d] e by simp
qed

lemma setTypeConvert_spec:
  assumes "set_inv hash (IntsetObj is)"
  shows "\<exists>d. setTypeConvert hash E (IntsetObj is) = Some (HtObj d) \<and> dict_inv (setDictType hash) d \<and>
    dom (dict_map d) = set_elems (IntsetObj is)"
proof -
  let ?s = "IntsetObj is" and ?d0 = "fst (dictExpand (dictInit (te_dict0 E)) (intsetLen is))"
  have n: "length (all_elems ?s) < 2 ^ 60"
    using all_elems_text(3) [OF assms] intset_inv_elems(2) [of "is"] assms by (simp add: setTypeSize_def intsetLen_def)
  have "\<exists>si' d'. convert_loop hash E ?s (setTypeInitIterator E ?s) ?d0 = Some (?s, si', d') \<and> iter_rep hash E ?s si' [] \<and>
    dict_inv (setDictType hash) d' \<and> dom (dict_map d') = dom (dict_map ?d0) \<union> etext ` set (all_elems ?s)"
    using all_elems_text(1) [OF assms] all_elems_sds [OF assms] n
    by (intro convert_loop_spec [OF assms iter_init new_dict(1)]) (auto simp: new_dict)
  then show ?thesis
    using all_elems_text(2) [OF assms] iter_release by (fastforce simp: setTypeConvert_def new_dict Let_def)
qed

section \<open>Element operations\<close>

lemma setTypeAdd_ht:
  assumes inv: "dict_inv (setDictType hash) d" and sz: "dictSize d < 2 ^ 60"
  shows "\<exists>d'. setTypeAdd hash E (HtObj d) e = Some (HtObj d', e \<notin> dom (dict_map d)) \<and> dict_inv (setDictType hash) d' \<and>
    dom (dict_map d') = insert e (dom (dict_map d))"
proof -
  obtain d' where d': "dictAdd (te_can_resize E) (setDictType hash) () d e () = Some (d', dict_map d e = None)"
    "dict_inv (setDictType hash) d'"
    "dict_map d' = (if dict_map d e = None then (dict_map d)(e \<mapsto> ()) else dict_map d)"
    using dictAdd_spec [OF _ inv sz, of "te_can_resize E" "()" e "()"] by auto
  have "setTypeAdd hash E (HtObj d) e = map_option (\<lambda>(d, ok). (HtObj d, ok)) (dictAdd (te_can_resize E) (setDictType hash) () d e ())"
    by (auto simp: setTypeAdd_def dictAdd_def split: option.splits bind_splits)
  then show ?thesis using d' by (auto simp: domIff insert_absorb)
qed

lemma setTypeAdd_intset:
  assumes inv: "intset_inv is" and sz: "len is < 2 ^ 29 - 1" and v: "isSdsRepresentableAsLongLong e = Some v"
  shows "\<exists>is'. intsetAdd (te_fresh E) is v = Some (is', e \<notin> set_elems (IntsetObj is)) \<and> intset_inv is' \<and>
    set_elems (IntsetObj is') = insert e (set_elems (IntsetObj is)) \<and> len is' = card (set_elems (IntsetObj is'))"
proof -
  note r = intset_inv_elems [OF inv]
  have v': "in_llong v" "e = dec_int v" using v by (simp_all add: ll_repr_iff)
  have c: "card (set (intset_elems is)) < 2 ^ 29 - 1" using r(1,3) sz by (simp add: distinct_card)
  obtain is' where is': "intsetAdd (te_fresh E) is v = Some (is', v \<notin> set (intset_elems is))" "intset_inv is'"
    "set (intset_elems is') = insert v (set (intset_elems is))"
    using intset.add_law [OF inv v'(1) c, of "te_fresh E"] by (auto simp: intset_ops_def)
  have m: "e \<in> set_elems (IntsetObj is) \<longleftrightarrow> v \<in> set (intset_elems is)"
    using v' r(4) dec_int_inj [OF v'(1)] by auto
  have "len is' = card (set_elems (IntsetObj is'))"
    using set_elems_card [of undefined "IntsetObj is'"] is'(2) by (simp add: setTypeSize_def intsetLen_def)
  then show ?thesis using is' m v'(2) by simp
qed

lemma setTypeAdd_spec:
  assumes inv: "set_inv hash s" and sz: "card (set_elems s) < 2 ^ 29 - 1"
  shows "\<exists>s'. setTypeAdd hash E s e = Some (s', e \<notin> set_elems s) \<and> set_inv hash s' \<and> set_elems s' = insert e (set_elems s)"
proof (cases s)
  case (HtObj d)
  then have "dictSize d < 2 ^ 60" using inv sz dictSize_map [of _ d] by auto
  then show ?thesis using setTypeAdd_ht [of hash d E e] inv HtObj by auto
next
  case (IntsetObj "is")
  have i: "intset_inv is" "len is < 2 ^ 29 - 1"
    using IntsetObj inv sz set_elems_card [OF inv] by (simp_all add: setTypeSize_def intsetLen_def)
  show ?thesis
  proof (cases "isSdsRepresentableAsLongLong e")
    case (Some v)
    obtain is' where is': "intsetAdd (te_fresh E) is v = Some (is', e \<notin> set_elems s)" "intset_inv is'"
      "set_elems (IntsetObj is') = insert e (set_elems s)"
      using setTypeAdd_intset [OF i Some, of E] IntsetObj by blast
    have inv': "set_inv hash (IntsetObj is')" using is'(2) by simp
    obtain d where "setTypeConvert hash E (IntsetObj is') = Some (HtObj d)" "dict_inv (setDictType hash) d"
      "dom (dict_map d) = insert e (set_elems s)"
      using setTypeConvert_spec [OF inv', of E] is'(3) by auto
    then show ?thesis using IntsetObj Some is' insert_absorb [of e "set_elems s"] by (auto simp: setTypeAdd_def Let_def simp del: set_elems.simps(1))
  next
    case None
    obtain d where d: "setTypeConvert hash E s = Some (HtObj d)" "dict_inv (setDictType hash) d" "dom (dict_map d) = set_elems s"
      using setTypeConvert_spec [of hash "is" E] IntsetObj inv by blast
    have new: "e \<notin> set_elems s" using IntsetObj i(1) ll_repr_None [OF None] intset_inv_elems(4) by auto
    have "dictSize d < 2 ^ 60" using dictSize_map [OF d(2)] d(3) sz by simp
    moreover have "dict_map d e = None" using new d(3) by (metis domIff)
    ultimately obtain d' where "dictAdd (te_can_resize E) (setDictType hash) () d e () = Some (d', True)"
      "dict_inv (setDictType hash) d'" "dict_map d' = (dict_map d)(e \<mapsto> ())"
      using dictAdd_spec [OF _ d(2), of "te_can_resize E" "()" e "()"] by auto
    then show ?thesis using IntsetObj None d new by (auto simp: setTypeAdd_def)
  qed
qed

lemma dictResize_spec:
  assumes "dict_inv T d"
  shows "dict_inv T (fst (dictResize c d)) \<and> dict_map (fst (dictResize c d)) = dict_map d"
proof -
  have "dict_inv T (fst (dictExpand d n)) \<and> dict_map (fst (dictExpand d n)) = dict_map d" for n
    using dictExpand_spec [OF assms, of n] by (cases "dictExpand d n") (auto simp: dict_map_def)
  then show ?thesis using assms by (simp add: dictResize_def Let_def)
qed

lemma setTypeRemove_spec:
  assumes inv: "set_inv hash s"
  shows "\<exists>s'. setTypeRemove hash E s e = Some (s', e \<in> set_elems s) \<and> set_inv hash s' \<and> set_elems s' = set_elems s - {e}"
proof (cases s)
  case (HtObj d)
  obtain d' where d': "dictGenericDelete (te_can_resize E) (setDictType hash) d e = Some (d', map_option (Pair e) (dict_map d e))"
    "dict_inv (setDictType hash) d'" "dict_map d' = (dict_map d)(e := None)"
    using dictGenericDelete_spec [of "setDictType hash" d "te_can_resize E" e] inv HtObj by auto
  then show ?thesis using HtObj dictResize_spec [OF d'(2)] by (auto simp: setTypeRemove_def dictDelete_def domIff)
next
  case (IntsetObj "is")
  note r = intset_inv_elems [of "is"]
  show ?thesis
  proof (cases "isSdsRepresentableAsLongLong e")
    case (Some v)
    then have v: "in_llong v" "e = dec_int v" by (simp_all add: ll_repr_iff)
    obtain is' where is': "intsetRemove (te_fresh E) is v = Some (is', v \<in> set (intset_elems is))" "intset_inv is'"
      "set (intset_elems is') = set (intset_elems is) - {v}"
      using intset.remove_law [OF _ v(1), of "is" "te_fresh E"] inv IntsetObj by (auto simp: intset_ops_def)
    have "e \<in> set_elems s \<longleftrightarrow> v \<in> set (intset_elems is)" "dec_int ` (set (intset_elems is) - {v}) = set_elems s - {e}"
      using IntsetObj inv v r(4) dec_int_inj [OF v(1)] dec_int_inj [OF _ v(1)] by auto
    then show ?thesis using IntsetObj Some is' by (simp add: setTypeRemove_def)
  next
    case None
    have "e \<notin> set_elems s" using IntsetObj inv ll_repr_None [OF None] r(4) by auto
    then show ?thesis using IntsetObj None inv by (auto simp: setTypeRemove_def)
  qed
qed

lemma dictFind_spec:
  assumes T: "dictType_ok T" and inv: "dict_inv T d"
  shows "\<exists>d' r. dictFind c T d k = Some (d', r) \<and> (r \<noteq> None \<longleftrightarrow> k \<in> dom (dict_map d)) \<and> dict_inv T d' \<and> dict_map d' = dict_map d"
proof -
  obtain d' where d': "dictFetchValue c T d k = Some (d', dict_map d k)" "dict_inv T d'" "dict_map d' = dict_map d"
    using dictFetchValue_spec [OF assms] by blast
  moreover from this obtain r where r: "dictFind c T d k = Some (d', r)"
    by (auto simp: dictFetchValue_def split: bind_splits option.splits)
  ultimately have "r \<noteq> None \<longleftrightarrow> k \<in> dom (dict_map d)"
    by (cases "dict_map d k") (auto simp: dictFetchValue_def split: bind_splits option.splits)
  with d' r show ?thesis by blast
qed

lemma setTypeIsMember_spec:
  assumes inv: "set_inv hash s"
  shows "\<exists>s'. setTypeIsMember hash E s e = Some (s', e \<in> set_elems s) \<and> set_inv hash s' \<and> set_elems s' = set_elems s"
proof (cases s)
  case (HtObj d)
  then show ?thesis using dictFind_spec [of "setDictType hash" d "te_can_resize E" e] inv by (auto simp: setTypeIsMember_def)
next
  case (IntsetObj "is")
  note r = intset_inv_elems [of "is"]
  show ?thesis
  proof (cases "isSdsRepresentableAsLongLong e")
    case (Some v)
    then have v: "in_llong v" "e = dec_int v" by (simp_all add: ll_repr_iff)
    have "intsetFind is v = Some (v \<in> set (intset_elems is))"
      using intset.member_law [OF _ v(1), of "is"] inv IntsetObj by (auto simp: intset_ops_def)
    moreover have "e \<in> set_elems s \<longleftrightarrow> v \<in> set (intset_elems is)"
      using IntsetObj inv v r(4) dec_int_inj [OF v(1)] by auto
    ultimately show ?thesis using IntsetObj inv Some by (simp add: setTypeIsMember_def)
  next
    case None
    have "e \<notin> set_elems s" using IntsetObj inv ll_repr_None [OF None] r(4) by auto
    then show ?thesis using IntsetObj None inv by (auto simp: setTypeIsMember_def)
  qed
qed

section \<open>Duplication\<close>

lemma intset_blob_copy:
  assumes "intset_inv is"
  shows "intsetOfBlob (take (intsetBlobLen is) (intsetBlob is)) = is"
proof -
  have r: "enc_ok (encoding is)" "len is < 2 ^ 29" "contents is = packed (encoding is) (intset_elems is)"
    using assms by (simp_all add: intset_inv_def intset_rep_def)
  have e: "encoding is < 256 ^ 4" using r(1) by (auto simp: enc_ok_def)
  have "length (contents is) = len is * encoding is"
    using r(3) intset_inv_elems(1) [OF assms] by (simp add: mult.commute)
  then have t: "take (intsetBlobLen is) (intsetBlob is) = intsetBlob is"
    by (simp add: intsetBlobLen_def intsetBlob_def)
  show ?thesis unfolding t using e r(2) by (simp add: intsetOfBlob_def intsetBlob_def le_simps)
qed

lemma dup_loop_spec:
  assumes "set_inv hash s" "iter_rep hash E s si xs" "dict_inv (setDictType hash) d" "\<forall>x \<in> set xs. \<exists>t. x = SdsEle t"
    "dictSize d + length xs < 2 ^ 60"
  shows "\<exists>si' d'. dup_loop hash E s si (HtObj d) = Some (s, si', HtObj d') \<and> iter_rep hash E s si' [] \<and>
    dict_inv (setDictType hash) d' \<and> dom (dict_map d') = dom (dict_map d) \<union> etext ` set xs"
  using assms
proof (induction xs arbitrary: si d)
  case Nil
  then show ?case using iter_next [OF Nil(1,2)] by (subst dup_loop.simps) auto
next
  case (Cons x xs)
  obtain t where t: "x = SdsEle t" using Cons.prems(4) by auto
  obtain si' where si': "setTypeNext E s si = Some (s, si', Some x)" "iter_rep hash E s si' xs"
    using iter_next [OF Cons.prems(1,2)] by auto
  obtain d' r where d': "setTypeAdd hash E (HtObj d) t = Some (HtObj d', r)" "dict_inv (setDictType hash) d'"
    "dom (dict_map d') = insert t (dom (dict_map d))"
    using setTypeAdd_ht [OF Cons.prems(3), of E t] Cons.prems(5) by auto
  have "dictSize d' \<le> Suc (dictSize d)"
    using dictSize_map [OF d'(2)] dictSize_map [OF Cons.prems(3)] d'(3) by (simp add: card_insert_le_m1)
  then have "dictSize d' + length xs < 2 ^ 60" using Cons.prems(5) by simp
  from Cons.IH [OF Cons.prems(1) si'(2) d'(2) _ this] Cons.prems(4) show ?case
    using si'(1) t d' by (subst dup_loop.simps) auto
qed

lemma setTypeDup_spec:
  assumes inv: "set_inv hash s" and sz: "setTypeSize s < 2 ^ 60"
  shows "\<exists>s'. setTypeDup hash E s = Some (s, s') \<and> set_inv hash s' \<and> set_elems s' = set_elems s \<and>
    ((\<exists>is. s = IntsetObj is) \<longleftrightarrow> (\<exists>is. s' = IntsetObj is))"
proof (cases s)
  case (IntsetObj "is")
  then show ?thesis using inv intset_blob_copy [of "is"] by (simp add: setTypeDup_def)
next
  case (HtObj d)
  let ?d0 = "fst (dictExpand (dictInit (te_dict0 E)) (dictSize d))"
  have "length (all_elems s) < 2 ^ 60" using sz all_elems_text(3) [OF inv] by simp
  then have "\<exists>si' d'. dup_loop hash E s (setTypeInitIterator E s) (HtObj ?d0) = Some (s, si', HtObj d') \<and> iter_rep hash E s si' [] \<and>
    dict_inv (setDictType hash) d' \<and> dom (dict_map d') = dom (dict_map ?d0) \<union> etext ` set (all_elems s)"
    using HtObj by (intro dup_loop_spec [OF inv iter_init new_dict(1)]) (auto simp: all_elems_def new_dict(3))
  then obtain si' d' where "dup_loop hash E s (setTypeInitIterator E s) (HtObj ?d0) = Some (s, si', HtObj d')"
    "iter_rep hash E s si' []" "dict_inv (setDictType hash) d'" "dom (dict_map d') = set_elems s"
    using all_elems_text(2) [OF inv] by (auto simp: new_dict)
  then show ?thesis using HtObj iter_release by (auto simp: setTypeDup_def Let_def)
qed

section \<open>Set objects as an implementation of sets\<close>

definition tset_ops :: "(buffer \<Rightarrow> 64 word) \<Rightarrow> (tset_env, set_obj, buffer) set_ops" where
  "tset_ops hash = \<lparr>st_add = setTypeAdd hash, st_remove = setTypeRemove hash, st_member = setTypeIsMember hash\<rparr>"

interpretation tset: set_store "set_inv hash" set_elems "\<lambda>_. True" "2 ^ 29 - 1" "tset_ops hash" for hash
proof
  fix s c e
  assume inv: "set_inv hash s"
  show "finite (set_elems s)" using set_elems_card [OF inv] by blast
  show "\<exists>s'. st_remove (tset_ops hash) c s e = Some (s', e \<in> set_elems s) \<and> set_inv hash s' \<and> set_elems s' = set_elems s - {e}"
    using setTypeRemove_spec [OF inv] by (simp add: tset_ops_def)
  show "\<exists>s'. st_member (tset_ops hash) c s e = Some (s', e \<in> set_elems s) \<and> set_inv hash s' \<and> set_elems s' = set_elems s"
    using setTypeIsMember_spec [OF inv] by (simp add: tset_ops_def)
  assume "card (set_elems s) < 2 ^ 29 - 1"
  then show "\<exists>s'. st_add (tset_ops hash) c s e = Some (s', e \<notin> set_elems s) \<and> set_inv hash s' \<and> set_elems s' = insert e (set_elems s)"
    using setTypeAdd_spec [OF inv] by (simp add: tset_ops_def)
qed

lemma intsetNew_inv: "intset_inv intsetNew" "intset_elems intsetNew = []" "len intsetNew = 0"
  by (simp_all add: intset_inv_def intset_rep_def intsetNew_def intset_elems_def enc_ok_def INTSET_ENC_INT16_def)

lemma createSetObject_inv:
  "set_inv hash (createSetObject E)" "set_elems (createSetObject E) = {}" "setTypeSize (createSetObject E) = 0"
  by (simp_all add: createSetObject_def dict_inv_init setTypeSize_def)
    (simp add: dictInit_def dictReset_def dictSize_def)

lemma setTypeCreate_inv: "set_inv hash (setTypeCreate E v)" "set_elems (setTypeCreate E v) = {}"
  by (simp_all add: setTypeCreate_def createIntsetObject_def createSetObject_def intsetNew_inv dict_inv_init)

section \<open>Properties\<close>

text \<open>
  C20: A set object created for its first member behaves as a set of byte strings under every sequence of
  additions, removals and membership tests, whichever encoding it has and whenever it is converted from an
  intset to a hash table; its size is the number of members. The bound on the length of the sequence is the number
  of elements up to which intsets work.
\<close>

theorem tset_refines_set:
  assumes "length ps \<le> 2 ^ 29 - 1"
  shows "\<exists>s rs. set_run (tset_ops hash) (setTypeCreate E v) ps = Some (s, rs) \<and> set_inv hash s \<and>
    aset_run {} (map snd ps) = (set_elems s, rs) \<and> setTypeSize s = card (set_elems s)"
  using tset.set_run_refines [OF setTypeCreate_inv(1) [of hash E v], of ps] assms set_elems_card
  by (fastforce simp: setTypeCreate_inv)

definition demo_env :: tset_env where
  "demo_env = \<lparr>te_can_resize = DICT_RESIZE_ENABLE, te_fresh = \<lambda>_. 0, te_max_intset = 512,
     te_dict0 = \<lparr>ht_table = \<lambda>_. None, ht_used = \<lambda>_. 3, rehashidx = 5, pauserehash = 1, ht_size_exp = \<lambda>_. 9\<rparr>,
     te_addr = \<lambda>_. 64, te_fp0 = 0\<rparr>"

theorem tset_refines_set_witness:
  "\<exists>s rs. set_run (tset_ops (\<lambda>k. of_nat (length k))) (setTypeCreate demo_env [49])
      [(demo_env, SetAdd [49]), (demo_env, SetAdd [97]), (demo_env, SetRemove [49]), (demo_env, SetMember [97])] = Some (s, rs) \<and>
     set_elems s = {[97]} \<and> rs = [True, True, True, True]"
  using tset_refines_set [of "[(demo_env, SetAdd [49]), (demo_env, SetAdd [97]), (demo_env, SetRemove [49]), (demo_env, SetMember [97])]"
      "\<lambda>k. of_nat (length k)" demo_env "[49]"]
  by (auto simp: insert_Diff_if simp del: set_run.simps)

text \<open>
  C23: Adding to an intset-encoded set keeps the encoding exactly if the element is the decimal text of a 64-bit
  integer and the set stays within \<open>set_max_intset_entries\<close> (and within \<open>2 ^ 30\<close>); otherwise the object becomes a
  hash table with the same members. The set has fewer than \<open>2 ^ 29 - 1\<close> members.
\<close>

theorem setTypeAdd_encoding:
  assumes inv: "set_inv hash (IntsetObj is)" and sz: "len is < 2 ^ 29 - 1"
  shows "\<exists>s r. setTypeAdd hash E (IntsetObj is) e = Some (s, r) \<and> set_elems s = insert e (set_elems (IntsetObj is)) \<and>
    ((\<exists>is'. s = IntsetObj is') \<longleftrightarrow>
      (\<exists>v. in_llong v \<and> e = dec_int v) \<and>
      (e \<in> set_elems (IntsetObj is) \<or> len is + 1 \<le> min (te_max_intset E) (2 ^ 30)))"
proof -
  have c: "card (set_elems (IntsetObj is)) = len is" "finite (set_elems (IntsetObj is))"
    using set_elems_card [OF inv] by (simp_all add: setTypeSize_def intsetLen_def)
  obtain s where s: "setTypeAdd hash E (IntsetObj is) e = Some (s, e \<notin> set_elems (IntsetObj is))"
    "set_elems s = insert e (set_elems (IntsetObj is))"
    using setTypeAdd_spec [OF inv, of E e] sz c by auto
  have "(\<exists>is'. s = IntsetObj is') \<longleftrightarrow> (\<exists>v. in_llong v \<and> e = dec_int v) \<and>
      (e \<in> set_elems (IntsetObj is) \<or> len is + 1 \<le> min (te_max_intset E) (2 ^ 30))"
  proof (cases "isSdsRepresentableAsLongLong e")
    case None
    then have "\<not> (\<exists>v. in_llong v \<and> e = dec_int v)" using ll_repr_None by blast
    with s(1) None show ?thesis by (auto simp: setTypeAdd_def split: bind_splits if_splits set_obj.splits)
  next
    case (Some v)
    then have v: "in_llong v \<and> e = dec_int v" by (simp add: ll_repr_iff)
    obtain is' where is': "intsetAdd (te_fresh E) is v = Some (is', e \<notin> set_elems (IntsetObj is))" "intset_inv is'"
      "set_elems (IntsetObj is') = insert e (set_elems (IntsetObj is))" "len is' = card (set_elems (IntsetObj is'))"
      using setTypeAdd_intset [OF _ sz Some, of E] inv by auto
    have l: "e \<notin> set_elems (IntsetObj is) \<Longrightarrow> len is' = len is + 1" using is'(3,4) c by simp
    obtain d where "setTypeConvert hash E (IntsetObj is') = Some (HtObj d)"
      using setTypeConvert_spec [of hash is' E] is'(2) by auto
    with s(1) Some v is'(1) l show ?thesis
      by (auto simp: setTypeAdd_def Let_def intsetLen_def min_def simp del: set_elems.simps split: if_splits)
  qed
  with s show ?thesis by blast
qed

theorem setTypeAdd_encoding_witness:
  "\<exists>s r. setTypeAdd (\<lambda>_. 0) (demo_env\<lparr>te_max_intset := 0\<rparr>) (IntsetObj intsetNew) [55] = Some (s, r) \<and>
     \<not> (\<exists>is'. s = IntsetObj is')"
  using setTypeAdd_encoding [of "\<lambda>_. 0" intsetNew "demo_env\<lparr>te_max_intset := 0\<rparr>" "[55]"]
  by (auto simp: intsetNew_inv)

text \<open>
  C24: Duplicating a set object gives an object with the same encoding and the same members, leaves the original as it is,
  and its iterator passes its fingerprint check. The set has fewer than \<open>2 ^ 60\<close> members.
\<close>

theorem setTypeDup_copy:
  assumes "set_inv hash s" "setTypeSize s < 2 ^ 60"
  shows "\<exists>s'. setTypeDup hash E s = Some (s, s') \<and> set_inv hash s' \<and> set_elems s' = set_elems s \<and>
    ((\<exists>is. s = IntsetObj is) \<longleftrightarrow> (\<exists>is. s' = IntsetObj is))"
  using assms by (rule setTypeDup_spec)

theorem setTypeDup_copy_witness:
  "\<exists>s'. setTypeDup (\<lambda>_. 0) demo_env (createSetObject demo_env) = Some (createSetObject demo_env, s') \<and> set_elems s' = {}"
  using setTypeDup_copy [of "\<lambda>_. 0" "createSetObject demo_env" demo_env]
  by (simp add: createSetObject_inv) blast

end
