(* ===== verification/RedisSetCommands.thy ===== *)
theory RedisSetCommands
  imports RedisSetType "HOL-Library.Multiset"
begin

text \<open>
  The set algebra of \<open>t_set.c\<close>: \<open>sinterGenericCommand\<close> (SINTER, SINTERSTORE, SINTERCARD) and
  \<open>sunionDiffGenericCommand\<close> (SUNION, SDIFF and their STORE forms) from the objects found for the keys to
  the reply or to the set to be stored. The objects live in a store \<open>h\<close> and the array \<open>sets\<close> holds
  references to it, because the same object may be named by several keys and because looking an element up in a hash
  table can move entries (a rehash step), which must not happen to the object under iteration.
  \<open>qs\<close> is \<open>qsort\<close> with the key it sorts by.
\<close>

section \<open>Looking up the arguments\<close>

datatype key_lookup = NoKey | WrongType | SetAt nat

text \<open>The first loop of both commands: \<open>None\<close> is the error reply of \<open>checkType\<close>.\<close>

fun lookup_sets :: "key_lookup list \<Rightarrow> nat option list option" where
  "lookup_sets [] = Some []"
| "lookup_sets (k # ks) =
     (case k of
        NoKey \<Rightarrow> map_option (Cons None) (lookup_sets ks)
      | WrongType \<Rightarrow> None
      | SetAt i \<Rightarrow> map_option (Cons (Some i)) (lookup_sets ks))"

definition obj_size :: "set_obj list \<Rightarrow> nat option \<Rightarrow> nat" where
  "obj_size h r = (case r of None \<Rightarrow> 0 | Some i \<Rightarrow> setTypeSize (h ! i))"

section \<open>Intersection\<close>

datatype inter_mode = InterReply | InterCard nat | InterStore

record inter_state =
  in_dst :: set_obj
  in_reply :: "set_elem list"
  in_card :: nat

text \<open>The inner loop: the element against the other sets.\<close>

fun inter_test ::
  "(buffer \<Rightarrow> 64 word) \<Rightarrow> tset_env \<Rightarrow> set_obj list \<Rightarrow> nat \<Rightarrow> set_elem \<Rightarrow> nat list \<Rightarrow> (set_obj list \<times> bool) option" where
  "inter_test hash E h s0 e [] = Some (h, True)"
| "inter_test hash E h s0 e (j # js) =
     (if j = s0 then inter_test hash E h s0 e js
      else do {
        obj \<leftarrow> rd h (int j);
        (obj, found) \<leftarrow>
          (case e of
             LlEle v \<Rightarrow>
               (case obj of
                  IntsetObj is \<Rightarrow> map_option (Pair obj) (intsetFind is v)
                | HtObj _ \<Rightarrow> do { s \<leftarrow> ll_text v; setTypeIsMember hash E obj s })
           | SdsEle s \<Rightarrow> setTypeIsMember hash E obj s);
        h \<leftarrow> wr h (int j) obj;
        if found then inter_test hash E h s0 e js else Some (h, False)
      })"

text \<open>What is done with an element of all the sets; the flag is the \<open>break\<close> at the limit.\<close>

definition inter_take ::
  "(buffer \<Rightarrow> 64 word) \<Rightarrow> tset_env \<Rightarrow> inter_mode \<Rightarrow> inter_state \<Rightarrow> set_elem \<Rightarrow> (inter_state \<times> bool) option" where
  "inter_take hash E m st e =
     (case m of
        InterCard limit \<Rightarrow>
          (let st = st\<lparr>in_card := in_card st + 1\<rparr> in Some (st, limit \<noteq> 0 \<and> in_card st \<ge> limit))
      | InterReply \<Rightarrow> Some (st\<lparr>in_reply := in_reply st @ [e], in_card := in_card st + 1\<rparr>, False)
      | InterStore \<Rightarrow> do {
          s \<leftarrow> elem_sds e;
          (d, _) \<leftarrow> setTypeAdd hash E (in_dst st) s;
          Some (st\<lparr>in_dst := d\<rparr>, False)
        })"

partial_function (option) inter_loop ::
  "(buffer \<Rightarrow> 64 word) \<Rightarrow> tset_env \<Rightarrow> inter_mode \<Rightarrow> set_obj list \<Rightarrow> nat \<Rightarrow> nat list \<Rightarrow> set_iter \<Rightarrow> inter_state \<Rightarrow>
    (set_obj list \<times> set_iter \<times> inter_state) option" where
  "inter_loop hash E m h s0 js si st = do {
     obj \<leftarrow> rd h (int s0);
     (obj, si, e) \<leftarrow> setTypeNext E obj si;
     h \<leftarrow> wr h (int s0) obj;
     case e of
       None \<Rightarrow> Some (h, si, st)
     | Some e \<Rightarrow> do {
         (h, every) \<leftarrow> inter_test hash E h s0 e js;
         if every then do {
           (st, stop) \<leftarrow> inter_take hash E m st e;
           if stop then Some (h, si, st) else inter_loop hash E m h s0 js si st
         }
         else inter_loop hash E m h s0 js si st
       }
   }"

definition sinterGenericCommand ::
  "(buffer \<Rightarrow> 64 word) \<Rightarrow> tset_env \<Rightarrow> ((nat \<Rightarrow> nat) \<Rightarrow> nat list \<Rightarrow> nat list) \<Rightarrow> inter_mode \<Rightarrow> set_obj list \<Rightarrow>
    key_lookup list \<Rightarrow> (set_obj list \<times> inter_state option) option" where
  "sinterGenericCommand hash E qs m h keys =
     (let st = \<lparr>in_dst = createIntsetObject, in_reply = [], in_card = 0\<rparr> in
      case lookup_sets keys of
        None \<Rightarrow> Some (h, None)
      | Some refs \<Rightarrow>
          (if None \<in> set refs then Some (h, Some st)
           else (case qs (\<lambda>i. setTypeSize (h ! i)) (map the refs) of
                   [] \<Rightarrow> None
                 | s0 # js \<Rightarrow> do {
                     obj \<leftarrow> rd h (int s0);
                     (h, si, st) \<leftarrow> inter_loop hash E m h s0 js (setTypeInitIterator E obj) st;
                     obj \<leftarrow> rd h (int s0);
                     obj \<leftarrow> setTypeReleaseIterator E obj si;
                     h \<leftarrow> wr h (int s0) obj;
                     Some (h, Some st)
                   })))"

section \<open>Union and difference\<close>

text \<open>Adding every element of a set to the target, or removing it from there.\<close>

partial_function (option) apply_all ::
  "(buffer \<Rightarrow> 64 word) \<Rightarrow> tset_env \<Rightarrow> bool \<Rightarrow> set_obj list \<Rightarrow> nat \<Rightarrow> set_iter \<Rightarrow> set_obj \<Rightarrow> int \<Rightarrow>
    (set_obj list \<times> set_iter \<times> set_obj \<times> int) option" where
  "apply_all hash E add h j si dst cardinality = do {
     obj \<leftarrow> rd h (int j);
     (obj, si, ele) \<leftarrow> setTypeNextObject E obj si;
     h \<leftarrow> wr h (int j) obj;
     case ele of
       None \<Rightarrow> Some (h, si, dst, cardinality)
     | Some ele \<Rightarrow> do {
         (dst, cardinality) \<leftarrow>
           (if add then do { (d, ok) \<leftarrow> setTypeAdd hash E dst ele; Some (d, if ok then cardinality + 1 else cardinality) }
            else do { (d, ok) \<leftarrow> setTypeRemove hash E dst ele; Some (d, if ok then cardinality - 1 else cardinality) });
         apply_all hash E add h j si dst cardinality
       }
   }"

definition apply_set ::
  "(buffer \<Rightarrow> 64 word) \<Rightarrow> tset_env \<Rightarrow> bool \<Rightarrow> set_obj list \<Rightarrow> nat \<Rightarrow> set_obj \<Rightarrow> int \<Rightarrow> (set_obj list \<times> set_obj \<times> int) option" where
  "apply_set hash E add h j dst cardinality = do {
     obj \<leftarrow> rd h (int j);
     (h, si, dst, cardinality) \<leftarrow> apply_all hash E add h j (setTypeInitIterator E obj) dst cardinality;
     obj \<leftarrow> rd h (int j);
     obj \<leftarrow> setTypeReleaseIterator E obj si;
     h \<leftarrow> wr h (int j) obj;
     Some (h, dst, cardinality)
   }"

fun union_loop ::
  "(buffer \<Rightarrow> 64 word) \<Rightarrow> tset_env \<Rightarrow> set_obj list \<Rightarrow> nat option list \<Rightarrow> set_obj \<Rightarrow> int \<Rightarrow> (set_obj list \<times> set_obj \<times> int) option" where
  "union_loop hash E h [] dst cardinality = Some (h, dst, cardinality)"
| "union_loop hash E h (r # rs) dst cardinality =
     (case r of
        None \<Rightarrow> union_loop hash E h rs dst cardinality
      | Some j \<Rightarrow> do {
          (h, dst, cardinality) \<leftarrow> apply_set hash E True h j dst cardinality;
          union_loop hash E h rs dst cardinality
        })"

text \<open>DIFF algorithm 1: the element against the other sets, then the loop over the first set.\<close>

fun diff_test ::
  "(buffer \<Rightarrow> 64 word) \<Rightarrow> tset_env \<Rightarrow> set_obj list \<Rightarrow> nat \<Rightarrow> buffer \<Rightarrow> nat option list \<Rightarrow> (set_obj list \<times> bool) option" where
  "diff_test hash E h s0 ele [] = Some (h, True)"
| "diff_test hash E h s0 ele (r # rs) =
     (case r of
        None \<Rightarrow> diff_test hash E h s0 ele rs
      | Some j \<Rightarrow>
          (if j = s0 then Some (h, False)
           else do {
             obj \<leftarrow> rd h (int j);
             (obj, found) \<leftarrow> setTypeIsMember hash E obj ele;
             h \<leftarrow> wr h (int j) obj;
             if found then Some (h, False) else diff_test hash E h s0 ele rs
           }))"

partial_function (option) diff1_loop ::
  "(buffer \<Rightarrow> 64 word) \<Rightarrow> tset_env \<Rightarrow> set_obj list \<Rightarrow> nat \<Rightarrow> nat option list \<Rightarrow> set_iter \<Rightarrow> set_obj \<Rightarrow> int \<Rightarrow>
    (set_obj list \<times> set_iter \<times> set_obj \<times> int) option" where
  "diff1_loop hash E h s0 rs si dst cardinality = do {
     obj \<leftarrow> rd h (int s0);
     (obj, si, ele) \<leftarrow> setTypeNextObject E obj si;
     h \<leftarrow> wr h (int s0) obj;
     case ele of
       None \<Rightarrow> Some (h, si, dst, cardinality)
     | Some ele \<Rightarrow> do {
         (h, alone) \<leftarrow> diff_test hash E h s0 ele rs;
         if alone then do {
           (dst, _) \<leftarrow> setTypeAdd hash E dst ele;
           diff1_loop hash E h s0 rs si dst (cardinality + 1)
         }
         else diff1_loop hash E h s0 rs si dst cardinality
       }
   }"

definition diff1 ::
  "(buffer \<Rightarrow> 64 word) \<Rightarrow> tset_env \<Rightarrow> set_obj list \<Rightarrow> nat \<Rightarrow> nat option list \<Rightarrow> set_obj \<Rightarrow> (set_obj list \<times> set_obj \<times> int) option" where
  "diff1 hash E h s0 rs dst = do {
     obj \<leftarrow> rd h (int s0);
     (h, si, dst, cardinality) \<leftarrow> diff1_loop hash E h s0 rs (setTypeInitIterator E obj) dst 0;
     obj \<leftarrow> rd h (int s0);
     obj \<leftarrow> setTypeReleaseIterator E obj si;
     h \<leftarrow> wr h (int s0) obj;
     Some (h, dst, cardinality)
   }"

text \<open>DIFF algorithm 2: \<open>first\<close> is \<open>j == 0\<close>.\<close>

fun diff2_loop ::
  "(buffer \<Rightarrow> 64 word) \<Rightarrow> tset_env \<Rightarrow> bool \<Rightarrow> set_obj list \<Rightarrow> nat option list \<Rightarrow> set_obj \<Rightarrow> int \<Rightarrow>
    (set_obj list \<times> set_obj \<times> int) option" where
  "diff2_loop hash E first h [] dst cardinality = Some (h, dst, cardinality)"
| "diff2_loop hash E first h (r # rs) dst cardinality =
     (case r of
        None \<Rightarrow> diff2_loop hash E False h rs dst cardinality
      | Some j \<Rightarrow> do {
          (h, dst, cardinality) \<leftarrow> apply_set hash E first h j dst cardinality;
          if cardinality = 0 then Some (h, dst, cardinality) else diff2_loop hash E False h rs dst cardinality
        })"

definition diff_algo :: "set_obj list \<Rightarrow> nat option list \<Rightarrow> nat" where
  "diff_algo h refs =
     (let present = filter (\<lambda>r. r \<noteq> None) refs;
          algo_one_work = sum_list (map (\<lambda>r. obj_size h (hd refs)) present);
          algo_two_work = sum_list (map (obj_size h) present);
          algo_one_work = algo_one_work div 2
      in if algo_one_work \<le> algo_two_work then 1 else 2)"

datatype set_oper = SET_OP_UNION | SET_OP_DIFF

text \<open>The result is the target set with its number of members.\<close>

definition sunionDiffGenericCommand ::
  "(buffer \<Rightarrow> 64 word) \<Rightarrow> tset_env \<Rightarrow> ((nat option \<Rightarrow> nat) \<Rightarrow> nat option list \<Rightarrow> nat option list) \<Rightarrow> set_oper \<Rightarrow> set_obj list \<Rightarrow>
    key_lookup list \<Rightarrow> (set_obj list \<times> (set_obj \<times> int) option) option" where
  "sunionDiffGenericCommand hash E qs oper h keys =
     (case lookup_sets keys of
        None \<Rightarrow> Some (h, None)
      | Some refs \<Rightarrow>
          (let sameset = (refs \<noteq> [] \<and> hd refs \<noteq> None \<and> hd refs \<in> set (tl refs));
               pick = (oper = SET_OP_DIFF \<and> refs \<noteq> [] \<and> hd refs \<noteq> None \<and> \<not> sameset);
               algo = (if pick then diff_algo h refs else 1);
               refs = (if pick \<and> algo = 1 \<and> length refs > 1 then hd refs # qs (obj_size h) (tl refs) else refs);
               dst = createIntsetObject
           in do {
             (h, dst, cardinality) \<leftarrow>
               (if oper = SET_OP_UNION then union_loop hash E h refs dst 0
                else if sameset then Some (h, dst, 0)
                else (case refs of
                        Some s0 # rs \<Rightarrow>
                          if algo = 1 then diff1 hash E h s0 rs dst else diff2_loop hash E True h refs dst 0
                      | _ \<Rightarrow> Some (h, dst, 0)));
             Some (h, Some (dst, cardinality))
           }))"

section \<open>The store of objects\<close>

definition heap_ok :: "(buffer \<Rightarrow> 64 word) \<Rightarrow> set_obj list \<Rightarrow> bool" where
  "heap_ok hash h \<longleftrightarrow> (\<forall>s \<in> set h. set_inv hash s)"

text \<open>Two stores with the same members; the object under iteration is untouched.\<close>

definition same_sets :: "(buffer \<Rightarrow> 64 word) \<Rightarrow> nat \<Rightarrow> set_obj list \<Rightarrow> set_obj list \<Rightarrow> bool" where
  "same_sets hash s0 h h' \<longleftrightarrow> heap_ok hash h' \<and> map set_elems h' = map set_elems h \<and> h' ! s0 = h ! s0"

lemma same_sets_refl: "heap_ok hash h \<Longrightarrow> same_sets hash s0 h h"
  by (simp add: same_sets_def)

lemma same_sets_trans: "same_sets hash s0 h h1 \<Longrightarrow> same_sets hash s0 h1 h2 \<Longrightarrow> same_sets hash s0 h h2"
  by (simp add: same_sets_def)

lemma same_sets_length: "same_sets hash s0 h h' \<Longrightarrow> length h' = length h"
  by (metis same_sets_def length_map)

lemma same_sets_elems: "same_sets hash s0 h h' \<Longrightarrow> j < length h \<Longrightarrow> set_elems (h' ! j) = set_elems (h ! j)"
  by (metis same_sets_def same_sets_length nth_map)

lemma heap_ok_nth: "heap_ok hash h \<Longrightarrow> j < length h \<Longrightarrow> set_inv hash (h ! j)"
  by (simp add: heap_ok_def)

lemma heap_update:
  assumes "heap_ok hash h" "j < length h" "set_inv hash s" "set_elems s = set_elems (h ! j)" "j \<noteq> s0"
  shows "wr h (int j) s = Some (h[j := s])" "same_sets hash s0 h (h[j := s])"
proof -
  show "wr h (int j) s = Some (h[j := s])" using assms(2) by (simp add: mem_simps)
  have "map set_elems (h[j := s]) = map set_elems h" using assms(2,4) by (simp add: map_update list_update_same_conv)
  moreover have "heap_ok hash (h[j := s])" using assms(1,3) set_update_subset_insert by (fastforce simp: heap_ok_def)
  ultimately show "same_sets hash s0 h (h[j := s])" using assms(5) by (simp add: same_sets_def)
qed

text \<open>One lookup in an object of the store.\<close>

lemma lookup_member:
  assumes "heap_ok hash h" "j < length h" "j \<noteq> s0"
  shows "\<exists>s. rd h (int j) = Some (h ! j) \<and> setTypeIsMember hash E (h ! j) e = Some (s, e \<in> set_elems (h ! j)) \<and>
    wr h (int j) s = Some (h[j := s]) \<and> same_sets hash s0 h (h[j := s])"
  using setTypeIsMember_spec [OF heap_ok_nth [OF assms(1,2)], of E e] heap_update [OF assms(1,2) _ _ assms(3)] assms(2)
  by (metis rd_nat)

section \<open>Intersection\<close>

definition inter_hit :: "set_obj list \<Rightarrow> nat \<Rightarrow> nat list \<Rightarrow> set_elem \<Rightarrow> bool" where
  "inter_hit h s0 js x \<longleftrightarrow> (\<forall>j \<in> set js. j = s0 \<or> etext x \<in> set_elems (h ! j))"

lemma inter_test_spec:
  assumes "heap_ok hash h" "s0 < length h" "\<forall>j \<in> set js. j < length h" "elem_sds e = Some (etext e)"
    "\<And>v. e = LlEle v \<Longrightarrow> in_llong v"
  shows "\<exists>h'. inter_test hash E h s0 e js = Some (h', \<forall>j \<in> set js. j = s0 \<or> etext e \<in> set_elems (h ! j)) \<and> same_sets hash s0 h h'"
  using assms
proof (induction js arbitrary: h)
  case Nil
  then show ?case by (simp add: same_sets_refl)
next
  case (Cons j js)
  show ?case
  proof (cases "j = s0")
    case True
    then show ?thesis using Cons.IH [OF Cons.prems(1,2) _ Cons.prems(4,5)] Cons.prems(3) by simp
  next
    case False
    have j: "j < length h" using Cons.prems(3) by simp
    obtain s where s: "rd h (int j) = Some (h ! j)" "setTypeIsMember hash E (h ! j) (etext e) = Some (s, etext e \<in> set_elems (h ! j))"
      "wr h (int j) s = Some (h[j := s])" "same_sets hash s0 h (h[j := s])"
      using lookup_member [OF Cons.prems(1) j False] by blast
    have t: "(case e of
             LlEle v \<Rightarrow>
               (case h ! j of
                  IntsetObj is \<Rightarrow> map_option (Pair (h ! j)) (intsetFind is v)
                | HtObj _ \<Rightarrow> do { s \<leftarrow> ll_text v; setTypeIsMember hash E (h ! j) s })
           | SdsEle s \<Rightarrow> setTypeIsMember hash E (h ! j) s) = setTypeIsMember hash E (h ! j) (etext e)"
    proof (cases e)
      case (LlEle v)
      then have "isSdsRepresentableAsLongLong (dec_int v) = Some v" using Cons.prems(5) by (simp add: ll_repr_iff)
      with LlEle Cons.prems(4) show ?thesis by (cases "h ! j") (simp_all add: elem_sds_def setTypeIsMember_def)
    qed simp
    let ?h = "h[j := s]"
    have eq: "set_elems (?h ! k) = set_elems (h ! k)" if "k < length h" for k using same_sets_elems [OF s(4) that] .
    have ih: "\<exists>h'. inter_test hash E ?h s0 e js = Some (h', \<forall>k \<in> set js. k = s0 \<or> etext e \<in> set_elems (?h ! k)) \<and> same_sets hash s0 ?h h'"
      using Cons.prems s(4) by (intro Cons.IH) (auto simp: same_sets_def)
    have "(\<forall>k \<in> set js. k = s0 \<or> etext e \<in> set_elems (?h ! k)) \<longleftrightarrow> (\<forall>k \<in> set js. k = s0 \<or> etext e \<in> set_elems (h ! k))"
      using Cons.prems(3) eq by auto
    with ih False s t show ?thesis by (auto simp: eq intro: same_sets_trans)
  qed
qed

fun take_all ::
  "(buffer \<Rightarrow> 64 word) \<Rightarrow> tset_env \<Rightarrow> inter_mode \<Rightarrow> inter_state \<Rightarrow> set_elem list \<Rightarrow> inter_state option" where
  "take_all hash E m st [] = Some st"
| "take_all hash E m st (x # xs) = do {
     (st, stop) \<leftarrow> inter_take hash E m st x;
     if stop then Some st else take_all hash E m st xs
   }"

lemma inter_loop_spec:
  assumes "heap_ok hash h" "s0 < length h" "\<forall>j \<in> set js. j < length h" "iter_rep hash E (h ! s0) si xs"
    "set xs \<subseteq> set (all_elems (h ! s0))"
    "take_all hash E m st (filter (inter_hit h s0 js) xs) = Some st'"
  shows "\<exists>h' si' ys. inter_loop hash E m h s0 js si st = Some (h', si', st') \<and> same_sets hash s0 h h' \<and> iter_rep hash E (h ! s0) si' ys"
  using assms
proof (induction xs arbitrary: h si st)
  case Nil
  have "rd h (int s0) = Some (h ! s0)" "wr h (int s0) (h ! s0) = Some h" using Nil.prems(2) by (simp_all add: mem_simps)
  then show ?case
    using iter_next [OF heap_ok_nth [OF Nil.prems(1,2)] Nil.prems(4)] Nil.prems same_sets_refl [OF Nil.prems(1), of s0]
    by (subst inter_loop.simps) auto
next
  case (Cons x xs)
  let ?P = "\<lambda>h. inter_hit h s0 js"
  have inv: "set_inv hash (h ! s0)" using heap_ok_nth [OF Cons.prems(1,2)] .
  have m: "rd h (int s0) = Some (h ! s0)" "wr h (int s0) (h ! s0) = Some h" using Cons.prems(2) by (simp_all add: mem_simps)
  obtain si' where si': "setTypeNext E (h ! s0) si = Some (h ! s0, si', Some x)" "iter_rep hash E (h ! s0) si' xs"
    using iter_next [OF inv Cons.prems(4)] by auto
  have x: "x \<in> set (all_elems (h ! s0))" using Cons.prems(5) by simp
  have "in_llong v" if "x = LlEle v" for v
    using x that inv intset_inv_elems(4) by (cases "h ! s0") (auto simp: all_elems_def)
  then obtain h1 where h1: "inter_test hash E h s0 x js = Some (h1, ?P h x)" "same_sets hash s0 h h1"
    using inter_test_spec [OF Cons.prems(1-3) all_elems_sds [OF inv x]] unfolding inter_hit_def by blast
  have p: "heap_ok hash h1" "s0 < length h1" "\<forall>j \<in> set js. j < length h1" "h1 ! s0 = h ! s0"
    using h1(2) Cons.prems(2,3) same_sets_length [OF h1(2)] by (auto simp: same_sets_def)
  have "?P h1 y = ?P h y" for y using same_sets_elems [OF h1(2)] Cons.prems(3) by (auto simp: inter_hit_def)
  then have f: "filter (?P h1) xs = filter (?P h) xs" by (intro filter_cong) simp_all
  have ih: "\<exists>h' si'' ys. inter_loop hash E m h1 s0 js si' st1 = Some (h', si'', st') \<and> same_sets hash s0 h1 h' \<and> iter_rep hash E (h1 ! s0) si'' ys"
    if "take_all hash E m st1 (filter (?P h) xs) = Some st'" for st1
    using si'(2) Cons.prems(5) that by (intro Cons.IH [OF p(1-3)]) (auto simp: p(4) f)
  show ?case
  proof (cases "?P h x")
    case False
    then have "take_all hash E m st (filter (?P h) xs) = Some st'" using Cons.prems(6) by simp
    moreover have "inter_loop hash E m h s0 js si st = inter_loop hash E m h1 s0 js si' st"
      using False si'(1) h1(1) m by (subst inter_loop.simps) simp
    ultimately show ?thesis using ih [of st] h1(2) p(4) by (auto intro: same_sets_trans)
  next
    case True
    then obtain st1 stop where t: "inter_take hash E m st x = Some (st1, stop)"
      "(if stop then Some st1 else take_all hash E m st1 (filter (?P h) xs)) = Some st'"
      using Cons.prems(6) by (auto split: bind_splits)
    show ?thesis
    proof (cases stop)
      case s: True
      have "inter_loop hash E m h s0 js si st = Some (h1, si', st')"
        using True si'(1) h1(1) m t s by (subst inter_loop.simps) simp
      then show ?thesis using h1(2) si'(2) by blast
    next
      case s: False
      then have "inter_loop hash E m h s0 js si st = inter_loop hash E m h1 s0 js si' st1"
        using True si'(1) h1(1) m t(1) by (subst inter_loop.simps) simp
      then show ?thesis using ih [of st1] t(2) s h1(2) p(4) by (auto intro: same_sets_trans)
    qed
  qed
qed

lemma take_all_reply:
  "take_all hash E InterReply st xs = Some (st\<lparr>in_reply := in_reply st @ xs, in_card := in_card st + length xs\<rparr>)"
  by (induction xs arbitrary: st) (simp_all add: inter_take_def)

lemma take_all_card:
  "limit = 0 \<or> in_card st < limit \<Longrightarrow>
   take_all hash E (InterCard limit) st xs =
     Some (st\<lparr>in_card := if limit = 0 then in_card st + length xs else min limit (in_card st + length xs)\<rparr>)"
proof (induction xs arbitrary: st)
  case (Cons x xs)
  then show ?case
    by (cases "limit \<noteq> 0 \<and> in_card st + 1 \<ge> limit") (auto simp: inter_take_def Let_def min_def)
qed auto

lemma take_all_store:
  assumes "set_inv hash (in_dst st)" "\<forall>x \<in> set xs. elem_sds x = Some (etext x)"
    "card (set_elems (in_dst st)) + length xs < 2 ^ 29 - 1"
  shows "\<exists>d. take_all hash E InterStore st xs = Some (st\<lparr>in_dst := d\<rparr>) \<and> set_inv hash d \<and>
    set_elems d = set_elems (in_dst st) \<union> etext ` set xs"
  using assms
proof (induction xs arbitrary: st)
  case Nil
  then show ?case by (intro exI [of _ "in_dst st"]) simp
next
  case (Cons x xs)
  obtain d r where d: "setTypeAdd hash E (in_dst st) (etext x) = Some (d, r)" "set_inv hash d"
    "set_elems d = insert (etext x) (set_elems (in_dst st))"
    using setTypeAdd_spec [OF Cons.prems(1), of E "etext x"] Cons.prems(3) by auto
  have "card (set_elems d) \<le> Suc (card (set_elems (in_dst st)))" using d(3) by (simp add: card_insert_le_m1)
  then have "card (set_elems (in_dst (st\<lparr>in_dst := d\<rparr>))) + length xs < 2 ^ 29 - 1" using Cons.prems(3) by simp
  then obtain d' where "take_all hash E InterStore (st\<lparr>in_dst := d\<rparr>) xs = Some (st\<lparr>in_dst := d'\<rparr>)" "set_inv hash d'"
    "set_elems d' = set_elems d \<union> etext ` set xs"
    using Cons.IH [of "st\<lparr>in_dst := d\<rparr>"] Cons.prems(2) d(2) by auto
  then show ?case using d Cons.prems(2) by (intro exI [of _ d']) (simp add: inter_take_def)
qed

definition qsort_ok :: "(('a \<Rightarrow> nat) \<Rightarrow> 'a list \<Rightarrow> 'a list) \<Rightarrow> bool" where
  "qsort_ok qs \<longleftrightarrow> (\<forall>key xs. mset (qs key xs) = mset xs)"

lemma qsort_set: "qsort_ok qs \<Longrightarrow> set (qs key xs) = set xs"
  by (metis qsort_ok_def set_mset_mset)

lemma lookup_all: "lookup_sets (map SetAt ids) = Some (map Some ids)"
  by (induction ids) auto

lemma release_obj:
  assumes "same_sets hash s0 h h'" "s0 < length h" "iter_rep hash E (h ! s0) si ys"
  shows "rd h' (int s0) = Some (h ! s0)" "setTypeReleaseIterator E (h ! s0) si = Some (h ! s0)" "wr h' (int s0) (h ! s0) = Some h'"
proof -
  have "s0 < length h'" "h' ! s0 = h ! s0" using assms(1,2) same_sets_length by (auto simp: same_sets_def)
  then show "rd h' (int s0) = Some (h ! s0)" "wr h' (int s0) (h ! s0) = Some h'" by (auto simp: rd_nat wr_nat) (metis list_update_id)
  show "setTypeReleaseIterator E (h ! s0) si = Some (h ! s0)" using assms(3) by (rule iter_release)
qed

definition inter_of :: "set_obj list \<Rightarrow> nat list \<Rightarrow> buffer set" where
  "inter_of h ids = (\<Inter>i \<in> set ids. set_elems (h ! i))"

lemma sinter_run:
  assumes ok: "heap_ok hash h" and ids: "ids \<noteq> []" "\<forall>i \<in> set ids. i < length h" and qs: "qsort_ok qs"
    and r: "\<And>xs. distinct (map etext xs) \<Longrightarrow> etext ` set xs = inter_of h ids \<Longrightarrow> \<forall>x \<in> set xs. elem_sds x = Some (etext x) \<Longrightarrow>
      \<exists>st. take_all hash E m \<lparr>in_dst = createIntsetObject, in_reply = [], in_card = 0\<rparr> xs = Some st \<and> R st"
  shows "\<exists>h' st. sinterGenericCommand hash E qs m h (map SetAt ids) = Some (h', Some st) \<and> heap_ok hash h' \<and>
    map set_elems h' = map set_elems h \<and> R st"
proof -
  have "set (qs (\<lambda>i. setTypeSize (h ! i)) ids) = set ids" using qs by (rule qsort_set)
  then obtain s0 js where q: "qs (\<lambda>i. setTypeSize (h ! i)) ids = s0 # js" "set ids = insert s0 (set js)"
    using ids(1) by (cases "qs (\<lambda>i. setTypeSize (h ! i)) ids") auto
  have s0: "s0 < length h" "\<forall>j \<in> set js. j < length h" using ids(2) q(2) by auto
  have inv: "set_inv hash (h ! s0)" using heap_ok_nth [OF ok s0(1)] .
  define xs where "xs = filter (inter_hit h s0 js) (all_elems (h ! s0))"
  have d: "distinct (map etext xs)" using all_elems_text(1) [OF inv] by (simp add: xs_def distinct_map_filter)
  have "etext ` set xs = {t \<in> set_elems (h ! s0). \<forall>j \<in> set js. t \<in> set_elems (h ! j)}"
    using all_elems_text(2) [OF inv] by (fastforce simp: xs_def inter_hit_def)
  then have i: "etext ` set xs = inter_of h ids" by (auto simp: inter_of_def q(2))
  have "\<forall>x \<in> set xs. elem_sds x = Some (etext x)" using all_elems_sds [OF inv] by (simp add: xs_def)
  with r [OF d i] obtain st where st: "take_all hash E m \<lparr>in_dst = createIntsetObject, in_reply = [], in_card = 0\<rparr> xs = Some st" "R st"
    by blast
  obtain h' si' ys where l: "inter_loop hash E m h s0 js (setTypeInitIterator E (h ! s0))
      \<lparr>in_dst = createIntsetObject, in_reply = [], in_card = 0\<rparr> = Some (h', si', st)" "same_sets hash s0 h h'" "iter_rep hash E (h ! s0) si' ys"
    using inter_loop_spec [OF ok s0 iter_init _ st(1) [unfolded xs_def]] by auto
  have "sinterGenericCommand hash E qs m h (map SetAt ids) = Some (h', Some st)"
    using q(1) l(1) release_obj [OF l(2) s0(1) l(3)] s0(1)
    by (simp add: sinterGenericCommand_def lookup_all rd_nat comp_def)
  with l(2) st(2) show ?thesis by (auto simp: same_sets_def)
qed

fun inter_result :: "inter_mode \<Rightarrow> buffer set \<Rightarrow> inter_state \<Rightarrow> bool" where
  "inter_result InterReply A st =
     (distinct (map etext (in_reply st)) \<and> etext ` set (in_reply st) = A \<and> in_card st = card A)"
| "inter_result (InterCard limit) A st = (in_card st = (if limit = 0 then card A else min limit (card A)))"
| "inter_result InterStore A st = (set_elems (in_dst st) = A \<and> setTypeSize (in_dst st) = card A)"

lemma createIntsetObject_inv:
  "set_inv hash createIntsetObject" "set_elems createIntsetObject = {}"
  by (simp_all add: createIntsetObject_def intsetNew_inv)

lemma sinter_spec:
  assumes ok: "heap_ok hash h" and ids: "ids \<noteq> []" "\<forall>i \<in> set ids. i < length h" and qs: "qsort_ok qs"
    and sz: "card (inter_of h ids) < 2 ^ 29 - 1"
  shows "\<exists>h' st. sinterGenericCommand hash E qs m h (map SetAt ids) = Some (h', Some st) \<and> heap_ok hash h' \<and>
    map set_elems h' = map set_elems h \<and> inter_result m (inter_of h ids) st"
proof (rule sinter_run [OF ok ids qs])
  fix xs
  assume xs: "distinct (map etext xs)" "etext ` set xs = inter_of h ids" "\<forall>x \<in> set xs. elem_sds x = Some (etext x)"
  have c: "card (inter_of h ids) = length xs" using distinct_card [OF xs(1)] xs(2) by simp
  let ?st = "\<lparr>in_dst = createIntsetObject, in_reply = [], in_card = 0\<rparr>"
  show "\<exists>st. take_all hash E m ?st xs = Some st \<and> inter_result m (inter_of h ids) st"
  proof (cases m)
    case InterReply
    then show ?thesis using xs c take_all_reply [of hash E ?st xs] by simp
  next
    case (InterCard limit)
    then show ?thesis using c take_all_card [of limit ?st hash E xs] by auto
  next
    case InterStore
    have "card (set_elems (in_dst ?st)) + length xs < 2 ^ 29 - 1" using sz c by (simp add: createIntsetObject_inv)
    then obtain d where "take_all hash E InterStore ?st xs = Some (?st\<lparr>in_dst := d\<rparr>)" "set_inv hash d" "set_elems d = inter_of h ids"
      using take_all_store [of hash ?st xs E] xs by (auto simp: createIntsetObject_inv)
    then show ?thesis using InterStore set_elems_card [of hash d] by auto
  qed
qed

section \<open>Union and difference\<close>

lemma next_object:
  assumes "set_inv hash s" "iter_rep hash E s si xs" "set xs \<subseteq> set (all_elems s)"
  shows "\<exists>si'. setTypeNextObject E s si = Some (s, si', case xs of [] \<Rightarrow> None | x # _ \<Rightarrow> Some (etext x)) \<and> iter_rep hash E s si' (tl xs)"
  using iter_next [OF assms(1,2)] all_elems_sds [OF assms(1)] assms(3)
  by (cases xs) (auto simp: setTypeNextObject_def)

text \<open>The target after a run of \<open>apply_all\<close>; its count follows the number of members.\<close>

definition target_ok :: "(buffer \<Rightarrow> 64 word) \<Rightarrow> set_obj \<Rightarrow> int \<Rightarrow> buffer set \<Rightarrow> bool" where
  "target_ok hash dst n A \<longleftrightarrow> set_inv hash dst \<and> set_elems dst = A \<and> n = int (card A)"

lemma target_step:
  assumes "target_ok hash dst n A" "add \<Longrightarrow> card A < 2 ^ 29 - 1"
  shows "\<exists>dst'. (if add then do { (d, ok) \<leftarrow> setTypeAdd hash E dst e; Some (d, if ok then n + 1 else n) }
       else do { (d, ok) \<leftarrow> setTypeRemove hash E dst e; Some (d, if ok then n - 1 else n) }) =
      Some (dst', int (card (if add then insert e A else A - {e}))) \<and>
    target_ok hash dst' (int (card (if add then insert e A else A - {e}))) (if add then insert e A else A - {e})"
proof (cases add)
  case True
  obtain d where d: "setTypeAdd hash E dst e = Some (d, e \<notin> A)" "set_inv hash d" "set_elems d = insert e A"
    using setTypeAdd_spec [of hash dst E e] assms True by (auto simp: target_ok_def)
  have "finite A" using set_elems_card [of hash dst] assms(1) by (auto simp: target_ok_def)
  with d True assms(1) show ?thesis by (auto simp: target_ok_def card_insert_if insert_absorb)
next
  case False
  obtain d where d: "setTypeRemove hash E dst e = Some (d, e \<in> A)" "set_inv hash d" "set_elems d = A - {e}"
    using setTypeRemove_spec [of hash dst E e] assms by (auto simp: target_ok_def)
  have "finite A" using set_elems_card [of hash dst] assms(1) by (auto simp: target_ok_def)
  then have "e \<in> A \<Longrightarrow> int (card A) - 1 = int (card (A - {e}))" 
    using card_Suc_Diff1 [of A e] by simp
  with d False assms(1) show ?thesis by (auto simp: target_ok_def)
qed

lemma apply_all_spec:
  assumes "heap_ok hash h" "j < length h" "iter_rep hash E (h ! j) si xs" "set xs \<subseteq> set (all_elems (h ! j))"
    "target_ok hash dst n A" "add \<Longrightarrow> card A + length xs < 2 ^ 29 - 1"
  shows "\<exists>si' dst' n'. apply_all hash E add h j si dst n = Some (h, si', dst', n') \<and> iter_rep hash E (h ! j) si' [] \<and>
    target_ok hash dst' n' (if add then A \<union> etext ` set xs else A - etext ` set xs)"
  using assms
proof (induction xs arbitrary: si dst n A)
  case Nil
  have "rd h (int j) = Some (h ! j)" "wr h (int j) (h ! j) = Some h" using Nil.prems(2) by (simp_all add: mem_simps)
  then show ?case using next_object [OF heap_ok_nth [OF Nil.prems(1,2)] Nil.prems(3,4)] Nil.prems(5)
    by (subst apply_all.simps) auto
next
  case (Cons x xs)
  let ?A = "if add then insert (etext x) A else A - {etext x}"
  have m: "rd h (int j) = Some (h ! j)" "wr h (int j) (h ! j) = Some h" using Cons.prems(2) by (simp_all add: mem_simps)
  obtain si' where si': "setTypeNextObject E (h ! j) si = Some (h ! j, si', Some (etext x))" "iter_rep hash E (h ! j) si' xs"
    using next_object [OF heap_ok_nth [OF Cons.prems(1,2)] Cons.prems(3,4)] by auto
  obtain dst' where d: "(if add then do { (d, ok) \<leftarrow> setTypeAdd hash E dst (etext x); Some (d, if ok then n + 1 else n) }
       else do { (d, ok) \<leftarrow> setTypeRemove hash E dst (etext x); Some (d, if ok then n - 1 else n) }) = Some (dst', int (card ?A))"
    "target_ok hash dst' (int (card ?A)) ?A"
    using target_step [OF Cons.prems(5), of add E "etext x"] Cons.prems(6) by (metis add_lessD1)
  have "card ?A + length xs < 2 ^ 29 - 1" if add
    using Cons.prems(6) [OF that] that card_insert_le_m1 [of "Suc (card A)" A "etext x"] by simp
  then have ih: "\<exists>si'' dst'' n'. apply_all hash E add h j si' dst' (int (card ?A)) = Some (h, si'', dst'', n') \<and>
      iter_rep hash E (h ! j) si'' [] \<and> target_ok hash dst'' n' (if add then ?A \<union> etext ` set xs else ?A - etext ` set xs)"
    using Cons.prems(4) by (intro Cons.IH [OF Cons.prems(1,2) si'(2) _ d(2)]) auto
  have s: "apply_all hash E add h j si dst n = apply_all hash E add h j si' dst' (int (card ?A))"
    by (subst apply_all.simps) (simp only: m si'(1) d(1) bind.bind_lunit prod.case option.case)
  have "(if add then ?A \<union> etext ` set xs else ?A - etext ` set xs) = (if add then A \<union> etext ` set (x # xs) else A - etext ` set (x # xs))"
    by auto
  with ih s show ?case by simp
qed

lemma apply_set_spec:
  assumes "heap_ok hash h" "j < length h" "target_ok hash dst n A" "add \<Longrightarrow> card A + setTypeSize (h ! j) < 2 ^ 29 - 1"
  shows "\<exists>dst' n'. apply_set hash E add h j dst n = Some (h, dst', n') \<and>
    target_ok hash dst' n' (if add then A \<union> set_elems (h ! j) else A - set_elems (h ! j))"
proof -
  have inv: "set_inv hash (h ! j)" using heap_ok_nth [OF assms(1,2)] .
  obtain si' dst' n' where "apply_all hash E add h j (setTypeInitIterator E (h ! j)) dst n = Some (h, si', dst', n')"
    "iter_rep hash E (h ! j) si' []" "target_ok hash dst' n' (if add then A \<union> set_elems (h ! j) else A - set_elems (h ! j))"
    using apply_all_spec [OF assms(1,2) iter_init subset_refl assms(3), of add E] assms(4)
    unfolding all_elems_text(2,3) [OF inv] by blast
  then show ?thesis using release_obj [OF same_sets_refl [OF assms(1)] assms(2)] assms(2)
    by (simp add: apply_set_def rd_nat)
qed

definition ref_elems :: "set_obj list \<Rightarrow> nat option \<Rightarrow> buffer set" where
  "ref_elems h r = (case r of None \<Rightarrow> {} | Some i \<Rightarrow> set_elems (h ! i))"

definition others :: "set_obj list \<Rightarrow> nat option list \<Rightarrow> buffer set" where
  "others h refs = (\<Union>r \<in> set refs. ref_elems h r)"

lemma ref_simps [simp]:
  "ref_elems h None = {}" "ref_elems h (Some i) = set_elems (h ! i)" "obj_size h None = 0" "obj_size h (Some i) = setTypeSize (h ! i)"
  "others h [] = {}" "others h (r # rs) = ref_elems h r \<union> others h rs"
  by (simp_all add: ref_elems_def obj_size_def others_def)

definition refs_ok :: "set_obj list \<Rightarrow> nat option list \<Rightarrow> bool" where
  "refs_ok h refs \<longleftrightarrow> (\<forall>i. Some i \<in> set refs \<longrightarrow> i < length h)"

lemma refs_ok_Cons: "refs_ok h (r # rs) \<longleftrightarrow> (\<forall>i. r = Some i \<longrightarrow> i < length h) \<and> refs_ok h rs"
  by (auto simp: refs_ok_def)

lemma target_finite: "target_ok hash dst n A \<Longrightarrow> finite A"
  using set_elems_card [of hash dst] by (auto simp: target_ok_def)

lemma union_loop_spec:
  assumes "heap_ok hash h" "refs_ok h refs" "target_ok hash dst n A" "card A + sum_list (map (obj_size h) refs) < 2 ^ 29 - 1"
  shows "\<exists>dst' n'. union_loop hash E h refs dst n = Some (h, dst', n') \<and>
    target_ok hash dst' n' (A \<union> others h refs)"
  using assms
proof (induction refs arbitrary: dst n A)
  case (Cons r rs)
  show ?case
  proof (cases r)
    case None
    then show ?thesis using Cons.IH [OF Cons.prems(1) _ Cons.prems(3)] Cons.prems(2,4)
      by (simp add: refs_ok_Cons)
  next
    case (Some j)
    then have j: "j < length h" using Cons.prems(2) by (simp add: refs_ok_Cons)
    have "card A + setTypeSize (h ! j) < 2 ^ 29 - 1" using Cons.prems(4) Some by simp
    then obtain dst1 n1 where d: "apply_set hash E True h j dst n = Some (h, dst1, n1)" "target_ok hash dst1 n1 (A \<union> set_elems (h ! j))"
      using apply_set_spec [OF Cons.prems(1) j Cons.prems(3), of True E] by auto
    have "card (A \<union> set_elems (h ! j)) \<le> card A + setTypeSize (h ! j)"
      using card_Un_le [of A "set_elems (h ! j)"] set_elems_card [OF heap_ok_nth [OF Cons.prems(1) j]] by simp
    then have "card (A \<union> set_elems (h ! j)) + sum_list (map (obj_size h) rs) < 2 ^ 29 - 1"
      using Cons.prems(4) Some by simp
    from Cons.IH [OF Cons.prems(1) _ d(2) this] Cons.prems(2) d(1) Some show ?thesis
      by (simp add: refs_ok_Cons Un_assoc)
  qed
qed simp

lemma diff2_rest:
  assumes "heap_ok hash h" "refs_ok h refs" "target_ok hash dst n A"
  shows "\<exists>dst' n'. diff2_loop hash E False h refs dst n = Some (h, dst', n') \<and>
    target_ok hash dst' n' (A - others h refs)"
  using assms
proof (induction refs arbitrary: dst n A)
  case (Cons r rs)
  show ?case
  proof (cases r)
    case None
    then show ?thesis using Cons.IH [OF Cons.prems(1) _ Cons.prems(3)] Cons.prems(2) by (simp add: refs_ok_Cons)
  next
    case (Some j)
    then have j: "j < length h" using Cons.prems(2) by (simp add: refs_ok_Cons)
    obtain dst1 n1 where d: "apply_set hash E False h j dst n = Some (h, dst1, n1)" "target_ok hash dst1 n1 (A - set_elems (h ! j))"
      using apply_set_spec [OF Cons.prems(1) j Cons.prems(3), of False E] by auto
    show ?thesis
    proof (cases "n1 = 0")
      case True
      then have "A - set_elems (h ! j) = {}" using d(2) target_finite [OF d(2)] by (simp add: target_ok_def)
      then have "A - others h (r # rs) = A - set_elems (h ! j)" using Some by auto
      with d True Some show ?thesis by simp
    next
      case False
      from Cons.IH [OF Cons.prems(1) _ d(2)] Cons.prems(2) d(1) Some False show ?thesis
        by (simp add: refs_ok_Cons Diff_eq Int_assoc)
    qed
  qed
qed simp

lemma diff_test_spec:
  assumes "heap_ok hash h" "refs_ok h rs" "Some s0 \<notin> set rs"
  shows "\<exists>h'. diff_test hash E h s0 e rs = Some (h', e \<notin> others h rs) \<and> same_sets hash s0 h h'"
  using assms
proof (induction rs arbitrary: h)
  case Nil
  then show ?case by (simp add: same_sets_refl)
next
  case (Cons r rs)
  show ?case
  proof (cases r)
    case None
    then show ?thesis using Cons.IH [OF Cons.prems(1)] Cons.prems(2,3) by (simp add: refs_ok_Cons)
  next
    case (Some j)
    then have j: "j < length h" "j \<noteq> s0" using Cons.prems(2,3) by (auto simp: refs_ok_Cons)
    obtain s where s: "rd h (int j) = Some (h ! j)" "setTypeIsMember hash E (h ! j) e = Some (s, e \<in> set_elems (h ! j))"
      "wr h (int j) s = Some (h[j := s])" "same_sets hash s0 h (h[j := s])"
      using lookup_member [OF Cons.prems(1) j] by blast
    let ?h = "h[j := s]"
    have eq: "ref_elems ?h r = ref_elems h r" if "r \<in> set rs" for r
      using same_sets_elems [OF s(4)] Cons.prems(2) that by (auto simp: ref_elems_def refs_ok_def split: option.splits)
    have "\<exists>h'. diff_test hash E ?h s0 e rs = Some (h', e \<notin> others ?h rs) \<and> same_sets hash s0 ?h h'"
      using Cons.prems s(4) by (intro Cons.IH) (auto simp: same_sets_def refs_ok_def)
    moreover have "others ?h rs = others h rs" using eq by (auto simp: others_def)
    ultimately show ?thesis using Some j(2) s by (auto intro: same_sets_trans)
  qed
qed

lemma diff1_loop_spec:
  assumes "heap_ok hash h" "s0 < length h" "refs_ok h rs" "Some s0 \<notin> set rs" "iter_rep hash E (h ! s0) si xs"
    "set xs \<subseteq> set (all_elems (h ! s0))" "distinct (map etext xs)" "A \<inter> etext ` set xs = {}"
    "target_ok hash dst n A" "card A + length xs < 2 ^ 29 - 1"
  shows "\<exists>h' si' dst' n'. diff1_loop hash E h s0 rs si dst n = Some (h', si', dst', n') \<and> same_sets hash s0 h h' \<and>
    iter_rep hash E (h ! s0) si' [] \<and> target_ok hash dst' n' (A \<union> (etext ` set xs - others h rs))"
  using assms
proof (induction xs arbitrary: h si dst n A)
  case Nil
  have "rd h (int s0) = Some (h ! s0)" "wr h (int s0) (h ! s0) = Some h" using Nil.prems(2) by (simp_all add: mem_simps)
  then show ?case
    using next_object [OF heap_ok_nth [OF Nil.prems(1,2)] Nil.prems(5,6)] Nil.prems(9) same_sets_refl [OF Nil.prems(1), of s0]
    by (subst diff1_loop.simps) auto
next
  case (Cons x xs)
  let ?U = "\<lambda>h. others h rs"
  have m: "rd h (int s0) = Some (h ! s0)" "wr h (int s0) (h ! s0) = Some h" using Cons.prems(2) by (simp_all add: mem_simps)
  obtain si' where si': "setTypeNextObject E (h ! s0) si = Some (h ! s0, si', Some (etext x))" "iter_rep hash E (h ! s0) si' xs"
    using next_object [OF heap_ok_nth [OF Cons.prems(1,2)] Cons.prems(5,6)] by auto
  obtain h1 where h1: "diff_test hash E h s0 (etext x) rs = Some (h1, etext x \<notin> ?U h)" "same_sets hash s0 h h1"
    using diff_test_spec [OF Cons.prems(1,3,4)] by blast
  have p: "heap_ok hash h1" "s0 < length h1" "refs_ok h1 rs" "h1 ! s0 = h ! s0"
    using h1(2) Cons.prems(2,3) same_sets_length [OF h1(2)] by (auto simp: same_sets_def refs_ok_def)
  have "ref_elems h1 r = ref_elems h r" if "r \<in> set rs" for r
    using same_sets_elems [OF h1(2)] Cons.prems(3) that by (auto simp: ref_elems_def refs_ok_def split: option.splits)
  then have U: "?U h1 = ?U h" by (auto simp: others_def)
  have ih: "\<exists>h' si'' dst'' n''. diff1_loop hash E h1 s0 rs si' dst' n' = Some (h', si'', dst'', n'') \<and> same_sets hash s0 h1 h' \<and>
      iter_rep hash E (h ! s0) si'' [] \<and> target_ok hash dst'' n'' (B \<union> (etext ` set xs - ?U h))"
    if "target_ok hash dst' n' B" "B \<subseteq> insert (etext x) A" for dst' n' B
  proof -
    have "card B \<le> card (insert (etext x) A)" using that(2) target_finite [OF Cons.prems(9)] by (intro card_mono) auto
    also have "\<dots> \<le> Suc (card A)" by (rule card_insert_le_m1) auto
    finally have "card B \<le> Suc (card A)" .
    then have sz: "card B + length xs < 2 ^ 29 - 1" using Cons.prems(10) by simp
    have i: "iter_rep hash E (h1 ! s0) si' xs" "set xs \<subseteq> set (all_elems (h1 ! s0))" using si'(2) Cons.prems(6) by (auto simp: p(4))
    have "insert (etext x) A \<inter> etext ` set xs = {}" using Cons.prems(7,8) by auto
    then have d: "distinct (map etext xs)" "B \<inter> etext ` set xs = {}" using Cons.prems(7) that(2) by (simp, blast)
    show ?thesis using Cons.IH [OF p(1-3) Cons.prems(4) i d that(1) sz] unfolding U p(4) .
  qed
  show ?case
  proof (cases "etext x \<in> ?U h")
    case True
    have "diff1_loop hash E h s0 rs si dst n = diff1_loop hash E h1 s0 rs si' dst n"
      using True m si'(1) h1(1) by (subst diff1_loop.simps) simp
    moreover have "A \<union> (etext ` set (x # xs) - ?U h) = A \<union> (etext ` set xs - ?U h)" using True by auto
    ultimately show ?thesis using ih [OF Cons.prems(9) subset_insertI] h1(2) by (auto intro: same_sets_trans)
  next
    case False
    have A: "etext x \<notin> A" "finite A" "card A < 2 ^ 29 - 1" using Cons.prems(8,10) target_finite [OF Cons.prems(9)] by auto
    obtain d r where d: "setTypeAdd hash E dst (etext x) = Some (d, r)" "target_ok hash d (n + 1) (insert (etext x) A)"
      using setTypeAdd_spec [of hash dst E "etext x"] Cons.prems(9) A by (auto simp: target_ok_def)
    have "diff1_loop hash E h s0 rs si dst n = diff1_loop hash E h1 s0 rs si' d (n + 1)"
      using False m si'(1) h1(1) d(1) by (subst diff1_loop.simps) simp
    moreover have "A \<union> (etext ` set (x # xs) - ?U h) = insert (etext x) A \<union> (etext ` set xs - ?U h)" using False by auto
    ultimately show ?thesis using ih [OF d(2) subset_refl] h1(2) by (auto intro: same_sets_trans)
  qed
qed

lemma target_new: "target_ok hash createIntsetObject 0 {}"
  by (simp add: target_ok_def createIntsetObject_inv)

lemma diff1_spec:
  assumes "heap_ok hash h" "s0 < length h" "refs_ok h rs" "Some s0 \<notin> set rs" "setTypeSize (h ! s0) < 2 ^ 29 - 1"
  shows "\<exists>h' dst n. diff1 hash E h s0 rs createIntsetObject = Some (h', dst, n) \<and> heap_ok hash h' \<and> map set_elems h' = map set_elems h \<and>
    target_ok hash dst n (set_elems (h ! s0) - others h rs)"
proof -
  note t = all_elems_text [OF heap_ok_nth [OF assms(1,2)]]
  have d: "card ({} :: buffer set) + length (all_elems (h ! s0)) < 2 ^ 29 - 1" using assms(5) t(3) by simp
  obtain h' si' dst n where r: "diff1_loop hash E h s0 rs (setTypeInitIterator E (h ! s0)) createIntsetObject 0 = Some (h', si', dst, n)"
    "same_sets hash s0 h h'" "iter_rep hash E (h ! s0) si' []"
    "target_ok hash dst n ({} \<union> (set_elems (h ! s0) - others h rs))"
    using diff1_loop_spec [OF assms(1-4) iter_init subset_refl t(1) Int_empty_left target_new d] unfolding t(2) by blast
  then show ?thesis using release_obj [OF r(2) assms(2) r(3)] assms(2) by (auto simp: diff1_def rd_nat same_sets_def)
qed

lemma diff2_spec:
  assumes "heap_ok hash h" "s0 < length h" "refs_ok h rs" "setTypeSize (h ! s0) < 2 ^ 29 - 1"
  shows "\<exists>dst n. diff2_loop hash E True h (Some s0 # rs) createIntsetObject 0 = Some (h, dst, n) \<and>
    target_ok hash dst n (set_elems (h ! s0) - others h rs)"
proof -
  have "card ({} :: buffer set) + setTypeSize (h ! s0) < 2 ^ 29 - 1" using assms(4) by simp
  then obtain dst n where d: "apply_set hash E True h s0 createIntsetObject 0 = Some (h, dst, n)" "target_ok hash dst n (set_elems (h ! s0))"
    using apply_set_spec [OF assms(1,2) target_new, of True E] by auto
  show ?thesis
  proof (cases "n = 0")
    case True
    then have "set_elems (h ! s0) = {}" using d(2) target_finite [OF d(2)] by (simp add: target_ok_def)
    with d True show ?thesis by auto
  next
    case False
    then show ?thesis using diff2_rest [OF assms(1,3) d(2), of E] d(1) by simp
  qed
qed

fun op_result :: "set_oper \<Rightarrow> set_obj list \<Rightarrow> nat option list \<Rightarrow> buffer set" where
  "op_result SET_OP_UNION h refs = others h refs"
| "op_result SET_OP_DIFF h [] = {}"
| "op_result SET_OP_DIFF h (r # rs) = ref_elems h r - others h rs"

lemma lookup_sets_some: "WrongType \<notin> set keys \<Longrightarrow> \<exists>refs. lookup_sets keys = Some refs"
  by (induction keys) (auto split: key_lookup.splits)

lemma qsort_others: "qsort_ok qs \<Longrightarrow> others h (qs key rs) = others h rs" "qsort_ok qs \<Longrightarrow> refs_ok h rs \<Longrightarrow> refs_ok h (qs key rs)"
  using qsort_set [of qs key rs] by (simp_all add: others_def refs_ok_def)

lemma diff_spec:
  assumes ok: "heap_ok hash h" and refs: "lookup_sets keys = Some (Some s0 # rs)" "refs_ok h (Some s0 # rs)" and qs: "qsort_ok qs"
    and sz: "setTypeSize (h ! s0) < 2 ^ 29 - 1"
  shows "\<exists>h' dst n. sunionDiffGenericCommand hash E qs SET_OP_DIFF h keys = Some (h', Some (dst, n)) \<and> heap_ok hash h' \<and>
    map set_elems h' = map set_elems h \<and> target_ok hash dst n (set_elems (h ! s0) - others h rs)"
proof (cases "Some s0 \<in> set rs")
  case True
  then have e: "set_elems (h ! s0) - others h rs = {}" by (auto simp: others_def intro!: bexI [of _ "Some s0"])
  show ?thesis unfolding e using True ok refs(1) target_new by (auto simp: sunionDiffGenericCommand_def Let_def)
next
  case False
  have s0: "s0 < length h" and rs: "refs_ok h rs" using refs(2) by (simp_all add: refs_ok_Cons)
  show ?thesis
  proof (cases "diff_algo h (Some s0 # rs) = 1")
    case algo: True
    define rs' where "rs' = (if rs = [] then rs else qs (obj_size h) rs)"
    have r: "others h rs' = others h rs" "refs_ok h rs'" "Some s0 \<notin> set rs'"
      using qsort_others [OF qs] rs False qsort_set [OF qs] by (auto simp: rs'_def)
    have "sunionDiffGenericCommand hash E qs SET_OP_DIFF h keys =
        diff1 hash E h s0 rs' createIntsetObject \<bind> (\<lambda>(h, dst, card). Some (h, Some (dst, card)))"
      using refs(1) False algo by (cases "rs = []") (simp_all add: sunionDiffGenericCommand_def Let_def rs'_def)
    then show ?thesis using diff1_spec [OF ok s0 r(2,3) sz, of E] r(1) by auto
  next
    case algo: False
    then have "sunionDiffGenericCommand hash E qs SET_OP_DIFF h keys =
        diff2_loop hash E True h (Some s0 # rs) createIntsetObject 0 \<bind> (\<lambda>(h, dst, card). Some (h, Some (dst, card)))"
      using refs(1) False by (simp add: sunionDiffGenericCommand_def Let_def del: diff2_loop.simps)
    then show ?thesis using diff2_spec [OF ok s0 rs sz, of E] ok by (auto simp del: diff2_loop.simps)
  qed
qed

lemma sunionDiff_spec:
  assumes ok: "heap_ok hash h" and refs: "lookup_sets keys = Some refs" "refs_ok h refs" and qs: "qsort_ok qs"
    and sz: "sum_list (map (obj_size h) refs) < 2 ^ 29 - 1"
  shows "\<exists>h' dst n. sunionDiffGenericCommand hash E qs oper h keys = Some (h', Some (dst, n)) \<and> heap_ok hash h' \<and>
    map set_elems h' = map set_elems h \<and> target_ok hash dst n (op_result oper h refs)"
proof (cases oper)
  case SET_OP_UNION
  have "card ({} :: buffer set) + sum_list (map (obj_size h) refs) < 2 ^ 29 - 1" using sz by simp
  then obtain dst n where "union_loop hash E h refs createIntsetObject 0 = Some (h, dst, n)" "target_ok hash dst n (others h refs)"
    using union_loop_spec [OF ok refs(2) target_new, of E] by auto
  then show ?thesis using SET_OP_UNION refs(1) ok by (simp add: sunionDiffGenericCommand_def Let_def)
next
  case SET_OP_DIFF
  show ?thesis
  proof (cases refs)
    case Nil
    then show ?thesis using SET_OP_DIFF refs(1) ok target_new by (simp add: sunionDiffGenericCommand_def Let_def)
  next
    case (Cons r rs)
    show ?thesis
    proof (cases r)
      case None
      then show ?thesis using SET_OP_DIFF Cons refs(1) ok target_new by (simp add: sunionDiffGenericCommand_def Let_def)
    next
      case (Some s0)
      have "setTypeSize (h ! s0) < 2 ^ 29 - 1" using sz Cons Some by simp
      then show ?thesis using diff_spec [OF ok _ _ qs] refs Cons Some SET_OP_DIFF by simp
    qed
  qed
qed

section \<open>Properties\<close>

text \<open>
  C21: SINTER, SINTERCARD and SINTERSTORE compute the intersection of the sets named by their keys, also when the same
  object is named several times: every member is replied once, the count stops at the limit, the stored set holds exactly the
  common members. The fingerprint check of the iterator never fails and no set changes its members. The intersection has fewer than
  \<open>2 ^ 29 - 1\<close> members, up to which intsets work.
\<close>

theorem sinter_correct:
  assumes "heap_ok hash h" "ids \<noteq> []" "\<forall>i \<in> set ids. i < length h" "qsort_ok qs" "card (inter_of h ids) < 2 ^ 29 - 1"
  shows "\<exists>h' st. sinterGenericCommand hash E qs m h (map SetAt ids) = Some (h', Some st) \<and> heap_ok hash h' \<and>
    map set_elems h' = map set_elems h \<and> inter_result m (inter_of h ids) st"
  using assms by (rule sinter_spec)

theorem sinter_correct_witness:
  "\<exists>h' st. sinterGenericCommand (\<lambda>_. 0) demo_env sort_key (InterCard 5) [createIntsetObject, createSetObject demo_env] (map SetAt [0, 1, 0]) =
     Some (h', Some st) \<and> in_card st = 0"
proof -
  have h: "heap_ok (\<lambda>_. 0) [createIntsetObject, createSetObject demo_env]"
    by (simp add: heap_ok_def createIntsetObject_inv createSetObject_inv)
  have e: "inter_of [createIntsetObject, createSetObject demo_env] [0, 1, 0] = {}"
    by (simp add: inter_of_def createIntsetObject_inv)
  have q: "qsort_ok (sort_key :: (nat \<Rightarrow> nat) \<Rightarrow> nat list \<Rightarrow> nat list)" by (simp add: qsort_ok_def)
  show ?thesis using sinter_correct [OF h _ _ q, of "[0, 1, 0]" demo_env "InterCard 5"] e by auto
qed

text \<open>
  C22: SUNION gives the union of the sets and SDIFF the first set without the others, with the number of members,
  whichever of the two difference algorithms the cost estimate selects and in whatever order the sets are sorted; missing keys count as
  empty sets, and no set changes its members. The sets have together fewer than \<open>2 ^ 29 - 1\<close> members.
\<close>

theorem sunionDiff_correct:
  assumes "heap_ok hash h" "lookup_sets keys = Some refs" "refs_ok h refs" "qsort_ok qs" "sum_list (map (obj_size h) refs) < 2 ^ 29 - 1"
  shows "\<exists>h' dst n. sunionDiffGenericCommand hash E qs oper h keys = Some (h', Some (dst, n)) \<and> heap_ok hash h' \<and>
    map set_elems h' = map set_elems h \<and> target_ok hash dst n (op_result oper h refs)"
  using assms by (rule sunionDiff_spec)

theorem sunionDiff_correct_witness:
  "\<exists>h' dst n. sunionDiffGenericCommand (\<lambda>_. 0) demo_env sort_key SET_OP_DIFF [createIntsetObject, createSetObject demo_env]
     [SetAt 1, NoKey, SetAt 0] = Some (h', Some (dst, n)) \<and> n = 0"
proof -
  have h: "heap_ok (\<lambda>_. 0) [createIntsetObject, createSetObject demo_env]"
    by (simp add: heap_ok_def createIntsetObject_inv createSetObject_inv)
  have l: "lookup_sets [SetAt 1, NoKey, SetAt 0] = Some [Some 1, None, Some 0]" by simp
  have r: "refs_ok [createIntsetObject, createSetObject demo_env] [Some 1, None, Some 0]" by (auto simp: refs_ok_def)
  have q: "qsort_ok (sort_key :: (nat option \<Rightarrow> nat) \<Rightarrow> nat option list \<Rightarrow> nat option list)" by (simp add: qsort_ok_def)
  have s: "sum_list (map (obj_size [createIntsetObject, createSetObject demo_env]) [Some 1, None, Some 0]) < 2 ^ 29 - 1"
    using set_elems_card [OF createIntsetObject_inv(1)] by (simp add: createSetObject_inv createIntsetObject_inv)
  show ?thesis
    using sunionDiff_correct [OF h l r q s, of demo_env SET_OP_DIFF] by (auto simp: target_ok_def createSetObject_inv)
qed

end
