(* ===== verification/RedisAdlist.thy ===== *)
theory RedisAdlist
  imports RedisPrelude "HOL-Library.Multiset"
begin

text \<open>
  The doubly linked lists of \<open>adlist.c\<close> on an explicit heap of nodes. Addresses are numbers, a null pointer is
  \<open>None\<close>, and following a null or dangling pointer is the outer \<open>None\<close> of the result. \<open>alloc\<close> is the
  allocator: the address it returns for a new node in a heap, or \<open>None\<close> when it is out of memory. The methods
  \<open>free\<close>, \<open>dup\<close> and \<open>match\<close> of a list are optional functions in its header; the values passed to \<open>free\<close>
  are returned. The proofs relate a list to the sequence of its nodes (address and value), in the style of
  separation-logic list segments.
\<close>

section \<open>Nodes, lists, iterators\<close>

record 'v listNode =
  ln_prev :: "nat option"
  ln_next :: "nat option"
  ln_value :: 'v

type_synonym 'v node_heap = "nat \<Rightarrow> 'v listNode option"

record 'v adlist =
  l_head :: "nat option"
  l_tail :: "nat option"
  l_dup :: "('v \<Rightarrow> 'v option) option"
  l_free :: bool
  l_match :: "('v \<Rightarrow> 'v \<Rightarrow> bool) option"
  l_len :: nat

record listIter =
  li_next :: "nat option"
  li_from_head :: bool

text \<open>Reading a node through a pointer, and the assignments \<open>p->prev = q\<close> and \<open>p->next = q\<close>.\<close>

definition node_at :: "'v node_heap \<Rightarrow> nat option \<Rightarrow> 'v listNode option" where
  "node_at h p = do { a \<leftarrow> p; h a }"

definition set_prev :: "'v node_heap \<Rightarrow> nat option \<Rightarrow> nat option \<Rightarrow> 'v node_heap option" where
  "set_prev h p q = do { a \<leftarrow> p; n \<leftarrow> h a; Some (h(a \<mapsto> n\<lparr>ln_prev := q\<rparr>)) }"

definition set_next :: "'v node_heap \<Rightarrow> nat option \<Rightarrow> nat option \<Rightarrow> 'v node_heap option" where
  "set_next h p q = do { a \<leftarrow> p; n \<leftarrow> h a; Some (h(a \<mapsto> n\<lparr>ln_next := q\<rparr>)) }"

section \<open>Operations\<close>

text \<open>The header as \<open>listCreate\<close> fills it; \<open>mem\<close> tells whether the allocator has memory for it.\<close>

definition empty_adlist :: "'v adlist" where
  "empty_adlist = \<lparr>l_head = None, l_tail = None, l_dup = None, l_free = False, l_match = None, l_len = 0\<rparr>"

definition listCreate :: "bool \<Rightarrow> 'v adlist option" where
  "listCreate mem = (if mem then Some empty_adlist else None)"

fun empty_loop :: "nat \<Rightarrow> 'v node_heap \<Rightarrow> nat option \<Rightarrow> 'v list \<Rightarrow> ('v node_heap \<times> 'v list) option" where
  "empty_loop 0 h current freed = Some (h, freed)"
| "empty_loop (Suc len) h current freed = do {
     a \<leftarrow> current;
     n \<leftarrow> h a;
     empty_loop len (h(a := None)) (ln_next n) (freed @ [ln_value n])
   }"

definition listEmpty :: "'v node_heap \<Rightarrow> 'v adlist \<Rightarrow> ('v node_heap \<times> 'v adlist \<times> 'v list) option" where
  "listEmpty h l = do {
     (h, values) \<leftarrow> empty_loop (l_len l) h (l_head l) [];
     Some (h, l\<lparr>l_head := None, l_tail := None, l_len := 0\<rparr>, if l_free l then values else [])
   }"

definition listRelease :: "'v node_heap \<Rightarrow> 'v adlist \<Rightarrow> ('v node_heap \<times> 'v list) option" where
  "listRelease h l = do { (h, l, freed) \<leftarrow> listEmpty h l; Some (h, freed) }"

definition listAddNodeHead ::
  "('v node_heap \<Rightarrow> nat option) \<Rightarrow> 'v node_heap \<Rightarrow> 'v adlist \<Rightarrow> 'v \<Rightarrow> ('v node_heap \<times> 'v adlist \<times> bool) option" where
  "listAddNodeHead alloc h l value =
     (case alloc h of
        None \<Rightarrow> Some (h, l, False)
      | Some a \<Rightarrow>
          (if l_len l = 0 then
             Some (h(a \<mapsto> \<lparr>ln_prev = None, ln_next = None, ln_value = value\<rparr>),
                   l\<lparr>l_head := Some a, l_tail := Some a, l_len := l_len l + 1\<rparr>, True)
           else do {
             let h = h(a \<mapsto> \<lparr>ln_prev = None, ln_next = l_head l, ln_value = value\<rparr>);
             h \<leftarrow> set_prev h (l_head l) (Some a);
             Some (h, l\<lparr>l_head := Some a, l_len := l_len l + 1\<rparr>, True)
           }))"

definition listAddNodeTail ::
  "('v node_heap \<Rightarrow> nat option) \<Rightarrow> 'v node_heap \<Rightarrow> 'v adlist \<Rightarrow> 'v \<Rightarrow> ('v node_heap \<times> 'v adlist \<times> bool) option" where
  "listAddNodeTail alloc h l value =
     (case alloc h of
        None \<Rightarrow> Some (h, l, False)
      | Some a \<Rightarrow>
          (if l_len l = 0 then
             Some (h(a \<mapsto> \<lparr>ln_prev = None, ln_next = None, ln_value = value\<rparr>),
                   l\<lparr>l_head := Some a, l_tail := Some a, l_len := l_len l + 1\<rparr>, True)
           else do {
             let h = h(a \<mapsto> \<lparr>ln_prev = l_tail l, ln_next = None, ln_value = value\<rparr>);
             h \<leftarrow> set_next h (l_tail l) (Some a);
             Some (h, l\<lparr>l_tail := Some a, l_len := l_len l + 1\<rparr>, True)
           }))"

definition listInsertNode ::
  "('v node_heap \<Rightarrow> nat option) \<Rightarrow> 'v node_heap \<Rightarrow> 'v adlist \<Rightarrow> nat \<Rightarrow> 'v \<Rightarrow> bool \<Rightarrow> ('v node_heap \<times> 'v adlist \<times> bool) option" where
  "listInsertNode alloc h l old_node value after =
     (case alloc h of
        None \<Rightarrow> Some (h, l, False)
      | Some a \<Rightarrow> do {
          old \<leftarrow> h old_node;
          let node = (if after then \<lparr>ln_prev = Some old_node, ln_next = ln_next old, ln_value = value\<rparr>
                      else \<lparr>ln_prev = ln_prev old, ln_next = Some old_node, ln_value = value\<rparr>);
          let l = (if after then (if l_tail l = Some old_node then l\<lparr>l_tail := Some a\<rparr> else l)
                   else (if l_head l = Some old_node then l\<lparr>l_head := Some a\<rparr> else l));
          let h = h(a \<mapsto> node);
          h \<leftarrow> (if ln_prev node \<noteq> None then set_next h (ln_prev node) (Some a) else Some h);
          h \<leftarrow> (if ln_next node \<noteq> None then set_prev h (ln_next node) (Some a) else Some h);
          Some (h, l\<lparr>l_len := l_len l + 1\<rparr>, True)
        })"

definition listDelNode :: "'v node_heap \<Rightarrow> 'v adlist \<Rightarrow> nat \<Rightarrow> ('v node_heap \<times> 'v adlist \<times> 'v list) option" where
  "listDelNode h l a = do {
     node \<leftarrow> h a;
     (h, l) \<leftarrow> (if ln_prev node \<noteq> None then do { h \<leftarrow> set_next h (ln_prev node) (ln_next node); Some (h, l) }
              else Some (h, l\<lparr>l_head := ln_next node\<rparr>));
     node \<leftarrow> h a;
     (h, l) \<leftarrow> (if ln_next node \<noteq> None then do { h \<leftarrow> set_prev h (ln_next node) (ln_prev node); Some (h, l) }
              else Some (h, l\<lparr>l_tail := ln_prev node\<rparr>));
     node \<leftarrow> h a;
     Some (h(a := None), l\<lparr>l_len := l_len l - 1\<rparr>, if l_free l then [ln_value node] else [])
   }"

definition listGetIterator :: "'v adlist \<Rightarrow> bool \<Rightarrow> listIter" where
  "listGetIterator l from_head = \<lparr>li_next = (if from_head then l_head l else l_tail l), li_from_head = from_head\<rparr>"

definition listRewind :: "'v adlist \<Rightarrow> listIter" where
  "listRewind l = \<lparr>li_next = l_head l, li_from_head = True\<rparr>"

definition listRewindTail :: "'v adlist \<Rightarrow> listIter" where
  "listRewindTail l = \<lparr>li_next = l_tail l, li_from_head = False\<rparr>"

definition listNext :: "'v node_heap \<Rightarrow> listIter \<Rightarrow> (listIter \<times> nat option) option" where
  "listNext h iter =
     (case li_next iter of
        None \<Rightarrow> Some (iter, None)
      | Some a \<Rightarrow> do {
          n \<leftarrow> h a;
          Some (iter\<lparr>li_next := if li_from_head iter then ln_next n else ln_prev n\<rparr>, Some a)
        })"

text \<open>The loop of \<open>listDup\<close>; the values handed to the copy's \<open>free\<close> on a failure are returned.\<close>

partial_function (option) dup_list_loop ::
  "('v node_heap \<Rightarrow> nat option) \<Rightarrow> 'v node_heap \<Rightarrow> listIter \<Rightarrow> 'v adlist \<Rightarrow> ('v node_heap \<times> 'v adlist option \<times> 'v list) option" where
  "dup_list_loop alloc h iter copy = do {
     (iter, node) \<leftarrow> listNext h iter;
     case node of
       None \<Rightarrow> Some (h, Some copy, [])
     | Some a \<Rightarrow> do {
         n \<leftarrow> h a;
         case (case l_dup copy of Some dup \<Rightarrow> dup (ln_value n) | None \<Rightarrow> Some (ln_value n)) of
           None \<Rightarrow> do { (h, freed) \<leftarrow> listRelease h copy; Some (h, None, freed) }
         | Some value \<Rightarrow> do {
             (h, copy, ok) \<leftarrow> listAddNodeTail alloc h copy value;
             if ok then dup_list_loop alloc h iter copy
             else do { (h, freed) \<leftarrow> listRelease h copy; Some (h, None, (if l_free copy then [value] else []) @ freed) }
           }
       }
   }"

definition listDup ::
  "bool \<Rightarrow> ('v node_heap \<Rightarrow> nat option) \<Rightarrow> 'v node_heap \<Rightarrow> 'v adlist \<Rightarrow> ('v node_heap \<times> 'v adlist option \<times> 'v list) option" where
  "listDup mem alloc h orig =
     (case listCreate mem of
        None \<Rightarrow> Some (h, None, [])
      | Some copy \<Rightarrow>
          dup_list_loop alloc h (listRewind orig)
            (copy\<lparr>l_dup := l_dup orig, l_free := l_free orig, l_match := l_match orig\<rparr>))"

partial_function (option) search_list_loop ::
  "'v node_heap \<Rightarrow> 'v adlist \<Rightarrow> listIter \<Rightarrow> 'v \<Rightarrow> nat option option" where
  "search_list_loop h l iter key = do {
     (iter, node) \<leftarrow> listNext h iter;
     case node of
       None \<Rightarrow> Some None
     | Some a \<Rightarrow> do {
         n \<leftarrow> h a;
         if (case l_match l of Some match \<Rightarrow> match (ln_value n) key | None \<Rightarrow> key = ln_value n)
         then Some (Some a) else search_list_loop h l iter key
       }
   }"

definition listSearchKey :: "'v node_heap \<Rightarrow> 'v adlist \<Rightarrow> 'v \<Rightarrow> nat option option" where
  "listSearchKey h l key = search_list_loop h l (listRewind l) key"

fun index_loop :: "'v node_heap \<Rightarrow> bool \<Rightarrow> nat \<Rightarrow> nat option \<Rightarrow> nat option option" where
  "index_loop h forward 0 n = Some n"
| "index_loop h forward (Suc i) n =
     (if n = None then Some None
      else do { nd \<leftarrow> node_at h n; index_loop h forward i (if forward then ln_next nd else ln_prev nd) })"

text \<open>For \<open>LONG_MIN\<close> the wrapped value of \<open>(-index)-1\<close> is the exact one below, \<open>LONG_MAX\<close>.\<close>

definition listIndex :: "'v node_heap \<Rightarrow> 'v adlist \<Rightarrow> int \<Rightarrow> nat option option" where
  "listIndex h l index =
     (if index < 0 then index_loop h False (nat (- index - 1)) (l_tail l) else index_loop h True (nat index) (l_head l))"

definition listRotateTailToHead :: "'v node_heap \<Rightarrow> 'v adlist \<Rightarrow> ('v node_heap \<times> 'v adlist) option" where
  "listRotateTailToHead h l =
     (if l_len l \<le> 1 then Some (h, l)
      else do {
        let tail = l_tail l;
        t \<leftarrow> node_at h tail;
        let l = l\<lparr>l_tail := ln_prev t\<rparr>;
        h \<leftarrow> set_next h (l_tail l) None;
        h \<leftarrow> set_prev h (l_head l) tail;
        h \<leftarrow> set_prev h tail None;
        h \<leftarrow> set_next h tail (l_head l);
        Some (h, l\<lparr>l_head := tail\<rparr>)
      })"

definition listRotateHeadToTail :: "'v node_heap \<Rightarrow> 'v adlist \<Rightarrow> ('v node_heap \<times> 'v adlist) option" where
  "listRotateHeadToTail h l =
     (if l_len l \<le> 1 then Some (h, l)
      else do {
        let head = l_head l;
        n \<leftarrow> node_at h head;
        let l = l\<lparr>l_head := ln_next n\<rparr>;
        h \<leftarrow> set_prev h (l_head l) None;
        h \<leftarrow> set_next h (l_tail l) head;
        h \<leftarrow> set_next h head None;
        h \<leftarrow> set_prev h head (l_tail l);
        Some (h, l\<lparr>l_tail := head\<rparr>)
      })"

definition listJoin :: "'v node_heap \<Rightarrow> 'v adlist \<Rightarrow> 'v adlist \<Rightarrow> ('v node_heap \<times> 'v adlist \<times> 'v adlist) option" where
  "listJoin h l other =
     (if l_len other = 0 then Some (h, l, other)
      else do {
        h \<leftarrow> set_prev h (l_head other) (l_tail l);
        (h, l) \<leftarrow> (if l_tail l \<noteq> None then do { h \<leftarrow> set_next h (l_tail l) (l_head other); Some (h, l) }
                 else Some (h, l\<lparr>l_head := l_head other\<rparr>));
        Some (h, l\<lparr>l_tail := l_tail other, l_len := l_len l + l_len other\<rparr>,
              other\<lparr>l_head := None, l_tail := None, l_len := 0\<rparr>)
      })"

section \<open>List segments\<close>

type_synonym 'v cells = "(nat \<times> 'v) list"

definition first_or :: "'v cells \<Rightarrow> nat option \<Rightarrow> nat option" where
  "first_or xs n = (case xs of [] \<Rightarrow> n | x # _ \<Rightarrow> Some (fst x))"

definition last_or :: "'v cells \<Rightarrow> nat option \<Rightarrow> nat option" where
  "last_or xs p = (if xs = [] then p else Some (fst (last xs)))"

lemma first_or_simps [simp]:
  "first_or [] n = n" "first_or (x # xs) n = Some (fst x)" "first_or (xs @ ys) n = first_or xs (first_or ys n)"
  by (simp_all add: first_or_def split: list.split)

lemma last_or_simps [simp]:
  "last_or [] p = p" "last_or (x # xs) p = last_or xs (Some (fst x))" "last_or (xs @ ys) p = last_or ys (last_or xs p)"
  by (simp_all add: last_or_def)

lemma first_or_None [simp]: "first_or xs None = None \<longleftrightarrow> xs = []"
  by (cases xs) simp_all

lemma last_or_None [simp]: "last_or xs None = None \<longleftrightarrow> xs = []"
  by (simp add: last_or_def)

fun dlseg :: "'v node_heap \<Rightarrow> nat option \<Rightarrow> 'v cells \<Rightarrow> nat option \<Rightarrow> bool" where
  "dlseg h p [] n = True"
| "dlseg h p (x # xs) n =
     (h (fst x) = Some \<lparr>ln_prev = p, ln_next = first_or xs n, ln_value = snd x\<rparr> \<and> dlseg h (Some (fst x)) xs n)"

lemma dlseg_append [simp]:
  "dlseg h p (xs @ ys) n \<longleftrightarrow> dlseg h p xs (first_or ys n) \<and> dlseg h (last_or xs p) ys n"
  by (induction xs arbitrary: p) auto

lemma dlseg_frame: "dlseg h p xs n \<Longrightarrow> (\<And>a. a \<in> fst ` set xs \<Longrightarrow> h' a = h a) \<Longrightarrow> dlseg h' p xs n"
  by (induction xs arbitrary: p) auto

lemma dlseg_upd [simp]: "a \<notin> fst ` set xs \<Longrightarrow> dlseg (h(a := x)) p xs n = dlseg h p xs n"
  by (induction xs arbitrary: p) auto

lemma dlseg_dom: "dlseg h p xs n \<Longrightarrow> a \<in> fst ` set xs \<Longrightarrow> h a \<noteq> None"
  by (induction xs arbitrary: p) auto

abbreviation addrs :: "'v cells \<Rightarrow> nat set" where
  "addrs xs \<equiv> fst ` set xs"

text \<open>What an operation may change: the nodes at some addresses.\<close>

definition only :: "nat set \<Rightarrow> 'v node_heap \<Rightarrow> 'v node_heap \<Rightarrow> bool" where
  "only A h h' \<longleftrightarrow> (\<forall>b. b \<notin> A \<longrightarrow> h' b = h b)"

lemma dlseg_only: "dlseg h p xs n \<Longrightarrow> only A h h' \<Longrightarrow> A \<inter> addrs xs = {} \<Longrightarrow> dlseg h' p xs n"
  by (erule dlseg_frame) (auto simp: only_def)

text \<open>Changing the link that leaves a segment at its end, or at its front.\<close>

lemma seg_set_next:
  assumes "dlseg h p xs n" "xs \<noteq> []" "distinct (map fst xs)"
  shows "\<exists>h'. set_next h (last_or xs p) q = Some h' \<and> dlseg h' p xs q \<and> only (addrs xs) h h'"
proof -
  obtain ys a v where xs: "xs = ys @ [(a, v)]" using assms(2) by (metis surj_pair rev_exhaust)
  let ?n = "\<lparr>ln_prev = last_or ys p, ln_next = q, ln_value = v\<rparr>"
  have "a \<notin> fst ` set ys" using assms(3) xs by auto
  then have "set_next h (last_or xs p) q = Some (h(a \<mapsto> ?n)) \<and> dlseg (h(a \<mapsto> ?n)) p xs q \<and>
      only (addrs xs) h (h(a \<mapsto> ?n))"
    using assms(1) by (simp add: xs set_next_def only_def)
  then show ?thesis by blast
qed

lemma seg_set_prev:
  assumes "dlseg h p xs n" "xs \<noteq> []" "distinct (map fst xs)"
  shows "\<exists>h'. set_prev h (first_or xs n) q = Some h' \<and> dlseg h' q xs n \<and> only (addrs xs) h h'"
proof -
  obtain a v ys where xs: "xs = (a, v) # ys" using assms(2) by (cases xs) auto
  let ?n = "\<lparr>ln_prev = q, ln_next = first_or ys n, ln_value = v\<rparr>"
  have "a \<notin> fst ` set ys" using assms(3) xs by auto
  then have "set_prev h (first_or xs n) q = Some (h(a \<mapsto> ?n)) \<and> dlseg (h(a \<mapsto> ?n)) q xs n \<and>
      only (addrs xs) h (h(a \<mapsto> ?n))"
    using assms(1) by (simp add: xs set_prev_def only_def)
  then show ?thesis by blast
qed

lemma link_next:
  assumes "dlseg h None xs n" "distinct (map fst xs)"
  shows "\<exists>h'. (if last_or xs None \<noteq> None then set_next h (last_or xs None) q else Some h) = Some h' \<and> dlseg h' None xs q \<and> only (addrs xs) h h'"
proof (cases "xs = []")
  case True
  then show ?thesis by (simp add: only_def)
next
  case False
  then show ?thesis using seg_set_next [OF assms(1) False assms(2), of q] by simp
qed

lemma link_prev:
  assumes "dlseg h p ys None" "distinct (map fst ys)"
  shows "\<exists>h'. (if first_or ys None \<noteq> None then set_prev h (first_or ys None) q else Some h) = Some h' \<and> dlseg h' q ys None \<and> only (addrs ys) h h'"
proof (cases "ys = []")
  case True
  then show ?thesis by (simp add: only_def)
next
  case False
  then show ?thesis using seg_set_prev [OF assms(1) False assms(2), of q] by simp
qed

lemma first_or_in: "xs \<noteq> [] \<Longrightarrow> \<exists>a \<in> fst ` set xs. first_or xs n = Some a"
  by (cases xs) auto

lemma last_or_in: "xs \<noteq> [] \<Longrightarrow> \<exists>a \<in> fst ` set xs. last_or xs p = Some a"
  by (auto simp: last_or_def)

section \<open>Lists\<close>

definition dll :: "'v node_heap \<Rightarrow> 'v adlist \<Rightarrow> 'v cells \<Rightarrow> bool" where
  "dll h l xs \<longleftrightarrow> l_head l = first_or xs None \<and> l_tail l = last_or xs None \<and> l_len l = length xs \<and>
     distinct (map fst xs) \<and> dlseg h None xs None"

definition same_methods :: "'v adlist \<Rightarrow> 'v adlist \<Rightarrow> bool" where
  "same_methods l l' \<longleftrightarrow> l_dup l' = l_dup l \<and> l_free l' = l_free l \<and> l_match l' = l_match l"

definition alloc_ok :: "('v node_heap \<Rightarrow> nat option) \<Rightarrow> bool" where
  "alloc_ok alloc \<longleftrightarrow> (\<forall>h a. alloc h = Some a \<longrightarrow> h a = None)"

lemma dll_other: "dll h l xs \<Longrightarrow> only A h h' \<Longrightarrow> A \<inter> addrs xs = {} \<Longrightarrow> dll h' l xs"
  unfolding dll_def by (metis dlseg_only)

lemma dll_len0: "dll h l xs \<Longrightarrow> l_len l = 0 \<longleftrightarrow> xs = []"
  by (simp add: dll_def)

text \<open>The one step behind every insertion: a new node between two segments.\<close>

lemma splice:
  assumes d: "dlseg h None (xs @ ys) None" "distinct (map fst (xs @ ys))" "h a = None"
  shows "\<exists>h1 h2. (if last_or xs None \<noteq> None then set_next (h(a \<mapsto> \<lparr>ln_prev = last_or xs None, ln_next = first_or ys None, ln_value = v\<rparr>)) (last_or xs None) (Some a)
        else Some (h(a \<mapsto> \<lparr>ln_prev = last_or xs None, ln_next = first_or ys None, ln_value = v\<rparr>))) = Some h1 \<and>
    (if first_or ys None \<noteq> None then set_prev h1 (first_or ys None) (Some a) else Some h1) = Some h2 \<and>
    dlseg h2 None (xs @ (a, v) # ys) None \<and> only (insert a (addrs (xs @ ys))) h h2"
proof -
  let ?n = "\<lparr>ln_prev = last_or xs None, ln_next = first_or ys None, ln_value = v\<rparr>"
  let ?h = "h(a \<mapsto> ?n)"
  have "a \<notin> addrs (xs @ ys)" using dlseg_dom [OF d(1), of a] d(3) by blast
  then have a: "a \<notin> addrs xs" "a \<notin> addrs ys" by (simp_all add: image_Un)
  have s: "dlseg ?h None xs (first_or ys None)" "dlseg ?h (last_or xs None) ys None" using d(1) a by simp_all
  have dj: "addrs xs \<inter> addrs ys = {}" "distinct (map fst xs)" "distinct (map fst ys)" using d(2) by simp_all
  obtain h1 where h1: "(if last_or xs None \<noteq> None then set_next ?h (last_or xs None) (Some a) else Some ?h) = Some h1"
    "dlseg h1 None xs (Some a)" "only (addrs xs) ?h h1"
    using link_next [OF s(1) dj(2), of "Some a"] by (elim exE conjE) (rule that)
  have s1: "dlseg h1 (last_or xs None) ys None" using dlseg_only [OF s(2) h1(3)] dj(1) by blast
  obtain h2 where h2: "(if first_or ys None \<noteq> None then set_prev h1 (first_or ys None) (Some a) else Some h1) = Some h2"
    "dlseg h2 (Some a) ys None" "only (addrs ys) h1 h2"
    using link_prev [OF s1 dj(3), of "Some a"] by (elim exE conjE) (rule that)
  have "dlseg h2 None xs (Some a)" using dlseg_only [OF h1(2) h2(3)] dj(1) by blast
  moreover have "h2 a = Some ?n" using h1(3) h2(3) a by (simp add: only_def)
  moreover have "only (insert a (addrs (xs @ ys))) h h2" using h1(3) h2(3) by (auto simp: only_def image_Un)
  ultimately have "dlseg h2 None (xs @ (a, v) # ys) None \<and> only (insert a (addrs (xs @ ys))) h h2" using h2(2) by simp
  with h1(1) h2(1) show ?thesis by (rule_tac x = h1 in exI, rule_tac x = h2 in exI) (intro conjI; (assumption | simp))
qed

lemma only_trans: "only A h h1 \<Longrightarrow> only B h1 h2 \<Longrightarrow> A \<union> B \<subseteq> C \<Longrightarrow> only C h h2"
  unfolding only_def by (metis UnCI in_mono)

lemma dllD:
  assumes "dll h l xs"
  shows "l_head l = first_or xs None" "l_tail l = last_or xs None" "l_len l = length xs" "distinct (map fst xs)" "dlseg h None xs None"
  using assms by (simp_all add: dll_def)

lemma dll_create: "dll h empty_adlist []"
  by (simp add: dll_def empty_adlist_def)

lemma or_nonempty:
  "xs \<noteq> [] \<Longrightarrow> first_or xs n = Some (fst (hd xs))" "xs \<noteq> [] \<Longrightarrow> last_or xs p = Some (fst (last xs))"
  by (simp_all add: first_or_def last_or_def split: list.split)

section \<open>Insertion\<close>

lemma listInsertNode_spec:
  assumes l: "dll h l (xs @ (o1, w) # ys)" and a: "alloc h = Some a" "h a = None"
  shows "\<exists>h' l'. listInsertNode alloc h l o1 v after = Some (h', l', True) \<and>
    dll h' l' (if after then xs @ (o1, w) # (a, v) # ys else xs @ (a, v) # (o1, w) # ys) \<and>
    only (insert a (addrs (xs @ (o1, w) # ys))) h h' \<and> same_methods l l'"
proof -
  note d = dllD [OF l]
  define us where "us = (if after then xs @ [(o1, w)] else xs)"
  define vs where "vs = (if after then ys else (o1, w) # ys)"
  have uv: "xs @ (o1, w) # ys = us @ vs" by (simp add: us_def vs_def)
  let ?n = "\<lparr>ln_prev = last_or us None, ln_next = first_or vs None, ln_value = v\<rparr>"
  have n: "h o1 = Some \<lparr>ln_prev = last_or xs None, ln_next = first_or ys None, ln_value = w\<rparr>" using d(5) by simp
  have "a \<notin> addrs (us @ vs)" using dlseg_dom [OF d(5) [unfolded uv], of a] a(2) by blast
  then have dist: "distinct (map fst (us @ (a, v) # vs))" using d(4) unfolding uv by (auto simp: image_Un)
  obtain h1 h2 where r: "(if last_or us None \<noteq> None then set_next (h(a \<mapsto> ?n)) (last_or us None) (Some a) else Some (h(a \<mapsto> ?n))) = Some h1"
    "(if first_or vs None \<noteq> None then set_prev h1 (first_or vs None) (Some a) else Some h1) = Some h2"
    "dlseg h2 None (us @ (a, v) # vs) None" "only (insert a (addrs (us @ vs))) h h2"
    using splice [OF d(5,4) [unfolded uv] a(2), of v] by (elim exE conjE) (rule that)
  have tl: "l_tail l = Some o1 \<longleftrightarrow> ys = []" "l_head l = Some o1 \<longleftrightarrow> xs = []"
    using d(1,2,4) by (cases ys rule: rev_cases; cases xs; auto)+
  define l' where "l' = (if after then (if l_tail l = Some o1 then l\<lparr>l_tail := Some a\<rparr> else l)
                   else (if l_head l = Some o1 then l\<lparr>l_head := Some a\<rparr> else l))\<lparr>l_len := l_len l + 1\<rparr>"
  have "listInsertNode alloc h l o1 v after = Some (h2, l', True)"
    using a(1) n r(1,2) by (cases after; cases "xs = []"; cases "ys = []") (auto simp: listInsertNode_def us_def vs_def l'_def Let_def)
  moreover have "dll h2 l' (us @ (a, v) # vs)"
    using d(1-3) tl r(3) dist by (cases after) (auto simp: dll_def l'_def us_def vs_def or_nonempty)
  moreover have "same_methods l l'" by (simp add: same_methods_def l'_def)
  moreover have "us @ (a, v) # vs = (if after then xs @ (o1, w) # (a, v) # ys else xs @ (a, v) # (o1, w) # ys)"
    by (simp add: us_def vs_def)
  ultimately show ?thesis using r(4) unfolding uv by (intro exI [of _ h2] exI [of _ l']) simp
qed

lemma listAddNodeHead_spec:
  assumes l: "dll h l xs" and a: "alloc h = Some a" "h a = None"
  shows "\<exists>h' l'. listAddNodeHead alloc h l v = Some (h', l', True) \<and> dll h' l' ((a, v) # xs) \<and>
    only (insert a (addrs xs)) h h' \<and> same_methods l l'"
proof (cases "xs = []")
  case True
  then show ?thesis using l a by (auto simp: listAddNodeHead_def dll_def only_def same_methods_def)
next
  case False
  note d = dllD [OF l]
  have na: "a \<notin> addrs xs" using dlseg_dom [OF d(5), of a] a(2) by blast
  obtain h1 h2 where r: "h1 = h(a \<mapsto> \<lparr>ln_prev = None, ln_next = first_or xs None, ln_value = v\<rparr>)"
    "set_prev h1 (first_or xs None) (Some a) = Some h2"
    "dlseg h2 None ([] @ (a, v) # xs) None" "only (insert a (addrs ([] @ xs))) h h2"
    using splice [of h "[]" xs a v] d(4,5) a(2) False by auto
  then show ?thesis using a d na False
    by (intro exI [of _ h2] exI [of _ "l\<lparr>l_head := Some a, l_len := l_len l + 1\<rparr>"])
      (auto simp: listAddNodeHead_def dll_def same_methods_def or_nonempty)
qed

lemma listAddNodeTail_spec:
  assumes l: "dll h l xs" and a: "alloc h = Some a" "h a = None"
  shows "\<exists>h' l'. listAddNodeTail alloc h l v = Some (h', l', True) \<and> dll h' l' (xs @ [(a, v)]) \<and>
    only (insert a (addrs xs)) h h' \<and> same_methods l l'"
proof (cases "xs = []")
  case True
  then show ?thesis using l a by (auto simp: listAddNodeTail_def dll_def only_def same_methods_def)
next
  case False
  note d = dllD [OF l]
  have na: "a \<notin> addrs xs" using dlseg_dom [OF d(5), of a] a(2) by blast
  have x: "dlseg h None (xs @ []) None" "distinct (map fst (xs @ []))" using d(4,5) by simp_all
  obtain h2 where r: "set_next (h(a \<mapsto> \<lparr>ln_prev = last_or xs None, ln_next = None, ln_value = v\<rparr>)) (last_or xs None) (Some a) = Some h2"
    "dlseg h2 None (xs @ [(a, v)]) None" "only (insert a (addrs xs)) h h2"
    using splice [OF x a(2), of v] False by auto
  then show ?thesis using a d na False
    by (intro exI [of _ h2] exI [of _ "l\<lparr>l_tail := Some a, l_len := l_len l + 1\<rparr>"])
      (auto simp: listAddNodeTail_def dll_def same_methods_def or_nonempty)
qed

section \<open>Deletion\<close>

lemma listDelNode_spec:
  assumes l: "dll h l (xs @ (a, v) # ys)"
  shows "\<exists>h' l'. listDelNode h l a = Some (h', l', if l_free l then [v] else []) \<and> dll h' l' (xs @ ys) \<and> h' a = None \<and>
    only (addrs (xs @ (a, v) # ys)) h h' \<and> same_methods l l'"
proof -
  note d = dllD [OF l]
  let ?n = "\<lparr>ln_prev = last_or xs None, ln_next = first_or ys None, ln_value = v\<rparr>"
  have s: "dlseg h None xs (Some a)" "h a = Some ?n" "dlseg h (Some a) ys None" using d(5) by simp_all
  have dj: "addrs xs \<inter> addrs ys = {}" "distinct (map fst xs)" "distinct (map fst ys)" "a \<notin> addrs xs" "a \<notin> addrs ys"
    using d(4) by auto
  obtain h1 where h1: "(if last_or xs None \<noteq> None then set_next h (last_or xs None) (first_or ys None) else Some h) = Some h1"
    "dlseg h1 None xs (first_or ys None)" "only (addrs xs) h h1"
    using link_next [OF s(1) dj(2), of "first_or ys None"] by (elim exE conjE) (rule that)
  have s1: "dlseg h1 (Some a) ys None" using dlseg_only [OF s(3) h1(3)] dj(1) by blast
  have a1: "h1 a = Some ?n" using h1(3) s(2) dj(4) by (simp add: only_def)
  obtain h2 where h2: "(if first_or ys None \<noteq> None then set_prev h1 (first_or ys None) (last_or xs None) else Some h1) = Some h2"
    "dlseg h2 (last_or xs None) ys None" "only (addrs ys) h1 h2"
    using link_prev [OF s1 dj(3), of "last_or xs None"] by (elim exE conjE) (rule that)
  have a2: "h2 a = Some ?n" using h2(3) a1 dj(5) by (simp add: only_def)
  have s2: "dlseg h2 None xs (first_or ys None)" using dlseg_only [OF h1(2) h2(3)] dj(1) by blast
  define l' where "l' = (let l1 = (if last_or xs None \<noteq> None then l else l\<lparr>l_head := first_or ys None\<rparr>) in
     if first_or ys None \<noteq> None then l1 else l1\<lparr>l_tail := last_or xs None\<rparr>)\<lparr>l_len := l_len l - 1\<rparr>"
  have "listDelNode h l a = Some (h2(a := None), l', if l_free l then [v] else [])"
    using s(2) h1(1) a1 h2(1) a2 by (cases "xs = []"; cases "ys = []") (simp_all add: listDelNode_def l'_def Let_def)
  moreover have "dll (h2(a := None)) l' (xs @ ys)"
    using s2 h2(2) dj d(1-3) by (cases "xs = []"; cases "ys = []") (auto simp: dll_def l'_def Let_def or_nonempty)
  moreover have "only (addrs (xs @ (a, v) # ys)) h (h2(a := None))" using h1(3) h2(3) by (auto simp: only_def image_Un)
  moreover have "same_methods l l'" by (simp add: same_methods_def l'_def Let_def)
  ultimately show ?thesis by (intro exI [of _ "h2(a := None)"] exI [of _ l']) simp
qed

lemma empty_loop_spec:
  "dlseg h p xs None \<Longrightarrow> distinct (map fst xs) \<Longrightarrow>
   empty_loop (length xs) h (first_or xs None) fr = Some (h |` (- addrs xs), fr @ map snd xs)"
proof (induction xs arbitrary: h p fr)
  case (Cons x xs)
  have "(h(fst x := None)) |` (- addrs xs) = h |` (- addrs (x # xs))" by (auto simp: restrict_map_def)
  then show ?case using Cons.IH [of "h(fst x := None)" "Some (fst x)" "fr @ [snd x]"] Cons.prems
    by (simp del: fun_upd_apply)
qed (simp add: restrict_map_def)

lemma listEmpty_spec:
  assumes "dll h l xs"
  shows "\<exists>l'. listEmpty h l = Some (h |` (- addrs xs), l', if l_free l then map snd xs else []) \<and>
    dll (h |` (- addrs xs)) l' [] \<and> same_methods l l'"
  using dllD [OF assms] empty_loop_spec [of h None xs "[]"] by (simp add: listEmpty_def dll_def same_methods_def)

section \<open>Rotation and join\<close>

lemma listRotateTailToHead_spec:
  assumes l: "dll h l (ys @ [(t, v)])"
  shows "\<exists>h' l'. listRotateTailToHead h l = Some (h', l') \<and> dll h' l' ((t, v) # ys) \<and>
    only (addrs ((t, v) # ys)) h h' \<and> same_methods l l'"
proof (cases "ys = []")
  case True
  then show ?thesis using l by (simp add: listRotateTailToHead_def dll_def only_def same_methods_def)
next
  case False
  note d = dllD [OF l]
  have s: "dlseg h None ys (Some t)" "h t = Some \<lparr>ln_prev = last_or ys None, ln_next = None, ln_value = v\<rparr>"
    "distinct (map fst ys)" "t \<notin> addrs ys" using d(4,5) by auto
  obtain h1 where h1: "set_next h (last_or ys None) None = Some h1" "dlseg h1 None ys None" "only (addrs ys) h h1"
    using seg_set_next [OF s(1) False s(3), of None] by (elim exE conjE) (rule that)
  obtain h2 where h2: "set_prev h1 (first_or ys None) (Some t) = Some h2" "dlseg h2 (Some t) ys None" "only (addrs ys) h1 h2"
    using seg_set_prev [OF h1(2) False s(3), of "Some t"] by (elim exE conjE) (rule that)
  have t: "h2 t = Some \<lparr>ln_prev = last_or ys None, ln_next = None, ln_value = v\<rparr>"
    using h1(3) h2(3) s(2,4) by (simp add: only_def)
  let ?h = "h2(t \<mapsto> \<lparr>ln_prev = None, ln_next = first_or ys None, ln_value = v\<rparr>)"
  let ?l = "l\<lparr>l_tail := last_or ys None, l_head := Some t\<rparr>"
  have hd: "l_head l = first_or ys None" "\<not> length ys = 0" using d(1) False by (simp_all add: or_nonempty)
  have "listRotateTailToHead h l = Some (?h, ?l)"
    using False d hd s(2) h1(1) h2(1) t
    by (simp add: listRotateTailToHead_def Let_def node_at_def set_prev_def [of _ "Some t"] set_next_def [of _ "Some t"])
  moreover have "dll ?h ?l ((t, v) # ys)" using d s h2(2) False by (simp add: dll_def or_nonempty)
  moreover have "only (addrs ((t, v) # ys)) h ?h" using h1(3) h2(3) by (simp add: only_def)
  ultimately show ?thesis by (intro exI [of _ ?h] exI [of _ ?l]) (simp add: same_methods_def)
qed

lemma listRotateHeadToTail_spec:
  assumes l: "dll h l ((t, v) # ys)"
  shows "\<exists>h' l'. listRotateHeadToTail h l = Some (h', l') \<and> dll h' l' (ys @ [(t, v)]) \<and>
    only (addrs ((t, v) # ys)) h h' \<and> same_methods l l'"
proof (cases "ys = []")
  case True
  then show ?thesis using l by (simp add: listRotateHeadToTail_def dll_def only_def same_methods_def)
next
  case False
  note d = dllD [OF l]
  have s: "dlseg h (Some t) ys None" "h t = Some \<lparr>ln_prev = None, ln_next = first_or ys None, ln_value = v\<rparr>"
    "distinct (map fst ys)" "t \<notin> addrs ys" using d(4,5) by auto
  obtain h1 where h1: "set_prev h (first_or ys None) None = Some h1" "dlseg h1 None ys None" "only (addrs ys) h h1"
    using seg_set_prev [OF s(1) False s(3), of None] by (elim exE conjE) (rule that)
  obtain h2 where h2: "set_next h1 (last_or ys None) (Some t) = Some h2" "dlseg h2 None ys (Some t)" "only (addrs ys) h1 h2"
    using seg_set_next [OF h1(2) False s(3), of "Some t"] by (elim exE conjE) (rule that)
  have t: "h2 t = Some \<lparr>ln_prev = None, ln_next = first_or ys None, ln_value = v\<rparr>"
    using h1(3) h2(3) s(2,4) by (simp add: only_def)
  let ?h = "h2(t \<mapsto> \<lparr>ln_prev = last_or ys None, ln_next = None, ln_value = v\<rparr>)"
  let ?l = "l\<lparr>l_head := first_or ys None, l_tail := Some t\<rparr>"
  have hd: "l_tail l = last_or ys None" "\<not> length ys = 0" using d(2) False by (simp_all add: or_nonempty)
  have "listRotateHeadToTail h l = Some (?h, ?l)"
    using False d hd s(2) h1(1) h2(1) t
    by (simp add: listRotateHeadToTail_def Let_def node_at_def set_prev_def [of _ "Some t"] set_next_def [of _ "Some t"])
  moreover have "dll ?h ?l (ys @ [(t, v)])" using d s h2(2) False by (simp add: dll_def or_nonempty)
  moreover have "only (addrs ((t, v) # ys)) h ?h" using h1(3) h2(3) by (simp add: only_def)
  ultimately show ?thesis by (intro exI [of _ ?h] exI [of _ ?l]) (simp add: same_methods_def)
qed

lemma listJoin_spec:
  assumes l: "dll h l xs" and o: "dll h other ys" and dj: "addrs xs \<inter> addrs ys = {}"
  shows "\<exists>h' l' other'. listJoin h l other = Some (h', l', other') \<and> dll h' l' (xs @ ys) \<and> dll h' other' [] \<and>
    only (addrs (xs @ ys)) h h' \<and> same_methods l l' \<and> same_methods other other'"
proof (cases "ys = []")
  case True
  then show ?thesis using l o by (simp add: listJoin_def dll_def only_def same_methods_def)
next
  case False
  note d = dllD [OF l] note e = dllD [OF o]
  obtain h1 where h1: "set_prev h (first_or ys None) (last_or xs None) = Some h1" "dlseg h1 (last_or xs None) ys None" "only (addrs ys) h h1"
    using seg_set_prev [OF e(5) False e(4), of "last_or xs None"] by (elim exE conjE) (rule that)
  have s1: "dlseg h1 None xs None" using dlseg_only [OF d(5) h1(3)] dj by blast
  obtain h2 where h2: "(if last_or xs None \<noteq> None then set_next h1 (last_or xs None) (first_or ys None) else Some h1) = Some h2"
    "dlseg h2 None xs (first_or ys None)" "only (addrs xs) h1 h2"
    using link_next [OF s1 d(4), of "first_or ys None"] by (elim exE conjE) (rule that)
  have s2: "dlseg h2 (last_or xs None) ys None" using dlseg_only [OF h1(2) h2(3)] dj by blast
  let ?l = "(if xs = [] then l\<lparr>l_head := first_or ys None\<rparr> else l)\<lparr>l_tail := last_or ys None, l_len := l_len l + l_len other\<rparr>"
  let ?o = "other\<lparr>l_head := None, l_tail := None, l_len := 0\<rparr>"
  have "listJoin h l other = Some (h2, ?l, ?o)"
    using False d e h1(1) h2(1) by (cases "xs = []") (auto simp: listJoin_def)
  moreover have "dll h2 ?l (xs @ ys)" using False d e dj h2(2) s2 by (cases "xs = []") (auto simp: dll_def or_nonempty)
  moreover have "only (addrs (xs @ ys)) h h2" using h1(3) h2(3) by (auto simp: only_def image_Un)
  moreover have "dll h2 ?o []" by (simp add: dll_def)
  ultimately show ?thesis by (intro exI [of _ h2] exI [of _ ?l] exI [of _ ?o]) (simp add: same_methods_def)
qed

section \<open>Lookup by position and by key\<close>

lemma index_forward:
  "dlseg h p xs None \<Longrightarrow> index_loop h True i (first_or xs None) = Some (if i < length xs then Some (fst (xs ! i)) else None)"
proof (induction xs arbitrary: p i)
  case Nil then show ?case by (cases i) simp_all
next
  case (Cons x xs)
  then show ?case using Cons.IH [of "Some (fst x)" "i - 1"] by (cases i) (simp_all add: node_at_def)
qed

lemma index_backward:
  "dlseg h None xs n \<Longrightarrow> index_loop h False i (last_or xs None) = Some (if i < length xs then Some (fst (rev xs ! i)) else None)"
proof (induction xs arbitrary: n i rule: rev_induct)
  case Nil then show ?case by (cases i) simp_all
next
  case (snoc x xs)
  then show ?case using snoc.IH [of "Some (fst x)" "i - 1"] by (cases i) (simp_all add: node_at_def)
qed

definition index_pos :: "nat \<Rightarrow> int \<Rightarrow> nat option" where
  "index_pos n i = (if 0 \<le> i \<and> i < int n then Some (nat i) else if - int n \<le> i \<and> i < 0 then Some (nat (int n + i)) else None)"

lemma index_pos_less: "index_pos n i = Some k \<Longrightarrow> k < n"
  by (auto simp: index_pos_def split: if_splits)

lemma listIndex_spec:
  assumes "dll h l xs"
  shows "listIndex h l i = Some (map_option (\<lambda>k. fst (xs ! k)) (index_pos (length xs) i))"
proof (cases "i < 0")
  case True
  have "length xs - Suc (nat (- i - 1)) = nat (int (length xs) + i)" using True by linarith
  then show ?thesis using True dllD [OF assms] index_backward [of h xs None "nat (- i - 1)"]
    by (auto simp: listIndex_def index_pos_def rev_nth)
next
  case False
  then show ?thesis using dllD [OF assms] index_forward [of h None xs "nat i"]
    by (auto simp: listIndex_def index_pos_def)
qed

definition list_matches :: "'v adlist \<Rightarrow> 'v \<Rightarrow> 'v \<Rightarrow> bool" where
  "list_matches l key v = (case l_match l of Some match \<Rightarrow> match v key | None \<Rightarrow> key = v)"

lemma search_list_loop_spec:
  "dlseg h p xs None \<Longrightarrow> search_list_loop h l \<lparr>li_next = first_or xs None, li_from_head = True\<rparr> key =
     Some (map_option fst (find (\<lambda>c. list_matches l key (snd c)) xs))"
proof (induction xs arbitrary: p)
  case Nil then show ?case by (subst search_list_loop.simps) (simp add: listNext_def)
next
  case (Cons x xs)
  then show ?case using Cons.IH [of "Some (fst x)"]
    by (subst search_list_loop.simps) (cases "l_match l"; simp add: listNext_def list_matches_def)
qed

lemma listSearchKey_spec:
  "dll h l xs \<Longrightarrow> listSearchKey h l key = Some (map_option fst (find (\<lambda>c. list_matches l key (snd c)) xs))"
  using search_list_loop_spec [of h None xs l key] by (simp add: dll_def listSearchKey_def listRewind_def)

section \<open>Copying a list\<close>

definition dup_value :: "'v adlist \<Rightarrow> 'v \<Rightarrow> 'v option" where
  "dup_value l v = (case l_dup l of Some dup \<Rightarrow> dup v | None \<Rightarrow> Some v)"

text \<open>
  A copy of the values \<open>vs\<close> started in heap \<open>h0\<close>, when the values \<open>ws\<close> have been copied already, stops at value \<open>k\<close>:
  the \<open>dup\<close> method fails on it, or the allocator fails in the heap where all values before it are copied. The values
  handed to \<open>free\<close> are the copied ones, in the second case also the duplicate of value \<open>k\<close>, first.
\<close>

definition dup_failure ::
  "('v node_heap \<Rightarrow> nat option) \<Rightarrow> 'v adlist \<Rightarrow> 'v node_heap \<Rightarrow> 'v list \<Rightarrow> 'v list \<Rightarrow> 'v list \<Rightarrow> bool" where
  "dup_failure alloc orig h0 ws vs freed \<longleftrightarrow>
     (\<exists>k us. k < length vs \<and> map Some us = map (dup_value orig) (take k vs) \<and>
        (case dup_value orig (vs ! k) of
           None \<Rightarrow> freed = (if l_free orig then ws @ us else [])
         | Some u \<Rightarrow> freed = (if l_free orig then u # ws @ us else []) \<and>
             (\<exists>g copy zs. dll g copy zs \<and> map snd zs = ws @ us \<and> g |` (- addrs zs) = h0 \<and> alloc g = None)))"

text \<open>The outcome of the copy: all of the values in fresh nodes, or the heap as it was.\<close>

definition dup_outcome ::
  "('v node_heap \<Rightarrow> nat option) \<Rightarrow> 'v adlist \<Rightarrow> 'v node_heap \<Rightarrow> 'v list \<Rightarrow> 'v list \<Rightarrow> 'v node_heap \<times> 'v adlist option \<times> 'v list \<Rightarrow> bool" where
  "dup_outcome alloc orig h0 ws vs r =
     (case r of
        (h', Some copy, freed) \<Rightarrow>
          \<exists>zs us. dll h' copy zs \<and> map Some us = map (dup_value orig) vs \<and> map snd zs = ws @ us \<and>
            h' |` (- addrs zs) = h0 \<and> same_methods orig copy \<and> freed = []
      | (h', None, freed) \<Rightarrow> h' = h0 \<and> dup_failure alloc orig h0 ws vs freed)"

lemma listRelease_spec:
  "dll h l xs \<Longrightarrow> listRelease h l = Some (h |` (- addrs xs), if l_free l then map snd xs else [])"
  using listEmpty_spec [of h l xs] by (auto simp: listRelease_def)

lemma dup_failure_now:
  "dup_value orig v = None \<Longrightarrow> dup_failure alloc orig h0 ws (v # vs) (if l_free orig then ws else [])"
  "dup_value orig v = Some u \<Longrightarrow> dll g copy zs \<Longrightarrow> map snd zs = ws \<Longrightarrow> g |` (- addrs zs) = h0 \<Longrightarrow> alloc g = None \<Longrightarrow>
     dup_failure alloc orig h0 ws (v # vs) (if l_free orig then u # ws else [])"
  unfolding dup_failure_def by (intro exI [of _ 0] exI [of _ "[]"]; auto)+

lemma dup_failure_step:
  assumes "dup_failure alloc orig h0 (ws @ [u]) vs freed" "dup_value orig v = Some u"
  shows "dup_failure alloc orig h0 ws (v # vs) freed"
proof -
  obtain k us where "k < length vs" "map Some us = map (dup_value orig) (take k vs)"
    "case dup_value orig (vs ! k) of None \<Rightarrow> freed = (if l_free orig then ws @ u # us else [])
     | Some u' \<Rightarrow> freed = (if l_free orig then u' # ws @ u # us else []) \<and>
         (\<exists>g copy zs. dll g copy zs \<and> map snd zs = ws @ u # us \<and> g |` (- addrs zs) = h0 \<and> alloc g = None)"
    using assms(1) unfolding dup_failure_def append.assoc append_Cons append_Nil by (elim exE conjE) (rule that)
  then show ?thesis using assms(2) unfolding dup_failure_def
    by (intro exI [of _ "Suc k"] exI [of _ "u # us"]) (simp cong: option.case_cong)
qed

lemma dup_outcome_step:
  assumes "dup_outcome alloc orig h0 (ws @ [u]) vs r" "dup_value orig v = Some u"
  shows "dup_outcome alloc orig h0 ws (v # vs) r"
proof -
  obtain h' c freed where r: "r = (h', c, freed)" by (metis surj_pair)
  show ?thesis
  proof (cases c)
    case None
    then show ?thesis using assms dup_failure_step [of alloc orig h0 ws u vs freed v] by (simp add: dup_outcome_def r)
  next
    case (Some copy)
    with assms(1) r obtain zs us where "dll h' copy zs" "map Some us = map (dup_value orig) vs" "map snd zs = (ws @ [u]) @ us"
      "h' |` (- addrs zs) = h0" "same_methods orig copy" "freed = []"
      unfolding dup_outcome_def by auto
    then show ?thesis using assms(2) unfolding dup_outcome_def r Some
      by (simp only: prod.case option.case) (rule exI [of _ zs], rule exI [of _ "u # us"], simp)
  qed
qed

lemma restrict_fresh: "only (insert a A) h h' \<Longrightarrow> h a = None \<Longrightarrow> h' |` (- insert a A) = h |` (- A)"
  by (rule ext) (auto simp: only_def restrict_map_def)

lemma dup_list_loop_spec:
  assumes "alloc_ok alloc"
  shows "dlseg h p xs None \<Longrightarrow> dll h copy ys \<Longrightarrow> h |` (- addrs ys) = h0 \<Longrightarrow> addrs xs \<inter> addrs ys = {} \<Longrightarrow> same_methods orig copy \<Longrightarrow>
    \<exists>r. dup_list_loop alloc h \<lparr>li_next = first_or xs None, li_from_head = True\<rparr> copy = Some r \<and>
      dup_outcome alloc orig h0 (map snd ys) (map snd xs) r"
proof (induction xs arbitrary: p h copy ys)
  case Nil
  then show ?case by (subst dup_list_loop.simps) (auto simp: listNext_def dup_outcome_def)
next
  case (Cons x xs)
  note m = Cons.prems(5) [unfolded same_methods_def]
  have dv: "(case l_dup copy of Some dup \<Rightarrow> dup (snd x) | None \<Rightarrow> Some (snd x)) = dup_value orig (snd x)"
    using m by (simp add: dup_value_def)
  have loop: "dup_list_loop alloc h \<lparr>li_next = first_or (x # xs) None, li_from_head = True\<rparr> copy =
      (case dup_value orig (snd x) of
           None \<Rightarrow> do { (h, freed) \<leftarrow> listRelease h copy; Some (h, None, freed) }
         | Some value \<Rightarrow> do {
             (h, copy, ok) \<leftarrow> listAddNodeTail alloc h copy value;
             if ok then dup_list_loop alloc h \<lparr>li_next = first_or xs None, li_from_head = True\<rparr> copy
             else do { (h, freed) \<leftarrow> listRelease h copy; Some (h, None, (if l_free copy then [value] else []) @ freed) }
           })"
    using Cons.prems(1) by (subst dup_list_loop.simps) (simp add: listNext_def dv cong: option.case_cong)
  show ?case
  proof (cases "dup_value orig (snd x)")
    case None
    then show ?thesis unfolding loop using listRelease_spec [OF Cons.prems(2)] Cons.prems(3) m
        dup_failure_now(1) [OF None, of alloc h0 "map snd ys" "map snd xs"]
      by (simp add: dup_outcome_def)
  next
    case u: (Some u)
    show ?thesis
    proof (cases "alloc h")
      case None
      then have "listAddNodeTail alloc h copy u = Some (h, copy, False)" by (simp add: listAddNodeTail_def)
      moreover have "dup_failure alloc orig h0 (map snd ys) (map snd (x # xs)) (if l_free orig then u # map snd ys else [])"
        using dup_failure_now(2) [of orig "snd x" u h copy ys "map snd ys" h0 alloc, OF u Cons.prems(2) refl Cons.prems(3) None] by simp
      ultimately show ?thesis unfolding loop using listRelease_spec [OF Cons.prems(2)] Cons.prems(3) m u
        by (simp add: dup_outcome_def split: if_splits)
    next
      case (Some a)
      then have a: "h a = None" using assms by (simp add: alloc_ok_def)
      obtain h' c' where t: "listAddNodeTail alloc h copy u = Some (h', c', True)" "dll h' c' (ys @ [(a, u)])"
        "only (insert a (addrs ys)) h h'" "same_methods copy c'"
        using listAddNodeTail_spec [of h copy ys alloc a u, OF Cons.prems(2) Some a] by (elim exE conjE) (rule that)
      have na: "a \<notin> addrs (x # xs)" using dlseg_dom [OF Cons.prems(1), of a] a by blast
      have s: "dlseg h' p (x # xs) None"
        by (rule dlseg_only [OF Cons.prems(1) t(3)]) (use na Cons.prems(4) in auto)
      have i: "h' |` (- addrs (ys @ [(a, u)])) = h0" "addrs xs \<inter> addrs (ys @ [(a, u)]) = {}" "same_methods orig c'"
        using restrict_fresh [OF t(3) a] Cons.prems(3,4) na t(4) m by (auto simp: same_methods_def)
      obtain r where "dup_list_loop alloc h' \<lparr>li_next = first_or xs None, li_from_head = True\<rparr> c' = Some r"
        "dup_outcome alloc orig h0 (map snd (ys @ [(a, u)])) (map snd xs) r"
        using Cons.IH [OF _ t(2) i, of "Some (fst x)"] s by auto
      then show ?thesis unfolding loop using u t(1) dup_outcome_step [of alloc orig h0 "map snd ys" u "map snd xs" r "snd x"]
        by simp
    qed
  qed
qed

lemma listDup_spec:
  assumes "alloc_ok alloc" "dll h l xs"
  shows "\<exists>r. listDup True alloc h l = Some r \<and> dup_outcome alloc l h [] (map snd xs) r"
  using dup_list_loop_spec [OF assms(1), of h None xs "empty_adlist\<lparr>l_dup := l_dup l, l_free := l_free l, l_match := l_match l\<rparr>" "[]" h l]
    dllD [OF assms(2)]
  by (simp add: listDup_def listCreate_def listRewind_def dll_def empty_adlist_def same_methods_def restrict_map_def)

section \<open>Sequences of operations\<close>

text \<open>One call of the interface; a node is found by \<open>listIndex\<close> first, and a call on a node that is not there is
  left out.\<close>

datatype 'v list_op = PushHead 'v | PushTail 'v | InsertAt int 'v bool | DelAt int | TailToHead | HeadToTail | Clear

definition list_step ::
  "('v node_heap \<Rightarrow> nat option) \<Rightarrow> 'v list_op \<Rightarrow> 'v node_heap \<Rightarrow> 'v adlist \<Rightarrow> ('v node_heap \<times> 'v adlist \<times> bool) option" where
  "list_step alloc c h l =
     (case c of
        PushHead v \<Rightarrow> listAddNodeHead alloc h l v
      | PushTail v \<Rightarrow> listAddNodeTail alloc h l v
      | InsertAt i v after \<Rightarrow> do {
          n \<leftarrow> listIndex h l i;
          case n of None \<Rightarrow> Some (h, l, True) | Some a \<Rightarrow> listInsertNode alloc h l a v after
        }
      | DelAt i \<Rightarrow> do {
          n \<leftarrow> listIndex h l i;
          case n of None \<Rightarrow> Some (h, l, True) | Some a \<Rightarrow> do { (h, l, freed) \<leftarrow> listDelNode h l a; Some (h, l, True) }
        }
      | TailToHead \<Rightarrow> do { (h, l) \<leftarrow> listRotateTailToHead h l; Some (h, l, True) }
      | HeadToTail \<Rightarrow> do { (h, l) \<leftarrow> listRotateHeadToTail h l; Some (h, l, True) }
      | Clear \<Rightarrow> do { (h, l, freed) \<leftarrow> listEmpty h l; Some (h, l, True) })"

fun list_run ::
  "('v node_heap \<Rightarrow> nat option) \<Rightarrow> 'v list_op list \<Rightarrow> 'v node_heap \<Rightarrow> 'v adlist \<Rightarrow> ('v node_heap \<times> 'v adlist \<times> bool list) option" where
  "list_run alloc [] h l = Some (h, l, [])"
| "list_run alloc (c # cs) h l = do {
     (h, l, ok) \<leftarrow> list_step alloc c h l;
     (h, l, oks) \<leftarrow> list_run alloc cs h l;
     Some (h, l, ok # oks)
   }"

text \<open>The same calls on a sequence of values.\<close>

definition seq_step :: "'v list_op \<Rightarrow> 'v list \<Rightarrow> 'v list" where
  "seq_step c vs =
     (case c of
        PushHead v \<Rightarrow> v # vs
      | PushTail v \<Rightarrow> vs @ [v]
      | InsertAt i v after \<Rightarrow>
          (case index_pos (length vs) i of None \<Rightarrow> vs
           | Some k \<Rightarrow> let k = (if after then Suc k else k) in take k vs @ v # drop k vs)
      | DelAt i \<Rightarrow> (case index_pos (length vs) i of None \<Rightarrow> vs | Some k \<Rightarrow> take k vs @ drop (Suc k) vs)
      | TailToHead \<Rightarrow> (if vs = [] then [] else last vs # butlast vs)
      | HeadToTail \<Rightarrow> rotate1 vs
      | Clear \<Rightarrow> [])"

fun seq_run :: "('v list_op \<times> bool) list \<Rightarrow> 'v list \<Rightarrow> 'v list" where
  "seq_run [] vs = vs"
| "seq_run ((c, ok) # cs) vs = seq_run cs (if ok then seq_step c vs else vs)"

text \<open>What a call that succeeds or fails for want of memory leaves.\<close>

definition step_outcome ::
  "('v node_heap \<Rightarrow> nat option) \<Rightarrow> 'v list_op \<Rightarrow> 'v node_heap \<Rightarrow> 'v cells \<Rightarrow> 'v node_heap \<Rightarrow> 'v adlist \<Rightarrow> bool \<Rightarrow> 'v cells \<Rightarrow> bool" where
  "step_outcome alloc c h xs h' l' ok xs' \<longleftrightarrow>
     dll h' l' xs' \<and> map snd xs' = (if ok then seq_step c (map snd xs) else map snd xs) \<and>
     (\<forall>b. h b \<noteq> None \<and> b \<notin> addrs xs \<longrightarrow> h' b = h b \<and> b \<notin> addrs xs') \<and> (ok \<or> alloc h = None) \<and> finite (dom h' - dom h)"

lemma step_keep:
  assumes "dll h' l' xs'" "only A h h'" "dlseg h p xs n" "A \<subseteq> insert a (addrs xs)" "addrs xs' \<subseteq> A" "a \<in> addrs xs \<or> h a = None"
    "map snd xs' = seq_step c (map snd xs)"
  shows "step_outcome alloc c h xs h' l' True xs'"
proof -
  have "dom h' - dom h \<subseteq> {a}"
  proof
    fix b assume b: "b \<in> dom h' - dom h"
    then have "b \<in> A" using assms(2) by (auto simp: only_def)
    then show "b \<in> {a}" using assms(4) dlseg_dom [OF assms(3), of b] b by auto
  qed
  then have "finite (dom h' - dom h)" by (rule finite_subset) simp
  moreover have "h' b = h b \<and> b \<notin> addrs xs'" if "h b \<noteq> None" "b \<notin> addrs xs" for b
    using that assms(2,4-6) unfolding only_def by (metis insert_iff subset_iff)
  ultimately show ?thesis using assms(1,7) unfolding step_outcome_def by auto
qed

lemma step_skip: "dll h l xs \<Longrightarrow> ok \<and> map snd xs = seq_step c (map snd xs) \<or> \<not> ok \<and> alloc h = None \<Longrightarrow> step_outcome alloc c h xs h l ok xs"
  by (auto simp: step_outcome_def)

lemma split_at: "k < length xs \<Longrightarrow> xs = take k xs @ (fst (xs ! k), snd (xs ! k)) # drop (Suc k) xs"
  by (simp add: id_take_nth_drop)

lemma step_PushHead:
  assumes al: "alloc_ok alloc" and l: "dll h l xs"
  shows "\<exists>h' l' ok xs'. listAddNodeHead alloc h l v = Some (h', l', ok) \<and> step_outcome alloc (PushHead v) h xs h' l' ok xs'"
proof (cases "alloc h")
  case None
  then show ?thesis using l by (auto simp: listAddNodeHead_def intro: step_skip)
next
  case (Some a)
  then have a: "h a = None" using al by (simp add: alloc_ok_def)
  obtain h' l' where r: "listAddNodeHead alloc h l v = Some (h', l', True)" "dll h' l' ((a, v) # xs)" "only (insert a (addrs xs)) h h'"
    using listAddNodeHead_spec [of h l xs alloc a v, OF l Some a] by (elim exE conjE) (rule that)
  have "step_outcome alloc (PushHead v) h xs h' l' True ((a, v) # xs)"
    by (rule step_keep [OF r(2,3) dllD(5) [OF l]]) (use a in \<open>auto simp: seq_step_def\<close>)
  then show ?thesis using r(1) by auto
qed

lemma step_PushTail:
  assumes al: "alloc_ok alloc" and l: "dll h l xs"
  shows "\<exists>h' l' ok xs'. listAddNodeTail alloc h l v = Some (h', l', ok) \<and> step_outcome alloc (PushTail v) h xs h' l' ok xs'"
proof (cases "alloc h")
  case None
  then show ?thesis using l by (auto simp: listAddNodeTail_def intro: step_skip)
next
  case (Some a)
  then have a: "h a = None" using al by (simp add: alloc_ok_def)
  obtain h' l' where r: "listAddNodeTail alloc h l v = Some (h', l', True)" "dll h' l' (xs @ [(a, v)])" "only (insert a (addrs xs)) h h'"
    using listAddNodeTail_spec [of h l xs alloc a v, OF l Some a] by (elim exE conjE) (rule that)
  have "step_outcome alloc (PushTail v) h xs h' l' True (xs @ [(a, v)])"
    by (rule step_keep [OF r(2,3) dllD(5) [OF l]]) (use a in \<open>auto simp: seq_step_def\<close>)
  then show ?thesis using r(1) by auto
qed

lemma step_InsertAt:
  assumes al: "alloc_ok alloc" and l: "dll h l xs" and k: "index_pos (length xs) i = Some k"
  shows "\<exists>h' l' ok xs'. listInsertNode alloc h l (fst (xs ! k)) v after = Some (h', l', ok) \<and>
    step_outcome alloc (InsertAt i v after) h xs h' l' ok xs'"
proof (cases "alloc h")
  case None
  then show ?thesis using l by (auto simp: listInsertNode_def intro: step_skip)
next
  case (Some a)
  then have a: "h a = None" using al by (simp add: alloc_ok_def)
  note kl = index_pos_less [OF k] note xs = split_at [OF kl]
  let ?n = "if after then Suc k else k"
  have tk: "?n \<le> length xs" using kl by simp
  have "dll h l (take k xs @ (fst (xs ! k), snd (xs ! k)) # drop (Suc k) xs)" using l xs by simp
  from listInsertNode_spec [of h l "take k xs" "fst (xs ! k)" "snd (xs ! k)" "drop (Suc k) xs" alloc a v after, OF this Some a]
  obtain h' l' where r: "listInsertNode alloc h l (fst (xs ! k)) v after = Some (h', l', True)"
    "dll h' l' (take ?n xs @ (a, v) # drop ?n xs)" "only (insert a (addrs xs)) h h'"
    unfolding xs [symmetric] using kl by (cases after) (auto simp: take_Suc_conv_app_nth Cons_nth_drop_Suc)
  have "addrs (take ?n xs @ drop ?n xs) = addrs xs" by simp
  then have ad: "addrs (take ?n xs @ (a, v) # drop ?n xs) = insert a (addrs xs)" by (simp add: image_Un del: append_take_drop_id)
  have "step_outcome alloc (InsertAt i v after) h xs h' l' True (take ?n xs @ (a, v) # drop ?n xs)"
    by (rule step_keep [OF r(2,3) dllD(5) [OF l], of a]) (use a k ad in \<open>simp_all add: seq_step_def take_map drop_map Let_def\<close>)
  then show ?thesis using r(1) by (intro exI conjI)
qed

lemma step_DelAt:
  assumes l: "dll h l xs" and k: "index_pos (length xs) i = Some k"
  shows "\<exists>h' l' fr xs'. listDelNode h l (fst (xs ! k)) = Some (h', l', fr) \<and> step_outcome alloc (DelAt i) h xs h' l' True xs'"
proof -
  note kl = index_pos_less [OF k] note xs = split_at [OF kl]
  have "dll h l (take k xs @ (fst (xs ! k), snd (xs ! k)) # drop (Suc k) xs)" using l xs by simp
  from listDelNode_spec [OF this] obtain h' l' fr where r: "listDelNode h l (fst (xs ! k)) = Some (h', l', fr)"
    "dll h' l' (take k xs @ drop (Suc k) xs)" "only (addrs xs) h h'"
    unfolding xs [symmetric] by (elim exE conjE) (rule that)
  have "set (take k xs @ drop (Suc k) xs) \<subseteq> set xs" using set_take_subset [of k xs] set_drop_subset [of "Suc k" xs] by simp
  then have "addrs (take k xs @ drop (Suc k) xs) \<subseteq> addrs xs" by (rule image_mono)
  moreover have "fst (xs ! k) \<in> addrs xs" using kl by simp
  ultimately have "step_outcome alloc (DelAt i) h xs h' l' True (take k xs @ drop (Suc k) xs)"
    by (intro step_keep [OF r(2,3) dllD(5) [OF l], of "fst (xs ! k)"])
      (use k in \<open>auto simp: seq_step_def take_map drop_map\<close>)
  then show ?thesis using r(1) by (intro exI conjI)
qed

lemma step_TailToHead:
  assumes l: "dll h l xs"
  shows "\<exists>h' l' xs'. listRotateTailToHead h l = Some (h', l') \<and> step_outcome alloc TailToHead h xs h' l' True xs'"
proof (cases xs rule: rev_cases)
  case Nil
  then have "listRotateTailToHead h l = Some (h, l)" using l by (simp add: listRotateTailToHead_def dll_def)
  moreover have "step_outcome alloc TailToHead h xs h l True xs" using l Nil by (auto simp: seq_step_def intro: step_skip)
  ultimately show ?thesis by (intro exI conjI)
next
  case (snoc ys x)
  then obtain h' l' where r: "listRotateTailToHead h l = Some (h', l')" "dll h' l' (x # ys)" "only (addrs (x # ys)) h h'"
    using listRotateTailToHead_spec [of h l ys "fst x" "snd x"] l by auto
  have "step_outcome alloc TailToHead h xs h' l' True (x # ys)"
    by (rule step_keep [OF r(2,3) dllD(5) [OF l], of "fst x"]) (auto simp: snoc seq_step_def butlast_append)
  then show ?thesis using r(1) by (intro exI conjI)
qed

lemma step_HeadToTail:
  assumes l: "dll h l xs"
  shows "\<exists>h' l' xs'. listRotateHeadToTail h l = Some (h', l') \<and> step_outcome alloc HeadToTail h xs h' l' True xs'"
proof (cases xs)
  case Nil
  then have "listRotateHeadToTail h l = Some (h, l)" using l by (simp add: listRotateHeadToTail_def dll_def)
  moreover have "step_outcome alloc HeadToTail h xs h l True xs" using l Nil by (auto simp: seq_step_def intro: step_skip)
  ultimately show ?thesis by (intro exI conjI)
next
  case (Cons x ys)
  then obtain h' l' where r: "listRotateHeadToTail h l = Some (h', l')" "dll h' l' (ys @ [x])" "only (addrs (x # ys)) h h'"
    using listRotateHeadToTail_spec [of h l "fst x" "snd x" ys] l by auto
  have "step_outcome alloc HeadToTail h xs h' l' True (ys @ [x])"
    by (rule step_keep [OF r(2,3) dllD(5) [OF l], of "fst x"]) (auto simp: Cons seq_step_def)
  then show ?thesis using r(1) by (intro exI conjI)
qed

lemma step_Clear:
  assumes l: "dll h l xs"
  shows "\<exists>h' l' fr xs'. listEmpty h l = Some (h', l', fr) \<and> step_outcome alloc Clear h xs h' l' True xs'"
proof -
  obtain l' fr where r: "listEmpty h l = Some (h |` (- addrs xs), l', fr)" "dll (h |` (- addrs xs)) l' []"
    using listEmpty_spec [OF l] by (elim exE conjE) (rule that)
  have "step_outcome alloc Clear h xs (h |` (- addrs xs)) l' True []"
    using r(2) by (simp add: step_outcome_def seq_step_def Diff_eq Int_commute)
  then show ?thesis using r(1) by (intro exI conjI)
qed

lemma list_stepI:
  "list_step alloc c h l = Some (h', l', ok) \<Longrightarrow> step_outcome alloc c h xs h' l' ok xs' \<Longrightarrow>
   \<exists>h' l' ok xs'. list_step alloc c h l = Some (h', l', ok) \<and> step_outcome alloc c h xs h' l' ok xs'"
  by (intro exI conjI)

lemma list_step_spec:
  assumes al: "alloc_ok alloc" and l: "dll h l xs"
  shows "\<exists>h' l' ok xs'. list_step alloc c h l = Some (h', l', ok) \<and> step_outcome alloc c h xs h' l' ok xs'"
proof (cases c)
  case (PushHead v)
  then show ?thesis using step_PushHead [OF al l, of v] by (simp add: list_step_def)
next
  case (PushTail v)
  then show ?thesis using step_PushTail [OF al l, of v] by (simp add: list_step_def)
next
  case (InsertAt i v after)
  show ?thesis
  proof (cases "index_pos (length xs) i")
    case None
    then have "step_outcome alloc c h xs h l True xs" using l InsertAt by (intro step_skip) (simp_all add: seq_step_def)
    then show ?thesis using None InsertAt by (intro list_stepI) (simp_all add: list_step_def listIndex_spec [OF l])
  next
    case (Some k)
    then show ?thesis using step_InsertAt [OF al l Some, of v after] InsertAt by (simp add: list_step_def listIndex_spec [OF l])
  qed
next
  case (DelAt i)
  show ?thesis
  proof (cases "index_pos (length xs) i")
    case None
    then have "step_outcome alloc c h xs h l True xs" using l DelAt by (intro step_skip) (simp_all add: seq_step_def)
    then show ?thesis using None DelAt by (intro list_stepI) (simp_all add: list_step_def listIndex_spec [OF l])
  next
    case (Some k)
    then show ?thesis using step_DelAt [OF l Some, of alloc] DelAt
      by (elim exE conjE, intro list_stepI) (simp_all add: list_step_def listIndex_spec [OF l])
  qed
next
  case TailToHead
  then show ?thesis using step_TailToHead [OF l, of alloc] by (elim exE conjE, intro list_stepI) (simp_all add: list_step_def)
next
  case HeadToTail
  then show ?thesis using step_HeadToTail [OF l, of alloc] by (elim exE conjE, intro list_stepI) (simp_all add: list_step_def)
next
  case Clear
  then show ?thesis using step_Clear [OF l, of alloc] by (elim exE conjE, intro list_stepI) (simp_all add: list_step_def)
qed

lemma list_run_spec:
  assumes al: "alloc_ok alloc"
  shows "dll h l xs \<Longrightarrow> \<exists>h' l' oks xs'. list_run alloc cs h l = Some (h', l', oks) \<and> dll h' l' xs' \<and> length oks = length cs \<and>
    map snd xs' = seq_run (zip cs oks) (map snd xs) \<and> (\<forall>b. h b \<noteq> None \<and> b \<notin> addrs xs \<longrightarrow> h' b = h b \<and> b \<notin> addrs xs') \<and>
    (False \<in> set oks \<longrightarrow> (\<exists>g. finite (dom g - dom h) \<and> alloc g = None))"
proof (induction cs arbitrary: h l xs)
  case Nil
  then show ?case by (intro exI [of _ h] exI [of _ l] exI [of _ "[]"] exI [of _ xs]) simp
next
  case (Cons c cs)
  obtain h1 l1 ok xs1 where s: "list_step alloc c h l = Some (h1, l1, ok)" "step_outcome alloc c h xs h1 l1 ok xs1"
    using list_step_spec [OF al Cons.prems, of c] by (elim exE conjE) (rule that)
  note so = s(2) [unfolded step_outcome_def]
  obtain h2 l2 oks xs2 where r: "list_run alloc cs h1 l1 = Some (h2, l2, oks)" "dll h2 l2 xs2" "length oks = length cs"
    "map snd xs2 = seq_run (zip cs oks) (map snd xs1)"
    "\<forall>b. h1 b \<noteq> None \<and> b \<notin> addrs xs1 \<longrightarrow> h2 b = h1 b \<and> b \<notin> addrs xs2"
    "False \<in> set oks \<longrightarrow> (\<exists>g. finite (dom g - dom h1) \<and> alloc g = None)"
    using Cons.IH [OF so [THEN conjunct1]] by (elim exE conjE) (rule that)
  have fin: "finite (dom g - dom h)" if "finite (dom g - dom h1)" for g
    by (rule finite_subset [of _ "(dom g - dom h1) \<union> (dom h1 - dom h)"]) (use that so in auto)
  have "\<exists>g. finite (dom g - dom h) \<and> alloc g = None" if "False \<in> set (ok # oks)"
  proof (cases ok)
    case True
    then show ?thesis using r(6) fin that by auto
  next
    case False
    then have "alloc h = None" using so by blast
    then show ?thesis by (intro exI [of _ h]) simp
  qed
  moreover have "h2 b = h b \<and> b \<notin> addrs xs2" if b: "h b \<noteq> None" "b \<notin> addrs xs" for b
  proof -
    have b1: "h1 b = h b" "b \<notin> addrs xs1" using so b by blast+
    then show ?thesis using r(5) b(1) by simp
  qed
  moreover have "list_run alloc (c # cs) h l = Some (h2, l2, ok # oks)" using s(1) r(1) by simp
  moreover have "map snd xs2 = seq_run (zip (c # cs) (ok # oks)) (map snd xs)" using so r(4) by simp
  ultimately show ?case using r(2,3)
    by (intro exI [of _ h2] exI [of _ l2] exI [of _ "ok # oks"] exI [of _ xs2]) (intro conjI allI impI; simp)
qed

section \<open>Properties\<close>

text \<open>C25: Started on any well-formed list, with an allocator that returns unused addresses, every sequence of insertions at
  the ends or beside a node, deletions, rotations and clearings of \<open>adlist.c\<close> runs without following a null or dangling
  pointer. It leaves a well-formed list whose values are those the same calls give on a sequence; \<open>listIndex\<close> then finds
  the node of every position, counted from either end, and the nodes of other lists are unchanged. A call fails only when
  the allocator does, and then changes nothing.\<close>

theorem adlist_refines_sequence:
  assumes "alloc_ok alloc" "dll h l xs"
  shows "\<exists>h' l' oks xs'. list_run alloc cs h l = Some (h', l', oks) \<and> length oks = length cs \<and> dll h' l' xs' \<and>
    map snd xs' = seq_run (zip cs oks) (map snd xs) \<and>
    (\<forall>i. listIndex h' l' i = Some (map_option (\<lambda>k. fst (xs' ! k)) (index_pos (length xs') i))) \<and>
    (\<forall>b. h b \<noteq> None \<and> b \<notin> addrs xs \<longrightarrow> h' b = h b \<and> b \<notin> addrs xs') \<and>
    (False \<in> set oks \<longrightarrow> (\<exists>g. finite (dom g - dom h) \<and> alloc g = None))"
proof -
  obtain h' l' oks xs' where r: "list_run alloc cs h l = Some (h', l', oks)" "dll h' l' xs'" "length oks = length cs"
    "map snd xs' = seq_run (zip cs oks) (map snd xs)" "\<forall>b. h b \<noteq> None \<and> b \<notin> addrs xs \<longrightarrow> h' b = h b \<and> b \<notin> addrs xs'"
    "False \<in> set oks \<longrightarrow> (\<exists>g. finite (dom g - dom h) \<and> alloc g = None)"
    using list_run_spec [OF assms, of cs] by (elim exE conjE) (rule that)
  then show ?thesis using listIndex_spec [OF r(2)]
    by (intro exI [of _ h'] exI [of _ l'] exI [of _ oks] exI [of _ xs']) (intro conjI; (assumption | simp))
qed

definition demo_alloc :: "nat node_heap \<Rightarrow> nat option" where
  "demo_alloc h = find (\<lambda>a. h a = None) [10, 11, 12]"

lemma demo_alloc_ok: "alloc_ok demo_alloc"
  by (auto simp: alloc_ok_def demo_alloc_def split: if_splits)

definition demo_ops :: "nat list_op list" where
  "demo_ops = [PushHead 1, PushTail 2, InsertAt (- 1) 3 False, PushHead 4, TailToHead]"

theorem adlist_refines_sequence_witness:
  "\<exists>h' l' xs'. list_run demo_alloc demo_ops Map.empty empty_adlist = Some (h', l', [True, True, True, False, True]) \<and>
     dll h' l' xs' \<and> map snd xs' = [2, 1, 3] \<and> listIndex h' l' (- 1) = Some (Some (fst (xs' ! 2)))"
proof -
  have run: "\<exists>h' l'. list_run demo_alloc demo_ops Map.empty empty_adlist = Some (h', l', [True, True, True, False, True])"
    by (simp add: demo_ops_def list_step_def listAddNodeHead_def listAddNodeTail_def demo_alloc_def empty_adlist_def set_next_def
        set_prev_def listIndex_def listInsertNode_def listRotateTailToHead_def node_at_def Let_def)
  obtain h' l' oks xs' where r: "list_run demo_alloc demo_ops Map.empty empty_adlist = Some (h', l', oks)" "dll h' l' xs'"
    "map snd xs' = seq_run (zip demo_ops oks) []"
    "\<forall>i. listIndex h' l' i = Some (map_option (\<lambda>k. fst (xs' ! k)) (index_pos (length xs') i))"
    using adlist_refines_sequence [OF demo_alloc_ok dll_create [of Map.empty], of demo_ops] unfolding list.map(1) by (elim exE conjE) (rule that)
  have oks: "oks = [True, True, True, False, True]" using run r(1) by simp
  then have v: "map snd xs' = [2, 1, 3]" using r(3) by (simp add: demo_ops_def seq_step_def index_pos_def)
  then have "length xs' = 3" using length_map [of snd xs'] by simp
  then have "listIndex h' l' (- 1) = Some (Some (fst (xs' ! 2)))" using r(4) by (simp add: index_pos_def)
  with r(1,2) v oks show ?thesis by (intro exI [of _ h'] exI [of _ l'] exI [of _ xs'] conjI) simp_all
qed

text \<open>C26: \<open>listDup\<close> on a well-formed list either returns a list in fresh nodes holding the duplicated values in order,
  with the methods of the original and every old node unchanged, or returns NULL with the heap exactly as it was.
  It returns NULL when there is no memory for the header; otherwise only when, for some position \<open>k\<close>, the \<open>dup\<close> method
  fails on value \<open>k\<close> and the values duplicated before it are handed to \<open>free\<close>, in order; or the allocator refuses a node
  for the duplicate of value \<open>k\<close> in the heap that has the \<open>k\<close> copies, and this duplicate and those before it are handed to
  \<open>free\<close>, each once.\<close>

theorem listDup_all_or_nothing:
  assumes "alloc_ok alloc" "dll h l xs"
  shows "\<exists>h' r freed. listDup mem alloc h l = Some (h', r, freed) \<and>
    (case r of
       Some copy \<Rightarrow> mem \<and> (\<exists>zs. dll h' copy zs \<and> map Some (map snd zs) = map (dup_value l) (map snd xs) \<and> same_methods l copy \<and>
         (\<forall>b. h b \<noteq> None \<longrightarrow> h' b = h b \<and> b \<notin> addrs zs) \<and> freed = [])
     | None \<Rightarrow> h' = h \<and>
         (if mem then
            \<exists>k us. k < length xs \<and> map Some us = map (dup_value l) (take k (map snd xs)) \<and>
              (case dup_value l (snd (xs ! k)) of
                 None \<Rightarrow> freed = (if l_free l then us else [])
               | Some u \<Rightarrow> freed = (if l_free l then u # us else []) \<and>
                   (\<exists>g copy zs. dll g copy zs \<and> map snd zs = us \<and> g |` (- addrs zs) = h \<and> alloc g = None))
          else freed = []))"
proof (cases mem)
  case True
  obtain h' r freed where d: "listDup True alloc h l = Some (h', r, freed)" "dup_outcome alloc l h [] (map snd xs) (h', r, freed)"
    using listDup_spec [OF assms] by auto
  have old: "h b \<noteq> None \<longrightarrow> h' b = h b \<and> b \<notin> addrs zs" if "h' |` (- addrs zs) = h" for b zs
    using fun_cong [OF that, of b] by (simp add: restrict_map_def split: if_splits)
  show ?thesis
  proof (cases r)
    case None
    then have f: "h' = h" "dup_failure alloc l h [] (map snd xs) freed" using d(2) by (simp_all add: dup_outcome_def)
    from f(2) obtain k us where k: "k < length xs" "map Some us = map (dup_value l) (take k (map snd xs))"
      "case dup_value l (map snd xs ! k) of None \<Rightarrow> freed = (if l_free l then us else [])
       | Some u \<Rightarrow> freed = (if l_free l then u # us else []) \<and>
           (\<exists>g copy zs. dll g copy zs \<and> map snd zs = us \<and> g |` (- addrs zs) = h \<and> alloc g = None)"
      unfolding dup_failure_def append_Nil length_map by (elim exE conjE) (rule that)
    show ?thesis using d(1) None True f(1)
      by (intro exI [of _ h'] exI [of _ r] exI [of _ freed])
        (simp only: option.case if_True simp_thms, intro exI [of _ k] exI [of _ us] conjI k(1,2) k(3) [unfolded nth_map [OF k(1)]])
  next
    case (Some copy)
    then obtain zs where "dll h' copy zs" "map Some (map snd zs) = map (dup_value l) (map snd xs)" "h' |` (- addrs zs) = h"
      "same_methods l copy" "freed = []"
      using d(2) by (auto simp: dup_outcome_def)
    then show ?thesis using d(1) Some True old by (intro exI [of _ h'] exI [of _ r] exI [of _ freed]) (auto intro!: exI [of _ zs])
  qed
qed (simp add: listDup_def listCreate_def)

text \<open>A list of two nodes whose \<open>dup\<close> method fails on the second value.\<close>

definition demo_list :: "nat adlist" where
  "demo_list = empty_adlist\<lparr>l_head := Some 1, l_tail := Some 2, l_len := 2, l_free := True, l_dup := Some (\<lambda>v. if v = 8 then None else Some (v + 1))\<rparr>"

definition demo_heap :: "nat node_heap" where
  "demo_heap = [1 \<mapsto> \<lparr>ln_prev = None, ln_next = Some 2, ln_value = 7\<rparr>, 2 \<mapsto> \<lparr>ln_prev = Some 1, ln_next = None, ln_value = 8\<rparr>]"

theorem listDup_all_or_nothing_witness:
  "listDup True demo_alloc demo_heap demo_list = Some (demo_heap, None, [8])"
proof -
  have d: "dll demo_heap demo_list [(1, 7), (2, 8)]"
    by (simp add: dll_def demo_heap_def demo_list_def empty_adlist_def listCreate_def)
  have run: "\<exists>h'. listDup True demo_alloc demo_heap demo_list = Some (h', None, [8])"
    by (simp add: listDup_def dup_list_loop.simps listRewind_def listNext_def demo_heap_def demo_list_def empty_adlist_def listCreate_def
        listAddNodeTail_def demo_alloc_def listRelease_def listEmpty_def numeral_2_eq_2)
  then show ?thesis using listDup_all_or_nothing [OF demo_alloc_ok d, of True] by auto
qed

end
