(* ===== verification/RedisProtocol.thy ===== *)
theory RedisProtocol
  imports RedisSdsText
begin

text \<open>
  The request parser of \<open>networking.c\<close>: the inline and the multibulk (RESP) protocol, the loop of
  \<open>processInputBuffer\<close> that runs the commands found in the query buffer of a client, and the bookkeeping of the
  replication stream of a master. The query buffer is given by its bytes (\<open>RedisSdsProofs\<close> shows that \<open>sdsrange\<close> and
  the other string functions implement what is done with the bytes here), the argument vector by the bytes of its
  objects, and the bits of \<open>flags\<close> the code reads by one field each. The outer \<open>None\<close> of a result is a failed assertion, an access outside
  of the query buffer or the argument vector, or a signed overflow. \<open>processCommand\<close> and
  \<open>replicationFeedStreamFromMasterStream\<close> are parameters, on a state \<open>'s\<close> of the server. Memory accounting and logging are left out.
\<close>

section \<open>Clients\<close>

datatype req_type = REQ_UNKNOWN | PROTO_REQ_INLINE | PROTO_REQ_MULTIBULK
datatype cmd_proc = AskingCommand | ClientCommand | OtherCommand nat
datatype client_type = CLIENT_TYPE_NORMAL | CLIENT_TYPE_SLAVE | CLIENT_TYPE_PUBSUB | CLIENT_TYPE_MASTER
datatype io_op = IO_THREADS_OP_IDLE | IO_THREADS_OP_READ | IO_THREADS_OP_WRITE

text \<open>The messages after \<open>Protocol error:\<close> in the replies.\<close>

datatype proto_error =
    TooBigInline | UnbalancedQuotes | TooBigMbulkCount | InvalidMultibulkLength | UnauthMultibulkLength
  | TooBigBulkCount | ExpectedDollar byte | InvalidBulkLength | UnauthBulkLength

record client =
  querybuf :: buffer
  qb_pos :: nat
  argv :: "buffer list"
  argv_len :: int
  argv_len_sum :: int
  reqtype :: req_type
  multibulklen :: int
  bulklen :: int
  cmd :: "cmd_proc option"
  error_replies :: "proto_error list"
  authenticated :: bool
  repl_ack_time :: int
  reploff :: int
  read_reploff :: int
  repl_applied :: nat
  deferred_reply_errors :: "string list option"
  cur_script :: "buffer option"
  slot :: int
  CLIENT_MASTER :: bool
  CLIENT_SLAVE :: bool
  CLIENT_MONITOR :: bool
  CLIENT_PUBSUB :: bool
  CLIENT_MULTI :: bool
  CLIENT_BLOCKED :: bool
  CLIENT_PENDING_COMMAND :: bool
  CLIENT_CLOSE_AFTER_REPLY :: bool
  CLIENT_CLOSE_ASAP :: bool
  CLIENT_PROTOCOL_ERROR :: bool
  CLIENT_ASKING :: bool
  CLIENT_TRACKING_CACHING :: bool
  CLIENT_REPLY_SKIP :: bool
  CLIENT_REPLY_SKIP_NEXT :: bool

abbreviation argc :: "client \<Rightarrow> nat" where "argc c \<equiv> length (argv c)"

record proto_env =
  io_threads_op :: io_op
  insideYieldingLongCommand :: bool
  proto_max_bulk_len :: int
  default_user_nopass :: bool
  default_user_disabled :: bool
  unixtime :: int

definition PROTO_INLINE_MAX_SIZE :: nat where "PROTO_INLINE_MAX_SIZE = 1024 * 64"
definition PROTO_MBULK_BIG_ARG :: int where "PROTO_MBULK_BIG_ARG = 1024 * 32"

definition getClientType :: "client \<Rightarrow> client_type" where
  "getClientType c =
     (if CLIENT_MASTER c then CLIENT_TYPE_MASTER
      else if CLIENT_SLAVE c \<and> \<not> CLIENT_MONITOR c then CLIENT_TYPE_SLAVE
      else if CLIENT_PUBSUB c then CLIENT_TYPE_PUBSUB
      else CLIENT_TYPE_NORMAL)"

definition authRequired :: "proto_env \<Rightarrow> client \<Rightarrow> bool" where
  "authRequired env c \<longleftrightarrow> (\<not> default_user_nopass env \<or> default_user_disabled env) \<and> \<not> authenticated c"

definition freeClientArgv :: "client \<Rightarrow> client" where
  "freeClientArgv c = c\<lparr>argv := [], cmd := None, argv_len_sum := 0, argv_len := 0\<rparr>"

definition resetClient :: "client \<Rightarrow> client" where
  "resetClient c =
     (let prevcmd = cmd c;
          c = freeClientArgv c;
          c = c\<lparr>cur_script := None, reqtype := REQ_UNKNOWN, multibulklen := 0, bulklen := -1, slot := -1, deferred_reply_errors := None\<rparr>;
          c = (if \<not> CLIENT_MULTI c \<and> prevcmd \<noteq> Some AskingCommand then c\<lparr>CLIENT_ASKING := False\<rparr> else c);
          c = (if \<not> CLIENT_MULTI c \<and> prevcmd \<noteq> Some ClientCommand then c\<lparr>CLIENT_TRACKING_CACHING := False\<rparr> else c);
          c = c\<lparr>CLIENT_REPLY_SKIP := False\<rparr>
      in if CLIENT_REPLY_SKIP_NEXT c then c\<lparr>CLIENT_REPLY_SKIP := True, CLIENT_REPLY_SKIP_NEXT := False\<rparr> else c)"

definition addReplyError :: "proto_error \<Rightarrow> client \<Rightarrow> client" where
  "addReplyError e c = c\<lparr>error_replies := error_replies c @ [e]\<rparr>"

definition setProtocolError :: "client \<Rightarrow> client" where
  "setProtocolError c = c\<lparr>CLIENT_CLOSE_AFTER_REPLY := True, CLIENT_PROTOCOL_ERROR := True\<rparr>"

text \<open>\<open>strchr\<close> stops at the first zero byte, so at the one after the last byte of the buffer at the latest.\<close>

fun strchr :: "byte \<Rightarrow> buffer \<Rightarrow> nat option" where
  "strchr c [] = None"
| "strchr c (x # p) = (if x = c then Some 0 else if x = 0 then None else map_option Suc (strchr c p))"

text \<open>The bytes from \<open>c->querybuf+c->qb_pos\<close> on.\<close>

definition unread :: "client \<Rightarrow> buffer option" where
  "unread c = (if qb_pos c \<le> length (querybuf c) then Some (drop (qb_pos c) (querybuf c)) else None)"

section \<open>Inline requests\<close>

text \<open>Results of the two parsers: the client and whether \<open>C_OK\<close> is returned.\<close>

definition processInlineBuffer :: "proto_env \<Rightarrow> client \<Rightarrow> (client \<times> bool) option" where
  "processInlineBuffer env c = do {
     u \<leftarrow> unread c;
     case strchr 10 u of
       None \<Rightarrow>
         Some (if length u > PROTO_INLINE_MAX_SIZE then setProtocolError (addReplyError TooBigInline c) else c, False)
     | Some newline \<Rightarrow> do {
         let (newline, linefeed_chars) =
           (if newline \<noteq> 0 \<and> u ! (newline - 1) = 13 then (newline - 1, 2) else (newline, 1));
         let querylen = newline;
         args \<leftarrow> sdssplitargs (take querylen u @ [0]);
         case args of
           None \<Rightarrow> Some (setProtocolError (addReplyError UnbalancedQuotes c), False)
         | Some args \<Rightarrow> do {
             let c = (if querylen = 0 \<and> getClientType c = CLIENT_TYPE_SLAVE then c\<lparr>repl_ack_time := unixtime env\<rparr> else c);
             if querylen \<noteq> 0 \<and> CLIENT_MASTER c then Some (setProtocolError c, False)
             else do {
               let c = c\<lparr>qb_pos := qb_pos c + (querylen + linefeed_chars)\<rparr>;
               let c = (if args \<noteq> [] then c\<lparr>argv_len := int (length args), argv_len_sum := 0\<rparr> else c);
               Some (c\<lparr>argv := args, argv_len_sum := argv_len_sum c + (\<Sum>a\<leftarrow>args. int (length a))\<rparr>, True)
             }
           }
       }
   }"

section \<open>Multibulk requests\<close>

text \<open>How a part of the parser ends: on to the next part, a \<open>break\<close> out of the loop, or \<open>return C_ERR\<close>, \<open>return C_OK\<close>.\<close>

datatype ctl = Go | Break | RetErr | RetOk

definition read_multibulk_len :: "proto_env \<Rightarrow> client \<Rightarrow> (client \<times> ctl) option" where
  "read_multibulk_len env c =
     (if argv c \<noteq> [] then None
      else do {
        u \<leftarrow> unread c;
        case strchr 13 u of
          None \<Rightarrow>
            Some (if length u > PROTO_INLINE_MAX_SIZE then setProtocolError (addReplyError TooBigMbulkCount c) else c, RetErr)
        | Some newline \<Rightarrow>
            (if int newline > int (length u) - 2 then Some (c, RetErr)
             else if u ! 0 \<noteq> 42 then None
             else (case string2ll (take (newline - 1) (drop 1 u)) of
                 None \<Rightarrow> Some (setProtocolError (addReplyError InvalidMultibulkLength c), RetErr)
               | Some ll \<Rightarrow>
                   (if ll > INT_MAX then Some (setProtocolError (addReplyError InvalidMultibulkLength c), RetErr)
                    else if ll > 10 \<and> authRequired env c then Some (setProtocolError (addReplyError UnauthMultibulkLength c), RetErr)
                    else
                      (let c = c\<lparr>qb_pos := qb_pos c + newline + 2\<rparr>
                       in if ll \<le> 0 then Some (c, RetOk)
                          else Some (c\<lparr>multibulklen := ll, argv_len := min ll 1024, argv_len_sum := 0\<rparr>, Go)))))
      })"

definition read_bulk_len :: "proto_env \<Rightarrow> client \<Rightarrow> (client \<times> ctl) option" where
  "read_bulk_len env c = do {
     u \<leftarrow> unread c;
     case strchr 13 u of
       None \<Rightarrow>
         Some (if length u > PROTO_INLINE_MAX_SIZE then (setProtocolError (addReplyError TooBigBulkCount c), RetErr) else (c, Break))
     | Some newline \<Rightarrow>
         (if int newline > int (length u) - 2 then Some (c, Break)
          else if u ! 0 \<noteq> 36 then Some (setProtocolError (addReplyError (ExpectedDollar (u ! 0)) c), RetErr)
          else (case string2ll (take (newline - 1) (drop 1 u)) of
              None \<Rightarrow> Some (setProtocolError (addReplyError InvalidBulkLength c), RetErr)
            | Some ll \<Rightarrow>
                (if ll < 0 \<or> (\<not> CLIENT_MASTER c \<and> ll > proto_max_bulk_len env)
                 then Some (setProtocolError (addReplyError InvalidBulkLength c), RetErr)
                 else if ll > 16384 \<and> authRequired env c then Some (setProtocolError (addReplyError UnauthBulkLength c), RetErr)
                 else
                   (let c = c\<lparr>qb_pos := qb_pos c + newline + 2\<rparr>;
                        c = (if \<not> CLIENT_MASTER c \<and> ll \<ge> PROTO_MBULK_BIG_ARG \<and>
                                int (length (querybuf c)) - int (qb_pos c) \<le> ll + 2
                             then c\<lparr>querybuf := drop (qb_pos c) (querybuf c), qb_pos := 0\<rparr> else c)
                    in Some (c\<lparr>bulklen := ll\<rparr>, Go)))))
   }"

text \<open>Storing the argument: the vector grows when it is full; a big argument that is all of the query buffer is
  stored as it is, the others are copied.\<close>

definition read_bulk :: "client \<Rightarrow> client option" where
  "read_bulk c = do {
     u \<leftarrow> unread c;
     let c = (if int (argc c) \<ge> argv_len c
              then c\<lparr>argv_len := min (if argv_len c < INT_MAX div 2 then argv_len c * 2 else INT_MAX) (int (argc c) + multibulklen c)\<rparr>
              else c);
     if int (argc c) \<ge> argv_len c then None
     else do {
       let c = (if \<not> CLIENT_MASTER c \<and> qb_pos c = 0 \<and> bulklen c \<ge> PROTO_MBULK_BIG_ARG \<and> int (length (querybuf c)) = bulklen c + 2
                then c\<lparr>argv := argv c @ [take (length (querybuf c) - 2) (querybuf c)],
                       argv_len_sum := argv_len_sum c + bulklen c, querybuf := []\<rparr>
                else c\<lparr>argv := argv c @ [take (nat (bulklen c)) u],
                       argv_len_sum := argv_len_sum c + bulklen c, qb_pos := qb_pos c + nat (bulklen c + 2)\<rparr>);
       Some (c\<lparr>bulklen := -1, multibulklen := multibulklen c - 1\<rparr>)
     }
   }"

partial_function (option) multibulk_loop :: "proto_env \<Rightarrow> client \<Rightarrow> (client \<times> bool) option" where
  "multibulk_loop env c =
     (if multibulklen c = 0 then Some (c, True)
      else do {
        (c, r) \<leftarrow> (if bulklen c = -1 then read_bulk_len env c else Some (c, Go));
        case r of
          RetErr \<Rightarrow> Some (c, False)
        | RetOk \<Rightarrow> Some (c, True)
        | Break \<Rightarrow> Some (c, multibulklen c = 0)
        | Go \<Rightarrow>
            (if bulklen c + 2 > LLONG_MAX then None
             else if int (length (querybuf c)) - int (qb_pos c) < bulklen c + 2 then Some (c, multibulklen c = 0)
             else do { c \<leftarrow> read_bulk c; multibulk_loop env c })
      })"

definition processMultibulkBuffer :: "proto_env \<Rightarrow> client \<Rightarrow> (client \<times> bool) option" where
  "processMultibulkBuffer env c = do {
     (c, r) \<leftarrow> (if multibulklen c = 0 then read_multibulk_len env c else Some (c, Go));
     case r of
       RetErr \<Rightarrow> Some (c, False)
     | RetOk \<Rightarrow> Some (c, True)
     | _ \<Rightarrow> (if multibulklen c > 0 then multibulk_loop env c else None)
   }"

section \<open>Running the commands\<close>

definition commandProcessed :: "(buffer \<Rightarrow> 's \<Rightarrow> 's) \<Rightarrow> client \<Rightarrow> 's \<Rightarrow> (client \<times> 's) option" where
  "commandProcessed feed c s =
     (if CLIENT_BLOCKED c then Some (c, s)
      else
        (let c = resetClient c;
             prev_offset = reploff c;
             c = (if CLIENT_MASTER c \<and> \<not> CLIENT_MULTI c
                  then c\<lparr>reploff := read_reploff c - int (length (querybuf c)) + int (qb_pos c)\<rparr> else c);
             applied = reploff c - prev_offset
         in if CLIENT_MASTER c \<and> applied \<noteq> 0
            then do {
              stream \<leftarrow> peek (querybuf c) (int (repl_applied c)) (nat applied);
              if applied < 0 then None else Some (c\<lparr>repl_applied := repl_applied c + nat applied\<rparr>, feed stream s)
            }
            else Some (c, s)))"

text \<open>How \<open>processCommand\<close> returns: with \<open>C_OK\<close> or \<open>C_ERR\<close> and the client, or, with \<open>C_ERR\<close>, after freeing the client,
  when \<open>server.current_client\<close> is \<open>NULL\<close>.\<close>

datatype cmd_result = C_OK client | C_ERR client | Freed

definition processCommandAndResetClient ::
  "(client \<Rightarrow> 's \<Rightarrow> cmd_result \<times> 's) \<Rightarrow> (buffer \<Rightarrow> 's \<Rightarrow> 's) \<Rightarrow> client \<Rightarrow> 's \<Rightarrow> (client option \<times> 's) option" where
  "processCommandAndResetClient processCommand feed c s =
     (case processCommand c s of
        (C_OK c, s) \<Rightarrow> do { (c, s) \<leftarrow> commandProcessed feed c s; Some (Some c, s) }
      | (C_ERR c, s) \<Rightarrow> Some (Some c, s)
      | (Freed, s) \<Rightarrow> Some (None, s))"

partial_function (option) input_loop ::
  "proto_env \<Rightarrow> (client \<Rightarrow> 's \<Rightarrow> cmd_result \<times> 's) \<Rightarrow> (buffer \<Rightarrow> 's \<Rightarrow> 's) \<Rightarrow> client \<Rightarrow> 's \<Rightarrow> (client option \<times> 's) option" where
  "input_loop env processCommand feed c s =
     (if \<not> qb_pos c < length (querybuf c) then Some (Some c, s)
      else if CLIENT_BLOCKED c then Some (Some c, s)
      else if CLIENT_PENDING_COMMAND c then Some (Some c, s)
      else if insideYieldingLongCommand env \<and> CLIENT_MASTER c then Some (Some c, s)
      else if CLIENT_CLOSE_AFTER_REPLY c \<or> CLIENT_CLOSE_ASAP c then Some (Some c, s)
      else do {
        let c = (if reqtype c = REQ_UNKNOWN
                 then c\<lparr>reqtype := if querybuf c ! qb_pos c = 42 then PROTO_REQ_MULTIBULK else PROTO_REQ_INLINE\<rparr> else c);
        (c, ok) \<leftarrow> (if reqtype c = PROTO_REQ_INLINE then processInlineBuffer env c else processMultibulkBuffer env c);
        if \<not> ok then Some (Some c, s)
        else if argc c = 0 then input_loop env processCommand feed (resetClient c) s
        else if io_threads_op env \<noteq> IO_THREADS_OP_IDLE
        then (if io_threads_op env = IO_THREADS_OP_READ then Some (Some (c\<lparr>CLIENT_PENDING_COMMAND := True\<rparr>), s) else None)
        else do {
          (c, s) \<leftarrow> processCommandAndResetClient processCommand feed c s;
          case c of None \<Rightarrow> Some (None, s) | Some c \<Rightarrow> input_loop env processCommand feed c s
        }
      })"

definition processInputBuffer ::
  "proto_env \<Rightarrow> (client \<Rightarrow> 's \<Rightarrow> cmd_result \<times> 's) \<Rightarrow> (buffer \<Rightarrow> 's \<Rightarrow> 's) \<Rightarrow> client \<Rightarrow> 's \<Rightarrow> (client option \<times> 's) option" where
  "processInputBuffer env processCommand feed c s = do {
     (c, s) \<leftarrow> input_loop env processCommand feed c s;
     case c of
       None \<Rightarrow> Some (None, s)
     | Some c \<Rightarrow>
         (if CLIENT_MASTER c then
            (if repl_applied c \<noteq> 0 then
               (if repl_applied c \<le> qb_pos c
                then Some (Some (c\<lparr>querybuf := drop (repl_applied c) (querybuf c), qb_pos := qb_pos c - repl_applied c, repl_applied := 0\<rparr>), s)
                else None)
             else Some (Some c, s))
          else if qb_pos c \<noteq> 0 then Some (Some (c\<lparr>querybuf := drop (qb_pos c) (querybuf c), qb_pos := 0\<rparr>), s)
          else Some (Some c, s))
   }"

definition processPendingCommandAndInputBuffer ::
  "proto_env \<Rightarrow> (client \<Rightarrow> 's \<Rightarrow> cmd_result \<times> 's) \<Rightarrow> (buffer \<Rightarrow> 's \<Rightarrow> 's) \<Rightarrow> client \<Rightarrow> 's \<Rightarrow> (client option \<times> 's) option" where
  "processPendingCommandAndInputBuffer env processCommand feed c s = do {
     (c, s) \<leftarrow> (if CLIENT_PENDING_COMMAND c
               then processCommandAndResetClient processCommand feed (c\<lparr>CLIENT_PENDING_COMMAND := False\<rparr>) s
               else Some (Some c, s));
     case c of
       None \<Rightarrow> Some (None, s)
     | Some c \<Rightarrow>
         (if length (querybuf c) > 0 then processInputBuffer env processCommand feed c s else Some (Some c, s))
   }"

text \<open>The part of \<open>readQueryFromClient\<close> after \<open>connRead\<close> returned some bytes: they are appended, and the client
  is destroyed (asynchronously) when its query buffer is too long.\<close>

definition readQuery ::
  "proto_env \<Rightarrow> nat \<Rightarrow> (client \<Rightarrow> 's \<Rightarrow> cmd_result \<times> 's) \<Rightarrow> (buffer \<Rightarrow> 's \<Rightarrow> 's) \<Rightarrow> buffer \<Rightarrow> client \<Rightarrow> 's \<Rightarrow> (client option \<times> 's) option" where
  "readQuery env client_max_querybuf_len processCommand feed bytes c s =
     (let c = c\<lparr>querybuf := querybuf c @ bytes\<rparr>;
          c = (if CLIENT_MASTER c then c\<lparr>read_reploff := read_reploff c + int (length bytes)\<rparr> else c)
      in if \<not> CLIENT_MASTER c \<and> length (querybuf c) > client_max_querybuf_len then Some (None, s)
         else processInputBuffer env processCommand feed c s)"

section \<open>Writing requests\<close>

text \<open>\<open>catAppendOnlyGenericCommand\<close> of \<open>aof.c\<close> writes commands in the same protocol, to the append-only file; the
  objects are given by their bytes and \<open>stack\<close> is the old contents of \<open>buf\<close>.\<close>

definition cat_header :: "buffer \<Rightarrow> byte \<Rightarrow> nat \<Rightarrow> buffer option" where
  "cat_header stack tag n = do {
     buf \<leftarrow> wr stack 0 tag;
     (digits, l) \<leftarrow> ll2string (drop 1 buf) (length buf - 1) (int n);
     let buf = take 1 buf @ digits;
     let len = 1 + l;
     buf \<leftarrow> wr buf (int len) 13;
     buf \<leftarrow> wr buf (int len + 1) 10;
     peek buf 0 (len + 2)
   }"

fun cat_args :: "buffer \<Rightarrow> buffer \<Rightarrow> buffer list \<Rightarrow> buffer option" where
  "cat_args stack dst [] = Some dst"
| "cat_args stack dst (a # as) = do {
     head \<leftarrow> cat_header stack 36 (length a);
     cat_args stack (dst @ head @ a @ [13, 10]) as
   }"

definition catAppendOnlyGenericCommand :: "buffer \<Rightarrow> buffer \<Rightarrow> buffer list \<Rightarrow> buffer option" where
  "catAppendOnlyGenericCommand stack dst args = do {
     head \<leftarrow> cat_header stack 42 (length args);
     cat_args stack (dst @ head) args
   }"

end
