(* ===== verification/RedisProtocolProofs.thy ===== *)
theory RedisProtocolProofs
  imports RedisProtocol
begin

text \<open>
  Correctness of the request parser. A client is well-formed (\<open>parse_ok\<close>) when its counters fit the part of a request
  it has read; every read of arbitrary bytes keeps this, and no step fails. For bytes that are requests, the state of
  the client is related to the commands still to be run and the bytes still to come, which gives the commands that are
  run and the replication stream that is passed on, however the bytes are cut into reads.
\<close>

section \<open>Scanning for a line end\<close>

abbreviation unread_bytes :: "client \<Rightarrow> buffer" where "unread_bytes c \<equiv> drop (qb_pos c) (querybuf c)"

lemma strchr_SomeD: "strchr c u = Some n \<Longrightarrow> n < length u \<and> u ! n = c \<and> c \<notin> set (take n u) \<and> 0 \<notin> set (take n u)"
proof (induction u arbitrary: n)
  case (Cons x u)
  then show ?case by (cases n) (auto split: if_splits)
qed simp

lemma strchr_found:
  assumes "u @ v = h @ x # w" "x \<notin> set h" "0 \<notin> set h"
  shows "strchr x u = (if length h < length u then Some (length h) else None)"
  using assms
proof (induction h arbitrary: u)
  case Nil
  then show ?case by (cases u) auto
next
  case (Cons y h)
  show ?case
  proof (cases u)
    case (Cons z u')
    then show ?thesis using Cons.IH [of u'] Cons.prems by auto
  qed simp
qed

section \<open>Requests as bytes\<close>

definition CRLF :: buffer where "CRLF = [13, 10]"

definition resp_header :: "byte \<Rightarrow> nat \<Rightarrow> buffer" where
  "resp_header tag n = tag # dec n @ CRLF"

definition resp_bulk :: "buffer \<Rightarrow> buffer" where
  "resp_bulk a = resp_header 36 (length a) @ a @ CRLF"

definition resp_bulks :: "buffer list \<Rightarrow> buffer" where
  "resp_bulks as = concat (map resp_bulk as)"

definition resp :: "buffer list \<Rightarrow> buffer" where
  "resp args = resp_header 42 (length args) @ resp_bulks args"

lemma resp_bulks_simps [simp]: "resp_bulks [] = []" "resp_bulks (a # as) = resp_bulk a @ resp_bulks as"
  by (simp_all add: resp_bulks_def)

lemma dec_digits: "x \<in> set (dec n) \<Longrightarrow> digit x"
proof (induction n rule: dec.induct)
  case (1 n)
  have d: "digit (48 + of_nat k :: byte)" if "k < 10" for k :: nat
    using that by (simp add: word_le_nat_alt unat_word_ariths unat_of_nat)
  show ?case
  proof (cases "n < 10")
    case True
    then show ?thesis using 1(2) d by (auto simp: dec_small)
  next
    case False
    then show ?thesis using 1 d [of "n mod 10"] by (auto simp: dec_step)
  qed
qed

lemma header_clean:
  assumes "tag = 42 \<or> tag = 36"
  shows "13 \<notin> set (tag # dec n)" "0 \<notin> set (tag # dec n)"
proof -
  have "\<not> digit (13 :: byte)" "\<not> digit (0 :: byte)" by simp_all
  then have "13 \<notin> set (dec n)" "0 \<notin> set (dec n)" using dec_digits by blast+
  then show "13 \<notin> set (tag # dec n)" "0 \<notin> set (tag # dec n)" using assms by auto
qed

lemma string2ll_dec: "int n \<le> LLONG_MAX \<Longrightarrow> string2ll (dec n) = Some (int n)"
  using string2ll_dec_int [of "int n"] by (simp add: dec_int_def)

text \<open>What the two length readers find at the start of a request, or of an argument, of which only some bytes may have come.\<close>

lemma header_scan:
  assumes u: "u @ v = resp_header tag n @ w" and t: "tag = 42 \<or> tag = 36"
  shows "strchr 13 u = (if length (dec n) + 1 < length u then Some (length (dec n) + 1) else None)"
  using strchr_found [of u v "tag # dec n" 13 "10 # w"] header_clean [OF t, of n] u
  by (simp add: resp_header_def CRLF_def)

lemma length_header: "length (resp_header tag n) = length (dec n) + 3"
  by (simp add: resp_header_def CRLF_def)

lemma header_whole:
  assumes u: "u @ v = resp_header tag n @ w" and l: "length (dec n) + 3 \<le> length u"
  shows "u ! 0 = tag" "take (length (dec n)) (drop 1 u) = dec n" "drop (length (dec n) + 3) u @ v = w"
proof -
  have t: "take (length (resp_header tag n)) u = resp_header tag n"
    using arg_cong [OF u, of "take (length (resp_header tag n))"] l by (simp add: length_header)
  have "u = resp_header tag n @ drop (length (resp_header tag n)) u" by (metis t append_take_drop_id)
  then obtain u' where u': "u = resp_header tag n @ u'" by blast
  then show "u ! 0 = tag" "take (length (dec n)) (drop 1 u) = dec n" by (simp_all add: resp_header_def CRLF_def)
  show "drop (length (dec n) + 3) u @ v = w" using u by (simp add: u' length_header [of tag n, symmetric])
qed

lemma length_dec_bound: "int n \<le> LLONG_MAX \<Longrightarrow> length (dec n) \<le> 19"
  using length_dec_less [of 19 n] by simp

section \<open>Well-formed clients\<close>

text \<open>What the parser leaves as it is.\<close>

definition pframe :: "client \<Rightarrow> client \<Rightarrow> bool" where
  "pframe c c' \<longleftrightarrow> CLIENT_MASTER c' = CLIENT_MASTER c \<and> CLIENT_BLOCKED c' = CLIENT_BLOCKED c \<and>
     CLIENT_PENDING_COMMAND c' = CLIENT_PENDING_COMMAND c \<and> CLIENT_MULTI c' = CLIENT_MULTI c \<and>
     CLIENT_CLOSE_ASAP c' = CLIENT_CLOSE_ASAP c \<and> authenticated c' = authenticated c \<and>
     reploff c' = reploff c \<and> read_reploff c' = read_reploff c \<and> repl_applied c' = repl_applied c"

lemma pframe_refl [simp]: "pframe c c"
  by (simp add: pframe_def)

lemma pframe_upd [simp]:
  "pframe c (d\<lparr>querybuf := q\<rparr>) = pframe c d" "pframe c (d\<lparr>qb_pos := n\<rparr>) = pframe c d" "pframe c (d\<lparr>argv := a\<rparr>) = pframe c d"
  "pframe c (d\<lparr>argv_len := i\<rparr>) = pframe c d" "pframe c (d\<lparr>argv_len_sum := i\<rparr>) = pframe c d" "pframe c (d\<lparr>reqtype := r\<rparr>) = pframe c d"
  "pframe c (d\<lparr>multibulklen := i\<rparr>) = pframe c d" "pframe c (d\<lparr>bulklen := i\<rparr>) = pframe c d" "pframe c (d\<lparr>repl_ack_time := i\<rparr>) = pframe c d"
  by (simp_all add: pframe_def)

lemma authRequired_upd [simp]:
  "authRequired env (d\<lparr>querybuf := q\<rparr>) = authRequired env d" "authRequired env (d\<lparr>qb_pos := n\<rparr>) = authRequired env d"
  "authRequired env (d\<lparr>argv := a\<rparr>) = authRequired env d" "authRequired env (d\<lparr>argv_len := i\<rparr>) = authRequired env d"
  "authRequired env (d\<lparr>argv_len_sum := i\<rparr>) = authRequired env d" "authRequired env (d\<lparr>multibulklen := i\<rparr>) = authRequired env d"
  "authRequired env (d\<lparr>bulklen := i\<rparr>) = authRequired env d" "authRequired env (d\<lparr>reqtype := r\<rparr>) = authRequired env d"
  by (simp_all add: authRequired_def)

lemma pframe_trans: "pframe c c1 \<Longrightarrow> pframe c1 c2 \<Longrightarrow> pframe c c2"
  by (simp add: pframe_def)

lemma pframe_auth: "pframe c d \<Longrightarrow> authRequired env d = authRequired env c"
  by (simp add: pframe_def authRequired_def)

text \<open>The argument vector has room, the lengths are in range (and small before authentication), and a request that has
  not given its number of arguments yet is at its first byte.\<close>

definition mid_ok :: "proto_env \<Rightarrow> client \<Rightarrow> bool" where
  "mid_ok env c \<longleftrightarrow> qb_pos c \<le> length (querybuf c) \<and> 0 \<le> multibulklen c \<and> - 1 \<le> bulklen c \<and> bulklen c \<le> LLONG_MAX - 2 \<and>
     (multibulklen c = 0 \<longrightarrow> bulklen c = - 1) \<and> int (argc c) \<le> argv_len c \<and> 1 \<le> argv_len c \<and>
     int (argc c) + multibulklen c \<le> INT_MAX \<and> 0 < int (argc c) + multibulklen c \<and>
     (authRequired env c \<longrightarrow> int (argc c) + multibulklen c \<le> 10 \<and> bulklen c \<le> 16384)"

definition parse_ok :: "proto_env \<Rightarrow> client \<Rightarrow> bool" where
  "parse_ok env c \<longleftrightarrow>
     (if multibulklen c = 0
      then qb_pos c \<le> length (querybuf c) \<and> argv c = [] \<and> bulklen c = - 1 \<and>
        (reqtype c = PROTO_REQ_MULTIBULK \<longrightarrow> unread_bytes c \<noteq> [] \<and> hd (unread_bytes c) = 42)
      else reqtype c = PROTO_REQ_MULTIBULK \<and> mid_ok env c)"

lemma string2ll_range: "string2ll s = Some x \<Longrightarrow> in_llong x"
  using string2ll_sound by blast

definition env_ok :: "proto_env \<Rightarrow> bool" where
  "env_ok env \<longleftrightarrow> proto_max_bulk_len env \<le> LLONG_MAX - 2"

lemma err_simps [simp]:
  "multibulklen (setProtocolError (addReplyError e c)) = multibulklen c" "qb_pos (setProtocolError (addReplyError e c)) = qb_pos c"
  "querybuf (setProtocolError (addReplyError e c)) = querybuf c" "argv (setProtocolError (addReplyError e c)) = argv c"
  "bulklen (setProtocolError (addReplyError e c)) = bulklen c" "reqtype (setProtocolError (addReplyError e c)) = reqtype c"
  "argv_len (setProtocolError (addReplyError e c)) = argv_len c" "authRequired env (setProtocolError (addReplyError e c)) = authRequired env c"
  "pframe c (setProtocolError (addReplyError e c))"
  by (simp_all add: setProtocolError_def addReplyError_def pframe_def authRequired_def)

lemma parse_ok_err [simp]: "parse_ok env (setProtocolError (addReplyError e c)) = parse_ok env c"
  "mid_ok env (setProtocolError (addReplyError e c)) = mid_ok env c"
  by (simp_all add: parse_ok_def mid_ok_def)

lemma read_multibulk_len_total:
  assumes p: "parse_ok env c" "multibulklen c = 0" "reqtype c = PROTO_REQ_MULTIBULK"
  shows "\<exists>c' r. read_multibulk_len env c = Some (c', r) \<and> pframe c c' \<and> reqtype c' = PROTO_REQ_MULTIBULK \<and>
    (case r of
       RetErr \<Rightarrow> parse_ok env c'
     | RetOk \<Rightarrow> argv c' = [] \<and> multibulklen c' = 0 \<and> length (unread_bytes c') < length (unread_bytes c) \<and> qb_pos c' \<le> length (querybuf c')
     | Go \<Rightarrow> mid_ok env c' \<and> 0 < multibulklen c' \<and> length (unread_bytes c') < length (unread_bytes c)
     | Break \<Rightarrow> False)"
proof -
  let ?u = "unread_bytes c"
  have q: "qb_pos c \<le> length (querybuf c)" "argv c = []" "bulklen c = - 1" "?u \<noteq> []" "hd ?u = 42"
    using p by (simp_all add: parse_ok_def)
  then have u0: "?u ! 0 = 42" by (simp add: hd_conv_nth)
  have un: "unread c = Some ?u" using q(1) by (simp add: unread_def)
  show ?thesis
  proof (cases "strchr 13 ?u")
    case None
    then show ?thesis using p q by (simp add: read_multibulk_len_def un)
  next
    case (Some n)
    show ?thesis
    proof (cases "int n > int (length ?u) - 2")
      case True
      then show ?thesis using p q Some by (simp add: read_multibulk_len_def un)
    next
      case len: False
      show ?thesis
      proof (cases "string2ll (take (n - 1) (drop 1 ?u))")
        case None
        then show ?thesis using p q Some len u0 by (simp add: read_multibulk_len_def un)
      next
        case ll: (Some ll)
        have d: "length (querybuf c) - (qb_pos c + n + 2) < length (querybuf c) - qb_pos c" "qb_pos c + n + 2 \<le> length (querybuf c)"
          using q(1) len by simp_all
        consider "ll > INT_MAX" | "ll \<le> INT_MAX" "ll > 10" "authRequired env c" | "ll \<le> 0"
          | "ll \<le> INT_MAX" "0 < ll" "\<not> (ll > 10 \<and> authRequired env c)"
          by linarith
        then show ?thesis
        proof cases
          case 1
          then show ?thesis using p q Some len u0 ll by (simp add: read_multibulk_len_def un)
        next
          case 2
          then show ?thesis using p q Some len u0 ll by (simp add: read_multibulk_len_def un)
        next
          case 3
          then have "ll \<le> INT_MAX" by (simp add: INT_MAX_def)
          then show ?thesis using p q Some len u0 ll d 3 by (simp add: read_multibulk_len_def un)
        next
          case 4
          then show ?thesis using p q Some len u0 ll d by (auto simp: read_multibulk_len_def un mid_ok_def)
        qed
      qed
    qed
  qed
qed


lemma read_bulk_len_total:
  assumes e: "env_ok env" and c: "mid_ok env c" "0 < multibulklen c" "bulklen c = - 1" "\<not> CLIENT_MASTER c"
  shows "\<exists>c' r. read_bulk_len env c = Some (c', r) \<and> pframe c c' \<and> reqtype c' = reqtype c \<and> mid_ok env c' \<and>
    multibulklen c' = multibulklen c \<and> argv c' = argv c \<and> length (unread_bytes c') \<le> length (unread_bytes c) \<and> r \<noteq> RetOk \<and>
    (r = Go \<longrightarrow> 0 \<le> bulklen c')"
proof -
  let ?u = "unread_bytes c"
  have q: "qb_pos c \<le> length (querybuf c)" using c by (simp add: mid_ok_def)
  have un: "unread c = Some ?u" using q by (simp add: unread_def)
  show ?thesis
  proof (cases "strchr 13 ?u")
    case None
    then show ?thesis using c by (cases "length ?u > PROTO_INLINE_MAX_SIZE") (simp_all add: read_bulk_len_def un)
  next
    case (Some n)
    show ?thesis
    proof (cases "int n > int (length ?u) - 2 \<or> ?u ! 0 \<noteq> 36")
      case True
      then show ?thesis using c Some q by (cases "int n > int (length ?u) - 2") (simp_all add: read_bulk_len_def un)
    next
      case len: False
      then have d: "qb_pos c + n + 2 \<le> length (querybuf c)" "?u ! 0 = 36" "\<not> int n > int (length ?u) - 2" using q by simp_all
      show ?thesis
      proof (cases "string2ll (take (n - 1) (drop 1 ?u))")
        case None
        then show ?thesis using c Some d by (simp add: read_bulk_len_def un)
      next
        case ll: (Some ll)
        consider "ll < 0 \<or> ll > proto_max_bulk_len env" | "0 \<le> ll" "ll \<le> proto_max_bulk_len env" "ll > 16384" "authRequired env c"
          | "0 \<le> ll" "ll \<le> proto_max_bulk_len env" "\<not> (ll > 16384 \<and> authRequired env c)"
          by linarith
        then show ?thesis
        proof cases
          case 1
          then show ?thesis using c Some d ll by (simp add: read_bulk_len_def un)
        next
          case 2
          then show ?thesis using c Some d ll by (simp add: read_bulk_len_def un)
        next
          case 3
          define c1 where "c1 = c\<lparr>qb_pos := qb_pos c + n + 2\<rparr>"
          define c2 where "c2 = (if ll \<ge> PROTO_MBULK_BIG_ARG \<and> int (length (querybuf c1)) - int (qb_pos c1) \<le> ll + 2
                             then c1\<lparr>querybuf := drop (qb_pos c1) (querybuf c1), qb_pos := 0\<rparr> else c1)"
          have r: "read_bulk_len env c = Some (c2\<lparr>bulklen := ll\<rparr>, Go)"
            using 3 Some d ll c(4) by (simp add: read_bulk_len_def un Let_def c1_def c2_def)
          have "mid_ok env c1" using c d(1) by (simp add: c1_def mid_ok_def)
          then have "mid_ok env c2" by (simp add: c2_def mid_ok_def)
          moreover have "multibulklen c2 = multibulklen c" "argv c2 = argv c" "reqtype c2 = reqtype c" "pframe c c2"
            "length (unread_bytes c2) \<le> length (unread_bytes c)" by (auto simp: c1_def c2_def)
          ultimately have "mid_ok env (c2\<lparr>bulklen := ll\<rparr>)" using 3 c(2) e pframe_auth [of c c2 env] by (auto simp: mid_ok_def env_ok_def)
          then show ?thesis
            using r 3 \<open>multibulklen c2 = _\<close> \<open>argv c2 = _\<close> \<open>reqtype c2 = _\<close> \<open>pframe c c2\<close> \<open>length _ \<le> _\<close>
            by (intro exI [of _ "c2\<lparr>bulklen := ll\<rparr>"] exI [of _ Go]) simp
        qed
      qed
    qed
  qed
qed

lemma read_bulk_total:
  assumes c: "mid_ok env c" "0 < multibulklen c" "0 \<le> bulklen c" "bulklen c + 2 \<le> int (length (unread_bytes c))"
  shows "\<exists>c'. read_bulk c = Some c' \<and> pframe c c' \<and> reqtype c' = reqtype c \<and> mid_ok env c' \<and> multibulklen c' = multibulklen c - 1 \<and>
    length (unread_bytes c') < length (unread_bytes c) \<and> argv c' = argv c @ [take (nat (bulklen c)) (unread_bytes c)] \<and> bulklen c' = - 1 \<and>
    unread_bytes c' = drop (nat (bulklen c + 2)) (unread_bytes c)"
proof -
  let ?u = "unread_bytes c"
  have q: "qb_pos c \<le> length (querybuf c)" using c by (simp add: mid_ok_def)
  have un: "unread c = Some ?u" using q by (simp add: unread_def)
  define c1 where "c1 = (if int (argc c) \<ge> argv_len c
              then c\<lparr>argv_len := min (if argv_len c < INT_MAX div 2 then argv_len c * 2 else INT_MAX) (int (argc c) + multibulklen c)\<rparr>
              else c)"
  have room: "int (argc c1) < argv_len c1"
    using c(1,2) by (auto simp: c1_def mid_ok_def min_def)
  have f: "querybuf c1 = querybuf c" "qb_pos c1 = qb_pos c" "bulklen c1 = bulklen c" "CLIENT_MASTER c1 = CLIENT_MASTER c"
    "argv c1 = argv c" "argv_len_sum c1 = argv_len_sum c" "multibulklen c1 = multibulklen c" "pframe c c1" "reqtype c1 = reqtype c"
    "authRequired env c1 = authRequired env c"
    by (simp_all add: c1_def)
  define c2 where "c2 = (if \<not> CLIENT_MASTER c \<and> qb_pos c = 0 \<and> bulklen c \<ge> PROTO_MBULK_BIG_ARG \<and> int (length (querybuf c)) = bulklen c + 2
                then c1\<lparr>argv := argv c @ [take (length (querybuf c) - 2) (querybuf c)],
                       argv_len_sum := argv_len_sum c + bulklen c, querybuf := []\<rparr>
                else c1\<lparr>argv := argv c @ [take (nat (bulklen c)) ?u],
                       argv_len_sum := argv_len_sum c + bulklen c, qb_pos := qb_pos c + nat (bulklen c + 2)\<rparr>)"
  let ?c = "c2\<lparr>bulklen := -1, multibulklen := multibulklen c - 1\<rparr>"
  have r: "read_bulk c = Some ?c"
    using room unfolding read_bulk_def un by (simp add: Let_def c1_def [symmetric] f c2_def)
  have len: "length (querybuf c) - qb_pos c \<ge> nat (bulklen c + 2)" using c(4) by simp
  have whole: "length (querybuf c) - 2 = nat (bulklen c)" if "int (length (querybuf c)) = bulklen c + 2" using that by linarith
  have g: "argv c2 = argv c @ [take (nat (bulklen c)) ?u]" "unread_bytes c2 = drop (nat (bulklen c + 2)) ?u" "pframe c c2" "reqtype c2 = reqtype c"
    "argv_len c2 = argv_len c1" "multibulklen c2 = multibulklen c" "authRequired env c2 = authRequired env c" "qb_pos c2 \<le> length (querybuf c2)"
    using c(3) len q by (auto simp: c2_def f add.commute whole)
  have "mid_ok env ?c" using c(1,2) room f g by (auto simp: mid_ok_def)
  moreover have "length (drop (nat (bulklen c + 2)) ?u) < length ?u" using c(3,4) by simp
  ultimately show ?thesis using r g by (intro exI [of _ ?c]) (simp del: length_drop)
qed

lemma parse_ok_pos: "parse_ok env c \<Longrightarrow> qb_pos c \<le> length (querybuf c)"
  by (simp add: parse_ok_def mid_ok_def split: if_splits)

lemma multibulk_loop_total:
  assumes e: "env_ok env"
  shows "mid_ok env c \<Longrightarrow> \<not> CLIENT_MASTER c \<Longrightarrow> reqtype c = PROTO_REQ_MULTIBULK \<Longrightarrow>
    \<exists>c' ok. multibulk_loop env c = Some (c', ok) \<and> pframe c c' \<and> mid_ok env c' \<and> ok = (multibulklen c' = 0) \<and>
      reqtype c' = PROTO_REQ_MULTIBULK \<and> length (unread_bytes c') \<le> length (unread_bytes c) \<and>
      (ok \<and> multibulklen c \<noteq> 0 \<longrightarrow> length (unread_bytes c') < length (unread_bytes c))"
proof (induction "nat (multibulklen c)" arbitrary: c rule: less_induct)
  case less
  note c = less.prems
  show ?case
  proof (cases "multibulklen c = 0")
    case True
    then show ?thesis using c by (subst multibulk_loop.simps) simp
  next
    case False
    then have pos: "0 < multibulklen c" using c by (simp add: mid_ok_def)
    have "\<exists>c1 r. (if bulklen c = - 1 then read_bulk_len env c else Some (c, Go)) = Some (c1, r) \<and> pframe c c1 \<and>
      reqtype c1 = reqtype c \<and> mid_ok env c1 \<and> multibulklen c1 = multibulklen c \<and> argv c1 = argv c \<and>
      length (unread_bytes c1) \<le> length (unread_bytes c) \<and> r \<noteq> RetOk \<and> (r = Go \<longrightarrow> 0 \<le> bulklen c1)"
    proof (cases "bulklen c = - 1")
      case True
      then show ?thesis using read_bulk_len_total [OF e c(1) pos True c(2)] by simp
    next
      case False
      then show ?thesis using c(1) by (simp add: mid_ok_def)
    qed
    then obtain c1 r where l: "(if bulklen c = - 1 then read_bulk_len env c else Some (c, Go)) = Some (c1, r)" "pframe c c1"
      "reqtype c1 = reqtype c" "mid_ok env c1" "multibulklen c1 = multibulklen c"
      "length (unread_bytes c1) \<le> length (unread_bytes c)" "r \<noteq> RetOk" "r = Go \<longrightarrow> 0 \<le> bulklen c1"
      by (elim exE conjE) (rule that)
    have b: "bulklen c1 + 2 \<le> LLONG_MAX" "qb_pos c1 \<le> length (querybuf c1)" using l(4) by (simp_all add: mid_ok_def)
    show ?thesis
    proof (cases "r = Go \<and> bulklen c1 + 2 \<le> int (length (unread_bytes c1))")
      case True
      have p1: "0 < multibulklen c1" "0 \<le> bulklen c1" using pos l True by simp_all
      obtain c2 where r: "read_bulk c1 = Some c2" "pframe c1 c2" "reqtype c2 = reqtype c1" "mid_ok env c2"
        "multibulklen c2 = multibulklen c1 - 1" "length (unread_bytes c2) < length (unread_bytes c1)"
        using read_bulk_total [OF l(4) p1 True [THEN conjunct2]] by (elim exE conjE) (rule that)
      have q: "nat (multibulklen c2) < nat (multibulklen c)" "\<not> CLIENT_MASTER c2" "reqtype c2 = PROTO_REQ_MULTIBULK"
        using c(2,3) l(2,3,5) r(2,3,5) pos by (simp_all add: pframe_def)
      obtain c3 ok where m: "multibulk_loop env c2 = Some (c3, ok)" "pframe c2 c3" "mid_ok env c3" "ok = (multibulklen c3 = 0)"
        "reqtype c3 = PROTO_REQ_MULTIBULK" "length (unread_bytes c3) \<le> length (unread_bytes c2)"
        using less.hyps [OF q(1) r(4) q(2,3)] by (elim exE conjE) (rule that)
      have "multibulk_loop env c = multibulk_loop env c2"
        using True b r(1) pos by (subst multibulk_loop.simps) (simp add: l(1))
      then show ?thesis
        using pframe_trans [OF l(2) pframe_trans [OF r(2) m(2)]] l(6) r(6) m
        by (intro exI [of _ c3] exI [of _ ok]) simp
    next
      case False
      then have "multibulk_loop env c = Some (c1, multibulklen c1 = 0)"
        using b l(5,7) pos by (subst multibulk_loop.simps) (cases r; simp add: l(1))
      then show ?thesis using l pos c(3) by (intro exI [of _ c1] exI [of _ "multibulklen c1 = 0"]) simp
    qed
  qed
qed

lemma processMultibulkBuffer_total:
  assumes e: "env_ok env" and c: "parse_ok env c" "\<not> CLIENT_MASTER c" "reqtype c = PROTO_REQ_MULTIBULK"
  shows "\<exists>c' ok. processMultibulkBuffer env c = Some (c', ok) \<and> pframe c c' \<and> qb_pos c' \<le> length (querybuf c') \<and>
    (if ok then length (unread_bytes c') < length (unread_bytes c) else parse_ok env c')"
proof -
  have mid: ?thesis if "mid_ok env d" "0 < multibulklen d" "pframe c d" "reqtype d = PROTO_REQ_MULTIBULK"
    "length (unread_bytes d) \<le> length (unread_bytes c)" "processMultibulkBuffer env c = multibulk_loop env d" for d
  proof -
    note d = that
    have nm: "\<not> CLIENT_MASTER d" using c(2) d(3) by (simp add: pframe_def)
    obtain c2 ok where m: "multibulk_loop env d = Some (c2, ok)" "pframe d c2" "mid_ok env c2" "ok = (multibulklen c2 = 0)"
      "reqtype c2 = PROTO_REQ_MULTIBULK" "ok \<and> multibulklen d \<noteq> 0 \<longrightarrow> length (unread_bytes c2) < length (unread_bytes d)"
      using multibulk_loop_total [OF e d(1) nm d(4)] by (elim exE conjE) (rule that)
    have "if ok then length (unread_bytes c2) < length (unread_bytes c) else parse_ok env c2"
      using m d(2,5) by (auto simp: parse_ok_def)
    moreover have "qb_pos c2 \<le> length (querybuf c2)" using m(3) by (simp add: mid_ok_def)
    ultimately show ?thesis using d(6) m(1) pframe_trans [OF d(3) m(2)] by (intro exI [of _ c2] exI [of _ ok]) simp
  qed
  show ?thesis
  proof (cases "multibulklen c = 0")
    case True
    obtain c1 r where l: "read_multibulk_len env c = Some (c1, r)" "pframe c c1" "reqtype c1 = PROTO_REQ_MULTIBULK"
      "case r of
         RetErr \<Rightarrow> parse_ok env c1
       | RetOk \<Rightarrow> argv c1 = [] \<and> multibulklen c1 = 0 \<and> length (unread_bytes c1) < length (unread_bytes c) \<and> qb_pos c1 \<le> length (querybuf c1)
       | Go \<Rightarrow> mid_ok env c1 \<and> 0 < multibulklen c1 \<and> length (unread_bytes c1) < length (unread_bytes c)
       | Break \<Rightarrow> False"
      using read_multibulk_len_total [OF c(1) True c(3)] by (elim exE conjE) (rule that)
    show ?thesis
    proof (cases r)
      case Go
      then show ?thesis using l True by (intro mid [of c1]) (simp_all add: processMultibulkBuffer_def)
    next
      case RetErr
      then show ?thesis using l True parse_ok_pos [of env c1]
        by (intro exI [of _ c1] exI [of _ False]) (simp add: processMultibulkBuffer_def)
    next
      case RetOk
      then show ?thesis using l True by (intro exI [of _ c1] exI [of _ True]) (simp add: processMultibulkBuffer_def)
    qed (use l in simp)
  next
    case False
    then have "mid_ok env c" "0 < multibulklen c" using c by (simp_all add: parse_ok_def mid_ok_def)
    then show ?thesis using c False by (intro mid [of c]) (simp_all add: processMultibulkBuffer_def)
  qed
qed

section \<open>Splitting a line never fails on a terminated string\<close>

lemma hex_escape_total:
  assumes "0 \<in> set p"
  shows "\<exists>h. hex_escape p = Some h \<and> (h \<longrightarrow> 0 \<in> set (drop 3 p))"
proof -
  have nz: "\<not> is_hex_digit 0" by (simp add: is_hex_digit_def)
  obtain x q where p: "p = x # q" using assms by (cases p) auto
  show ?thesis
  proof (cases "x = 120")
    case True
    then obtain a q1 where q: "q = a # q1" using assms p by (cases q) auto
    show ?thesis
    proof (cases "is_hex_digit a")
      case True
      then obtain b q2 where "q1 = b # q2" using assms p q \<open>x = 120\<close> nz by (cases q1) auto
      then show ?thesis using assms p q True \<open>x = 120\<close> nz by (auto simp: numeral_3_eq_3)
    qed (use p q True in auto)
  qed (use p in auto)
qed

lemma drop1_zero: "0 \<in> set p \<Longrightarrow> hd p \<noteq> (0 :: byte) \<Longrightarrow> 0 \<in> set (drop (Suc 0) p)"
  by (cases p) auto

lemma rd0: "0 \<in> set (p :: buffer) \<Longrightarrow> rd p 0 = Some (hd p)"
  by (cases p) (auto simp: rd_def)

definition token_ends :: "(unit + buffer \<times> buffer) option \<Rightarrow> bool" where
  "token_ends r = (case r of None \<Rightarrow> False | Some (Inl _) \<Rightarrow> True | Some (Inr (t, q)) \<Rightarrow> 0 \<in> set q)"

lemma token_ends_simps [simp]: "token_ends (Some (Inl u))" "token_ends (Some (Inr (t, q))) = (0 \<in> set q)"
  by (simp_all add: token_ends_def)

lemma token_total: "0 \<in> set p \<Longrightarrow> token_ends (token_loop m cur p)"
proof (induction m cur p rule: token_loop.induct)
  case (2 cur c p)
  show ?case
  proof (cases "c = 92")
    case True
    then have z: "0 \<in> set p" using 2(5) by auto
    obtain h where h: "hex_escape p = Some h" "h \<longrightarrow> 0 \<in> set (drop 3 p)" using hex_escape_total [OF z] by blast
    show ?thesis using True h z drop1_zero [OF z] 2(1) [OF True, of h] 2(2) [OF True, of h] 2(3) [OF True, of h] by simp
  next
    case False
    then show ?thesis using 2(4,5) by (cases "c = 34"; cases "c = 0") (auto simp: rd0)
  qed
next
  case (3 cur c p)
  show ?case
  proof (cases "c = 92")
    case True
    then have z: "0 \<in> set p" using 3(4) by auto
    show ?thesis using True z drop1_zero [OF z] rd0 [OF z] 3(1,2) [OF True, of "hd p"] by simp
  next
    case False
    then show ?thesis using 3(3,4) by (cases "c = 39"; cases "c = 0") (auto simp: rd0)
  qed
next
  case (4 cur c p)
  then show ?case by auto
qed simp

lemma skip_blanks_total: "0 \<in> set p \<Longrightarrow> \<exists>c q. skip_blanks p = Some (c # q) \<and> 0 \<in> set (c # q)"
  by (induction p rule: skip_blanks.induct) auto

lemma splitargs_total: "0 \<in> set p \<Longrightarrow> splitargs_loop p v \<noteq> None"
proof (induction p v rule: splitargs_loop.induct)
  case (1 p v)
  obtain c q where s: "skip_blanks p = Some (c # q)" "0 \<in> set (c # q)" using skip_blanks_total [OF 1(2)] by blast
  have e: "token_ends (token_loop Unquoted [] (c # q))" using token_total [OF s(2)] .
  show ?case
  proof (cases "token_loop Unquoted [] (c # q)")
    case None
    then show ?thesis using e by (simp add: token_ends_def)
  next
    case (Some r)
    then show ?thesis
    proof (cases r)
      case (Inl u)
      then show ?thesis using Some s by (subst splitargs_loop.simps) (simp del: token_loop.simps)
    next
      case (Inr tq)
      obtain t q' where tq: "tq = (t, q')" by (cases tq)
      have "0 \<in> set q'" using e Some Inr tq by simp
      then have "splitargs_loop q' (v @ [t]) \<noteq> None" if "c \<noteq> 0"
        using 1(1) [OF s(1) _ Some Inr tq [symmetric]] that tq by simp
      then show ?thesis using Some Inr tq s by (subst splitargs_loop.simps) (simp del: token_loop.simps)
    qed
  qed
qed

lemma sdssplitargs_total: "\<exists>r. sdssplitargs (s @ [0]) = Some r"
  using splitargs_total [of "s @ [0]" "[]"] by (auto simp: sdssplitargs_def)

section \<open>Inline requests\<close>

lemma master_flag [simp]: "CLIENT_MASTER (c\<lparr>repl_ack_time := t\<rparr>) = CLIENT_MASTER c" by simp

lemma processInlineBuffer_total:
  assumes c: "parse_ok env c" "\<not> CLIENT_MASTER c" "reqtype c = PROTO_REQ_INLINE"
  shows "\<exists>c' ok. processInlineBuffer env c = Some (c', ok) \<and> pframe c c' \<and> qb_pos c' \<le> length (querybuf c') \<and>
    (if ok then length (unread_bytes c') < length (unread_bytes c) else parse_ok env c')"
proof -
  let ?u = "unread_bytes c"
  have q: "qb_pos c \<le> length (querybuf c)" using parse_ok_pos [OF c(1)] .
  have un: "unread c = Some ?u" using q by (simp add: unread_def)
  show ?thesis
  proof (cases "strchr 10 ?u")
    case None
    then show ?thesis using c q by (cases "length ?u > PROTO_INLINE_MAX_SIZE") (auto simp: processInlineBuffer_def un)
  next
    case (Some nl)
    define n lf where "n = (if nl \<noteq> 0 \<and> ?u ! (nl - 1) = 13 then nl - 1 else nl)" and "lf = (if nl \<noteq> 0 \<and> ?u ! (nl - 1) = 13 then 2 else 1 :: nat)"
    have nl: "(if nl \<noteq> 0 \<and> ?u ! (nl - 1) = 13 then (nl - 1, 2) else (nl, 1)) = (n, lf)" by (simp add: n_def lf_def)
    have b: "n + lf \<le> length ?u" "0 < lf" using strchr_SomeD [OF Some] by (auto simp: n_def lf_def)
    obtain r where r: "sdssplitargs (take n ?u @ [0]) = Some r" using sdssplitargs_total by blast
    show ?thesis
    proof (cases r)
      case None
      then have "processInlineBuffer env c = Some (setProtocolError (addReplyError UnbalancedQuotes c), False)"
        using r unfolding processInlineBuffer_def un bind.bind_lunit Some option.case nl Let_def prod.case by simp
      then show ?thesis using c q by auto
    next
      case args: (Some args)
      define c1 where "c1 = (if n = 0 \<and> getClientType c = CLIENT_TYPE_SLAVE then c\<lparr>repl_ack_time := unixtime env\<rparr> else c)"
      define c2 where "c2 = (if args \<noteq> [] then c1\<lparr>qb_pos := qb_pos c1 + (n + lf), argv_len := int (length args), argv_len_sum := 0\<rparr>
         else c1\<lparr>qb_pos := qb_pos c1 + (n + lf)\<rparr>)"
      have f: "CLIENT_MASTER c1 = CLIENT_MASTER c" "pframe c c1" "querybuf c1 = querybuf c" "qb_pos c1 = qb_pos c"
        by (simp_all add: c1_def)
      let ?c = "c2\<lparr>argv := args, argv_len_sum := argv_len_sum c2 + (\<Sum>a\<leftarrow>args. int (length a))\<rparr>"
      have "processInlineBuffer env c = Some (?c, True)"
        using Some r args c(2) unfolding processInlineBuffer_def un bind.bind_lunit Some option.case nl Let_def prod.case
        by (simp add: c1_def [symmetric] f c2_def)
      moreover have "pframe c ?c" "querybuf ?c = querybuf c" "qb_pos ?c = qb_pos c + (n + lf)" using f by (simp_all add: c2_def)
      moreover have "qb_pos c + (n + lf) \<le> length (querybuf c)" "length (querybuf c) - (qb_pos c + (n + lf)) < length (querybuf c) - qb_pos c"
        using b q by (simp_all add: less_diff_conv2 le_diff_conv2 add.commute)
      ultimately show ?thesis by (intro exI [of _ ?c] exI [of _ True]) simp
    qed
  qed
qed

section \<open>The loop over the query buffer\<close>

text \<open>What is asked of \<open>processCommand\<close>: it leaves the query buffer of the client alone and does not turn it into a master, and a
  client it gives up on with \<open>C_ERR\<close> without freeing it is to be closed (\<open>securityWarningCommand\<close> calls \<open>freeClientAsync\<close>).\<close>

definition command_ok :: "(client \<Rightarrow> 's \<Rightarrow> cmd_result \<times> 's) \<Rightarrow> bool" where
  "command_ok processCommand \<longleftrightarrow> (\<forall>c s. case fst (processCommand c s) of
       C_OK c' \<Rightarrow> querybuf c' = querybuf c \<and> qb_pos c' = qb_pos c \<and> CLIENT_MASTER c' = CLIENT_MASTER c
     | C_ERR c' \<Rightarrow> querybuf c' = querybuf c \<and> qb_pos c' = qb_pos c \<and> CLIENT_MASTER c' = CLIENT_MASTER c \<and> CLIENT_CLOSE_ASAP c'
     | Freed \<Rightarrow> True)"

lemma resetClient_simps [simp]:
  "querybuf (resetClient c) = querybuf c" "qb_pos (resetClient c) = qb_pos c" "argv (resetClient c) = []"
  "multibulklen (resetClient c) = 0" "bulklen (resetClient c) = - 1" "reqtype (resetClient c) = REQ_UNKNOWN"
  "CLIENT_MASTER (resetClient c) = CLIENT_MASTER c" "CLIENT_MULTI (resetClient c) = CLIENT_MULTI c"
  "reploff (resetClient c) = reploff c" "read_reploff (resetClient c) = read_reploff c" "repl_applied (resetClient c) = repl_applied c"
  "CLIENT_BLOCKED (resetClient c) = CLIENT_BLOCKED c" "CLIENT_PENDING_COMMAND (resetClient c) = CLIENT_PENDING_COMMAND c"
  "CLIENT_CLOSE_AFTER_REPLY (resetClient c) = CLIENT_CLOSE_AFTER_REPLY c" "CLIENT_CLOSE_ASAP (resetClient c) = CLIENT_CLOSE_ASAP c"
  "authenticated (resetClient c) = authenticated c" "error_replies (resetClient c) = error_replies c"
  by (simp_all add: resetClient_def freeClientArgv_def Let_def)

lemma parse_ok_reset: "qb_pos c \<le> length (querybuf c) \<Longrightarrow> parse_ok env (resetClient c)"
  by (simp add: parse_ok_def)

text \<open>A client after the loop: well-formed, or left in the middle of a command by a blocking command, an I/O thread or because it
  is to be closed.\<close>

definition input_ok :: "proto_env \<Rightarrow> client option \<Rightarrow> bool" where
  "input_ok env r = (case r of None \<Rightarrow> True
     | Some c \<Rightarrow> \<not> CLIENT_MASTER c \<and> qb_pos c \<le> length (querybuf c) \<and> (CLIENT_BLOCKED c \<or> CLIENT_PENDING_COMMAND c \<or> CLIENT_CLOSE_ASAP c \<or> parse_ok env c))"

lemma parse_request_total:
  assumes e: "env_ok env" and c: "parse_ok env c" "\<not> CLIENT_MASTER c" "reqtype c \<noteq> REQ_UNKNOWN"
  shows "\<exists>c' ok. (if reqtype c = PROTO_REQ_INLINE then processInlineBuffer env c else processMultibulkBuffer env c) = Some (c', ok) \<and>
    pframe c c' \<and> qb_pos c' \<le> length (querybuf c') \<and>
    (if ok then length (unread_bytes c') < length (unread_bytes c) else parse_ok env c')"
proof (cases "reqtype c")
  case PROTO_REQ_INLINE
  then show ?thesis using processInlineBuffer_total [OF c(1,2)] by (simp del: length_drop)
next
  case PROTO_REQ_MULTIBULK
  then show ?thesis using processMultibulkBuffer_total [OF e c(1,2)] by (simp del: length_drop)
qed (use c in simp)

lemma set_reqtype_ok:
  assumes "parse_ok env c" "qb_pos c < length (querybuf c)"
  defines "d \<equiv> (if reqtype c = REQ_UNKNOWN then c\<lparr>reqtype := if querybuf c ! qb_pos c = 42 then PROTO_REQ_MULTIBULK else PROTO_REQ_INLINE\<rparr> else c)"
  shows "parse_ok env d" "reqtype d \<noteq> REQ_UNKNOWN" "pframe c d" "querybuf d = querybuf c" "qb_pos d = qb_pos c"
    "CLIENT_CLOSE_AFTER_REPLY d = CLIENT_CLOSE_AFTER_REPLY c" "argv d = argv c" "multibulklen d = multibulklen c" "bulklen d = bulklen c"
  using assms(1,2) by (auto simp: d_def parse_ok_def hd_drop_conv_nth split: if_splits)

lemma commandProcessed_total:
  assumes "\<not> CLIENT_MASTER c"
  shows "commandProcessed feed c s = Some (if CLIENT_BLOCKED c then c else resetClient c, s)"
  using assms by (simp add: commandProcessed_def Let_def)

lemma input_loop_total:
  assumes e: "env_ok env" "io_threads_op env \<noteq> IO_THREADS_OP_WRITE" and p: "command_ok proc"
  shows "input_ok env (Some c) \<Longrightarrow> \<exists>r s'. input_loop env proc feed c s = Some (r, s') \<and> input_ok env r"
proof (induction "length (unread_bytes c)" arbitrary: c s rule: less_induct)
  case less
  have c: "\<not> CLIENT_MASTER c" "CLIENT_BLOCKED c \<or> CLIENT_PENDING_COMMAND c \<or> CLIENT_CLOSE_ASAP c \<or> parse_ok env c" using less.prems by (simp_all add: input_ok_def)
  show ?case
  proof (cases "\<not> qb_pos c < length (querybuf c) \<or> CLIENT_BLOCKED c \<or> CLIENT_PENDING_COMMAND c \<or> CLIENT_CLOSE_AFTER_REPLY c \<or> CLIENT_CLOSE_ASAP c")
    case True
    then have "input_loop env proc feed c s = Some (Some c, s)" using c(1) by (subst input_loop.simps) auto
    then show ?thesis using less.prems by blast
  next
    case False
    define d where "d = (if reqtype c = REQ_UNKNOWN then c\<lparr>reqtype := if querybuf c ! qb_pos c = 42 then PROTO_REQ_MULTIBULK else PROTO_REQ_INLINE\<rparr> else c)"
    have pc: "parse_ok env c" "qb_pos c < length (querybuf c)" using c False by simp_all
    note d = set_reqtype_ok [OF pc, folded d_def]
    have nm: "\<not> CLIENT_MASTER d" using c(1) d(3) by (simp add: pframe_def)
    obtain c1 ok where r: "(if reqtype d = PROTO_REQ_INLINE then processInlineBuffer env d else processMultibulkBuffer env d) = Some (c1, ok)"
      "pframe d c1" "qb_pos c1 \<le> length (querybuf c1)" "if ok then length (unread_bytes c1) < length (unread_bytes d) else parse_ok env c1"
      using parse_request_total [OF e(1) d(1) nm d(2)] by (elim exE conjE) (rule that)
    have m1: "\<not> CLIENT_MASTER c1" using nm r(2) by (simp add: pframe_def)
    have smaller: "length (unread_bytes c1) < length (unread_bytes c)" if ok using r(4) that d(4,5) by simp
    let ?rest = "if \<not> ok then Some (Some c1, s)
        else if argc c1 = 0 then input_loop env proc feed (resetClient c1) s
        else if io_threads_op env \<noteq> IO_THREADS_OP_IDLE
        then (if io_threads_op env = IO_THREADS_OP_READ then Some (Some (c1\<lparr>CLIENT_PENDING_COMMAND := True\<rparr>), s) else None)
        else do {
          (c, s) \<leftarrow> processCommandAndResetClient proc feed c1 s;
          case c of None \<Rightarrow> Some (None, s) | Some c \<Rightarrow> input_loop env proc feed c s
        }"
    have loop: "input_loop env proc feed c s = ?rest"
      using False c(1) by (subst input_loop.simps) (simp add: d_def [symmetric] r(1) Let_def)
    have again: "\<exists>r' s'. input_loop env proc feed c2 s2 = Some (r', s') \<and> input_ok env r'"
      if "ok" "input_ok env (Some c2)" "length (unread_bytes c2) = length (unread_bytes c1)" for c2 s2
      using less.hyps [of c2] that smaller by simp
    consider "\<not> ok" | "ok" "argv c1 = []" | "ok" "argv c1 \<noteq> []" "io_threads_op env = IO_THREADS_OP_READ"
      | "ok" "argv c1 \<noteq> []" "io_threads_op env = IO_THREADS_OP_IDLE"
      using e(2) by (cases "io_threads_op env") auto
    then show ?thesis
    proof cases
      case 1
      then show ?thesis using r m1 unfolding loop by (simp add: input_ok_def)
    next
      case 2
      then have "input_ok env (Some (resetClient c1))" using r(3) m1 by (simp add: input_ok_def parse_ok_reset)
      then show ?thesis using again [OF 2(1), of "resetClient c1" s] 2 unfolding loop by simp
    next
      case 3
      then show ?thesis using r(3) m1 unfolding loop by (simp add: input_ok_def)
    next
      case 4
      obtain c2 s2 where x: "proc c1 s = (c2, s2)" by (cases "proc c1 s")
      have ok2: "case c2 of
           C_OK c3 \<Rightarrow> querybuf c3 = querybuf c1 \<and> qb_pos c3 = qb_pos c1 \<and> CLIENT_MASTER c3 = CLIENT_MASTER c1
         | C_ERR c3 \<Rightarrow> querybuf c3 = querybuf c1 \<and> qb_pos c3 = qb_pos c1 \<and> CLIENT_MASTER c3 = CLIENT_MASTER c1 \<and> CLIENT_CLOSE_ASAP c3
         | Freed \<Rightarrow> True"
        using p [unfolded command_ok_def, rule_format, of c1 s] x by simp
      show ?thesis
      proof (cases c2)
        case Freed
        then show ?thesis using 4 x unfolding loop by (simp add: processCommandAndResetClient_def input_ok_def)
      next
        case (C_ERR c3)
        then have "input_ok env (Some c3)" using ok2 r(3) m1 by (simp add: input_ok_def)
        moreover have "processCommandAndResetClient proc feed c1 s = Some (Some c3, s2)"
          using x C_ERR by (simp add: processCommandAndResetClient_def)
        ultimately show ?thesis using again [OF 4(1), of c3 s2] 4 ok2 C_ERR unfolding loop by simp
      next
        case (C_OK c3)
        then have k: "querybuf c3 = querybuf c1" "qb_pos c3 = qb_pos c1" "\<not> CLIENT_MASTER c3" using ok2 m1 by simp_all
        let ?c = "if CLIENT_BLOCKED c3 then c3 else resetClient c3"
        have "input_ok env (Some ?c)" using k r(3) parse_ok_reset [of c3 env] by (simp add: input_ok_def)
        moreover have "processCommandAndResetClient proc feed c1 s = Some (Some ?c, s2)"
          using x C_OK k(3) by (simp add: processCommandAndResetClient_def commandProcessed_total)
        ultimately show ?thesis using again [OF 4(1), of ?c s2] 4 k unfolding loop by simp
      qed
    qed
  qed
qed

section \<open>Any input is handled\<close>

text \<open>A sequence of reads from a connection; it ends early when the client is destroyed.\<close>

fun reads ::
  "proto_env \<Rightarrow> nat \<Rightarrow> (client \<Rightarrow> 's \<Rightarrow> cmd_result \<times> 's) \<Rightarrow> (buffer \<Rightarrow> 's \<Rightarrow> 's) \<Rightarrow> buffer list \<Rightarrow> client \<Rightarrow> 's \<Rightarrow> (client option \<times> 's) option" where
  "reads env maxlen proc feed [] c s = Some (Some c, s)"
| "reads env maxlen proc feed (b # bs) c s = do {
     (r, s) \<leftarrow> readQuery env maxlen proc feed b c s;
     case r of None \<Rightarrow> Some (None, s) | Some c \<Rightarrow> reads env maxlen proc feed bs c s
   }"

lemma parse_ok_more: "parse_ok env c \<Longrightarrow> parse_ok env (c\<lparr>querybuf := querybuf c @ b\<rparr>)"
  by (auto simp: parse_ok_def mid_ok_def split: if_splits)

lemma parse_ok_trim: "parse_ok env c \<Longrightarrow> parse_ok env (c\<lparr>querybuf := unread_bytes c, qb_pos := 0\<rparr>)"
  by (auto simp: parse_ok_def mid_ok_def split: if_splits)

lemma input_ok_more: "input_ok env (Some c) \<Longrightarrow> input_ok env (Some (c\<lparr>querybuf := querybuf c @ b\<rparr>))"
  using parse_ok_more [of env c b] by (auto simp: input_ok_def)

lemma input_ok_trim: "input_ok env (Some c) \<Longrightarrow> input_ok env (Some (c\<lparr>querybuf := unread_bytes c, qb_pos := 0\<rparr>))"
  using parse_ok_trim [of env c] by (auto simp: input_ok_def)

lemma processInputBuffer_total:
  assumes e: "env_ok env" "io_threads_op env \<noteq> IO_THREADS_OP_WRITE" and p: "command_ok proc" and c: "input_ok env (Some c)"
  shows "\<exists>r s'. processInputBuffer env proc feed c s = Some (r, s') \<and> input_ok env r"
proof -
  obtain r s' where l: "input_loop env proc feed c s = Some (r, s')" "input_ok env r"
    using input_loop_total [OF e p c, of feed s] by (elim exE conjE) (rule that)
  show ?thesis
  proof (cases r)
    case None
    then show ?thesis using l by (simp add: processInputBuffer_def)
  next
    case (Some d)
    then have "\<not> CLIENT_MASTER d" using l(2) by (simp add: input_ok_def)
    then show ?thesis using l Some input_ok_trim [of env d] by (cases "qb_pos d = 0") (simp_all add: processInputBuffer_def)
  qed
qed

lemma reads_total:
  assumes e: "env_ok env" "io_threads_op env \<noteq> IO_THREADS_OP_WRITE" and p: "command_ok proc"
  shows "input_ok env (Some c) \<Longrightarrow> \<exists>r s'. reads env maxlen proc feed bs c s = Some (r, s') \<and> input_ok env r"
proof (induction bs arbitrary: c s)
  case (Cons b bs)
  let ?c = "c\<lparr>querybuf := querybuf c @ b\<rparr>"
  have nm: "\<not> CLIENT_MASTER c" using Cons.prems by (simp add: input_ok_def)
  show ?case
  proof (cases "length (querybuf ?c) > maxlen")
    case True
    then show ?thesis using nm by (simp add: readQuery_def Let_def input_ok_def)
  next
    case False
    obtain r s1 where r: "processInputBuffer env proc feed ?c s = Some (r, s1)" "input_ok env r"
      using processInputBuffer_total [OF e p input_ok_more [OF Cons.prems, of b], of feed s] by (elim exE conjE) (rule that)
    show ?thesis
    proof (cases r)
      case None
      then show ?thesis using False nm r by (simp add: readQuery_def Let_def)
    next
      case (Some d)
      then show ?thesis using False nm r Cons.IH [of d s1] by (simp add: readQuery_def Let_def)
    qed
  qed
qed simp

text \<open>C27: Whatever bytes a client that is not a master sends, in whatever pieces, the request parser returns: no
  assertion fails, nothing is read or written outside of the query buffer or the argument vector, no length
  overflows and the loops end. The query buffer position stays inside the buffer, and the counters of the parser stay
  well-formed unless the client is blocked, waits for an I/O thread or is being closed. As long as the client has to authenticate, it is
  never made to expect more than ten arguments, or an argument of more than 16384 bytes. This needs a \<open>proto_max_bulk_len\<close> of at
  most \<open>LLONG_MAX - 2\<close>, I/O threads that are not writing, and commands that leave the query buffer of the client alone. A master is
  not covered: the limit does not apply to it.\<close>

theorem parser_never_fails:
  assumes "proto_max_bulk_len env \<le> LLONG_MAX - 2" "io_threads_op env \<noteq> IO_THREADS_OP_WRITE" "command_ok proc"
    "\<not> CLIENT_MASTER c" "parse_ok env c"
  shows "\<exists>r s'. reads env maxlen proc feed bs c s = Some (r, s') \<and>
    (case r of None \<Rightarrow> True
     | Some c' \<Rightarrow> qb_pos c' \<le> length (querybuf c') \<and>
         (CLIENT_BLOCKED c' \<or> CLIENT_PENDING_COMMAND c' \<or> CLIENT_CLOSE_ASAP c' \<or>
          parse_ok env c' \<and> (authRequired env c' \<longrightarrow> multibulklen c' \<le> 10 \<and> bulklen c' \<le> 16384)))"
proof -
  have e: "env_ok env" using assms(1) by (simp add: env_ok_def)
  have c: "input_ok env (Some c)" using assms(4,5) parse_ok_pos [OF assms(5)] by (simp add: input_ok_def)
  obtain r s' where r: "reads env maxlen proc feed bs c s = Some (r, s')" "input_ok env r"
    using reads_total [OF e assms(2,3) c, of maxlen feed bs s] by (elim exE conjE) (rule that)
  show ?thesis
  proof (cases r)
    case None
    then show ?thesis using r by simp
  next
    case (Some d)
    have "multibulklen d \<le> 10 \<and> bulklen d \<le> 16384" if "parse_ok env d" "authRequired env d"
      using that by (auto simp: parse_ok_def mid_ok_def split: if_splits)
    then show ?thesis using r Some by (auto simp: input_ok_def)
  qed
qed

text \<open>A client as \<open>createClient\<close> leaves it, and a server that only counts commands.\<close>

definition new_client :: "bool \<Rightarrow> client" where
  "new_client master = \<lparr>querybuf = [], qb_pos = 0, argv = [], argv_len = 0, argv_len_sum = 0, reqtype = REQ_UNKNOWN,
     multibulklen = 0, bulklen = - 1, cmd = None, error_replies = [], authenticated = False, repl_ack_time = 0, reploff = 0,
     read_reploff = 0, repl_applied = 0, deferred_reply_errors = None, cur_script = None, slot = - 1, CLIENT_MASTER = master,
     CLIENT_SLAVE = False, CLIENT_MONITOR = False, CLIENT_PUBSUB = False, CLIENT_MULTI = False, CLIENT_BLOCKED = False,
     CLIENT_PENDING_COMMAND = False, CLIENT_CLOSE_AFTER_REPLY = False, CLIENT_CLOSE_ASAP = False, CLIENT_PROTOCOL_ERROR = False,
     CLIENT_ASKING = False, CLIENT_TRACKING_CACHING = False, CLIENT_REPLY_SKIP = False, CLIENT_REPLY_SKIP_NEXT = False\<rparr>"

definition demo_proto_env :: proto_env where
  "demo_proto_env = \<lparr>io_threads_op = IO_THREADS_OP_IDLE, insideYieldingLongCommand = False, proto_max_bulk_len = 536870912,
     default_user_nopass = False, default_user_disabled = False, unixtime = 0\<rparr>"

definition log_command :: "client \<Rightarrow> buffer list list \<Rightarrow> cmd_result \<times> buffer list list" where
  "log_command c s = (C_OK c, s @ [argv c])"

lemma log_command_ok: "command_ok log_command"
  by (simp add: command_ok_def log_command_def)

lemma new_client_ok: "parse_ok env (new_client master)"
  by (simp add: parse_ok_def new_client_def)

theorem parser_never_fails_witness:
  "\<exists>r s'. reads demo_proto_env 1000 log_command (\<lambda>b s. s) [[42, 57, 57], [13, 10, 36]] (new_client False) [] = Some (r, s') \<and>
    (case r of None \<Rightarrow> True
     | Some c' \<Rightarrow> qb_pos c' \<le> length (querybuf c') \<and>
         (CLIENT_BLOCKED c' \<or> CLIENT_PENDING_COMMAND c' \<or> CLIENT_CLOSE_ASAP c' \<or>
          parse_ok demo_proto_env c' \<and> (authRequired demo_proto_env c' \<longrightarrow> multibulklen c' \<le> 10 \<and> bulklen c' \<le> 16384)))"
  by (rule parser_never_fails) (simp_all add: demo_proto_env_def log_command_ok new_client_ok, simp add: new_client_def)

section \<open>Requests written by the server itself\<close>

lemma cat_header_spec:
  assumes "32 \<le> length stack" "int n \<le> LLONG_MAX"
  shows "cat_header stack tag n = Some (resp_header tag n)"
proof -
  obtain x rest where st: "stack = x # rest" using assms(1) by (cases stack) auto
  have len: "length (dec n) \<le> 19" using length_dec_bound [OF assms(2)] .
  then have "drop (Suc (length (dec n))) rest \<noteq> []" using assms(1) st by simp
  then obtain b t where d: "drop (Suc (length (dec n))) rest = b # t" by (cases "drop (Suc (length (dec n))) rest") auto
  have r: "ll2string rest (length rest) (int n) = Some (dec n @ 0 # b # t, length (dec n))"
    using ll2string_fits [of "int n" "length rest" rest] assms(1) len st d by (simp add: dec_int_def)
  show ?thesis using r st
    by (simp add: cat_header_def wr_def peek_def resp_header_def CRLF_def nat_add_distrib list_update_append)
qed

lemma cat_args_spec:
  assumes "32 \<le> length stack"
  shows "\<forall>a \<in> set args. int (length a) \<le> LLONG_MAX \<Longrightarrow> cat_args stack dst args = Some (dst @ resp_bulks args)"
proof (induction args arbitrary: dst)
  case (Cons a args)
  then show ?case using cat_header_spec [OF assms, of "length a" 36] by (simp add: resp_bulk_def CRLF_def)
qed simp

lemma catAppendOnlyGenericCommand_spec:
  assumes "32 \<le> length stack" "\<forall>a \<in> set args. int (length a) \<le> LLONG_MAX" "int (length args) \<le> LLONG_MAX"
  shows "catAppendOnlyGenericCommand stack dst args = Some (dst @ resp args)"
  using cat_header_spec [OF assms(1,3)] cat_args_spec [OF assms(1,2)] by (simp add: catAppendOnlyGenericCommand_def resp_def)

section \<open>Parsing requests that arrive in pieces\<close>

text \<open>\<open>fut\<close> are the bytes still to come.\<close>

definition sendable :: "proto_env \<Rightarrow> buffer list \<Rightarrow> bool" where
  "sendable env args \<longleftrightarrow> args \<noteq> [] \<and> int (length args) \<le> INT_MAX \<and>
     (\<forall>a \<in> set args. int (length a) \<le> proto_max_bulk_len env \<and> int (length a) \<le> LLONG_MAX - 2)"

definition qframe :: "client \<Rightarrow> client \<Rightarrow> bool" where
  "qframe c c' \<longleftrightarrow> pframe c c' \<and> CLIENT_CLOSE_AFTER_REPLY c' = CLIENT_CLOSE_AFTER_REPLY c \<and> error_replies c' = error_replies c \<and>
     (CLIENT_MASTER c \<longrightarrow> querybuf c' = querybuf c)"

lemma qframe_refl [simp]: "qframe c c" by (simp add: qframe_def)

lemma qframe_trans: "qframe c c1 \<Longrightarrow> qframe c1 c2 \<Longrightarrow> qframe c c2"
  by (auto simp: qframe_def pframe_def)

lemma unread_some: "qb_pos c \<le> length (querybuf c) \<Longrightarrow> unread c = Some (unread_bytes c)"
  by (simp add: unread_def)

lemma read_multibulk_len_header:
  assumes c: "qb_pos c \<le> length (querybuf c)" "argv c = []" "\<not> authRequired env c"
    and h: "unread_bytes c @ fut = resp_header 42 n @ w" and n: "int n \<le> INT_MAX" "0 < n"
  shows "read_multibulk_len env c =
    (if length (dec n) + 3 \<le> length (unread_bytes c)
     then Some (c\<lparr>qb_pos := qb_pos c + (length (dec n) + 3), multibulklen := int n, argv_len := min (int n) 1024, argv_len_sum := 0\<rparr>, Go)
     else Some (c, RetErr))"
proof -
  let ?u = "unread_bytes c"
  have n': "int n \<le> LLONG_MAX" using n by (simp add: INT_MAX_def)
  have s: "strchr 13 ?u = (if length (dec n) + 1 < length ?u then Some (length (dec n) + 1) else None)"
    using header_scan [OF h] by blast
  show ?thesis
  proof (cases "length (dec n) + 3 \<le> length ?u")
    case True
    have "?u ! 0 = 42" "take (length (dec n)) (drop 1 ?u) = dec n" using header_whole [OF h True] by blast+
    then show ?thesis using True s c n string2ll_dec [OF n']
      by (simp add: read_multibulk_len_def unread_some add.commute)
  next
    case False
    then show ?thesis using s c length_dec_bound [OF n']
      by (auto simp: read_multibulk_len_def unread_some PROTO_INLINE_MAX_SIZE_def)
  qed
qed

lemma read_multibulk_len_resp:
  assumes "qb_pos c \<le> length (querybuf c)" "argv c = []" "\<not> authRequired env c"
    and "unread_bytes c @ fut = resp args @ w" "unread_bytes c \<noteq> []" and "sendable env args"
  shows "read_multibulk_len env c =
    (if length (dec (length args)) + 3 \<le> length (unread_bytes c)
     then Some (c\<lparr>qb_pos := qb_pos c + (length (dec (length args)) + 3), multibulklen := int (length args),
                  argv_len := min (int (length args)) 1024, argv_len_sum := 0\<rparr>, Go)
     else Some (c, RetErr))"
  using assms(4,6) by (intro read_multibulk_len_header [OF assms(1-3)]) (auto simp: resp_def sendable_def)

lemma read_bulk_len_resp:
  assumes c: "mid_ok env c" "bulklen c = - 1" "0 < multibulklen c" "\<not> authRequired env c"
    and u: "unread_bytes c @ fut = resp_bulk a @ w" and a: "int (length a) \<le> proto_max_bulk_len env" "int (length a) \<le> LLONG_MAX - 2"
  shows "if length (dec (length a)) + 3 \<le> length (unread_bytes c)
     then \<exists>c'. read_bulk_len env c = Some (c', Go) \<and> qframe c c' \<and> mid_ok env c' \<and> multibulklen c' = multibulklen c \<and>
       argv c' = argv c \<and> reqtype c' = reqtype c \<and> bulklen c' = int (length a) \<and> unread_bytes c' @ fut = a @ CRLF @ w
     else read_bulk_len env c = Some (c, Break)"
proof -
  let ?u = "unread_bytes c" and ?n = "length a"
  have q: "qb_pos c \<le> length (querybuf c)" using c(1) by (simp add: mid_ok_def)
  have n: "int ?n \<le> LLONG_MAX" using a by simp
  have h: "?u @ fut = resp_header 36 ?n @ (a @ CRLF @ w)" using u by (simp add: resp_bulk_def)
  have s: "strchr 13 ?u = (if length (dec ?n) + 1 < length ?u then Some (length (dec ?n) + 1) else None)"
    using header_scan [OF h] by blast
  show ?thesis
  proof (cases "length (dec ?n) + 3 \<le> length ?u")
    case True
    note w = header_whole [OF h True]
    define c1 where "c1 = c\<lparr>qb_pos := qb_pos c + (length (dec ?n) + 1) + 2\<rparr>"
    define c2 where "c2 = (if \<not> CLIENT_MASTER c1 \<and> int ?n \<ge> PROTO_MBULK_BIG_ARG \<and> int (length (querybuf c1)) - int (qb_pos c1) \<le> int ?n + 2
                             then c1\<lparr>querybuf := drop (qb_pos c1) (querybuf c1), qb_pos := 0\<rparr> else c1)"
    have r: "read_bulk_len env c = Some (c2\<lparr>bulklen := int ?n\<rparr>, Go)"
      using True s w q a c(4) string2ll_dec [OF n] by (simp add: read_bulk_len_def unread_some Let_def c1_def c2_def)
    have f: "qframe c c2" "multibulklen c2 = multibulklen c" "argv c2 = argv c" "reqtype c2 = reqtype c" "argv_len c2 = argv_len c"
      "unread_bytes c2 = drop (length (dec ?n) + 3) ?u"
      by (simp_all add: c1_def c2_def qframe_def add.commute numeral_3_eq_3)
    have "mid_ok env c1" using c(1) True q by (simp add: c1_def mid_ok_def)
    then have "mid_ok env c2" by (simp add: c2_def mid_ok_def)
    moreover have "\<not> authRequired env c2" using f(1) c(4) pframe_auth [of c c2] by (simp add: qframe_def)
    ultimately have "mid_ok env (c2\<lparr>bulklen := int ?n\<rparr>)" using c(3) f(2) a by (simp add: mid_ok_def)
    moreover have "qframe c (c2\<lparr>bulklen := int ?n\<rparr>)" using f(1) by (simp add: qframe_def)
    ultimately show ?thesis using r f w(3) True by simp
  next
    case False
    then show ?thesis using s q length_dec_bound [OF n]
      by (auto simp: read_bulk_len_def unread_some PROTO_INLINE_MAX_SIZE_def)
  qed
qed

lemma read_bulk_frame:
  assumes "read_bulk c = Some c'"
  shows "CLIENT_CLOSE_AFTER_REPLY c' = CLIENT_CLOSE_AFTER_REPLY c \<and> error_replies c' = error_replies c \<and> (CLIENT_MASTER c \<longrightarrow> querybuf c' = querybuf c)"
  using assms by (auto simp: read_bulk_def Let_def unread_def split: if_splits)

text \<open>How far a client is inside the command \<open>args\<close>, which the bytes \<open>w\<close> follow.\<close>

definition at_arg :: "client \<Rightarrow> buffer list \<Rightarrow> nat \<Rightarrow> buffer \<Rightarrow> buffer \<Rightarrow> bool" where
  "at_arg c args k fut w \<longleftrightarrow> k \<le> length args \<and> argv c = take k args \<and> multibulklen c = int (length args - k) \<and>
     (bulklen c = - 1 \<and> unread_bytes c @ fut = resp_bulks (drop k args) @ w \<or>
      k < length args \<and> bulklen c = int (length (args ! k)) \<and> unread_bytes c @ fut = (args ! k @ CRLF) @ resp_bulks (drop (Suc k) args) @ w)"

lemma split_bytes:
  assumes "u @ fut = x @ w" "length x \<le> length u"
  shows "take (length x) u = x" "drop (length x) u @ fut = w"
proof -
  have "u = x @ drop (length x) u" using assms by (metis append_eq_append_conv_if append_take_drop_id)
  then obtain u' where "u = x @ u'" by blast
  then show "take (length x) u = x" "drop (length x) u @ fut = w" using assms(1) by simp_all
qed

lemma waiting:
  assumes "u @ fut = x @ w" "length u < length x"
  shows "length w < length fut"
  using arg_cong [OF assms(1), of length] assms(2) by simp

lemma at_arg_bulk:
  assumes c: "mid_ok env c" "\<not> authRequired env c" and a: "sendable env args" and k: "at_arg c args k fut w" "k < length args" "bulklen c \<noteq> - 1"
  shows "if bulklen c + 2 \<le> int (length (unread_bytes c))
     then \<exists>c'. read_bulk c = Some c' \<and> qframe c c' \<and> mid_ok env c' \<and> reqtype c' = reqtype c \<and> at_arg c' args (Suc k) fut w \<and> bulklen c' = - 1
     else length w < length fut"
proof -
  let ?x = "args ! k @ CRLF"
  have b: "bulklen c = int (length (args ! k))" "unread_bytes c @ fut = ?x @ resp_bulks (drop (Suc k) args) @ w" "multibulklen c = int (length args - k)"
    "argv c = take k args" "0 < multibulklen c"
    using k by (auto simp: at_arg_def)
  have l: "bulklen c + 2 = int (length ?x)" using b(1) by (simp add: CRLF_def)
  show ?thesis
  proof (cases "length ?x \<le> length (unread_bytes c)")
    case True
    note s = split_bytes [OF b(2) True]
    have le: "bulklen c + 2 \<le> int (length (unread_bytes c))" "0 \<le> bulklen c" using l True b(1) by simp_all
    obtain c' where r: "read_bulk c = Some c'" "pframe c c'" "reqtype c' = reqtype c" "mid_ok env c'" "multibulklen c' = multibulklen c - 1"
      "argv c' = argv c @ [take (nat (bulklen c)) (unread_bytes c)]" "bulklen c' = - 1" "unread_bytes c' = drop (nat (bulklen c + 2)) (unread_bytes c)"
      using read_bulk_total [OF c(1) b(5) le(2,1)] by (elim exE conjE) (rule that)
    have "take (length (args ! k)) (take (length ?x) (unread_bytes c)) = args ! k" by (simp only: s(1)) simp
    then have "argv c' = take (Suc k) args" using r(6) b(1,4) k(2) by (simp add: take_Suc_conv_app_nth CRLF_def min_def)
    moreover have "unread_bytes c' @ fut = resp_bulks (drop (Suc k) args) @ w"
      using r(8) s(2) unfolding l nat_int by simp
    moreover have "multibulklen c' = int (length args - Suc k)" using r(5) b(3) k(2) by simp
    ultimately have "at_arg c' args (Suc k) fut w" using r(7) k(2) by (simp add: at_arg_def)
    then show ?thesis using r le read_bulk_frame [OF r(1)] by (auto simp: qframe_def)
  next
    case False
    then have "length (resp_bulks (drop (Suc k) args) @ w) < length fut" using waiting [OF b(2)] by simp
    then show ?thesis using False l by simp
  qed
qed

lemma at_arg_len:
  assumes c: "mid_ok env c" "\<not> authRequired env c" and a: "sendable env args" and k: "at_arg c args k fut w" "k < length args" "bulklen c = - 1"
  shows "(\<exists>c'. read_bulk_len env c = Some (c', Go) \<and> qframe c c' \<and> mid_ok env c' \<and> reqtype c' = reqtype c \<and> at_arg c' args k fut w \<and> bulklen c' \<noteq> - 1) \<or>
     read_bulk_len env c = Some (c, Break) \<and> length w < length fut"
proof -
  let ?a = "args ! k"
  have "drop k args = ?a # drop (Suc k) args" using k(2) by (simp add: Cons_nth_drop_Suc)
  then have u: "unread_bytes c @ fut = resp_bulk ?a @ (resp_bulks (drop (Suc k) args) @ w)" and p: "0 < multibulklen c"
    using k by (auto simp: at_arg_def)
  have sz: "int (length ?a) \<le> proto_max_bulk_len env" "int (length ?a) \<le> LLONG_MAX - 2" using a k(2) by (simp_all add: sendable_def)
  note r = read_bulk_len_resp [OF c(1) k(3) p c(2) u sz]
  show ?thesis
  proof (cases "length (dec (length ?a)) + 3 \<le> length (unread_bytes c)")
    case True
    then obtain c' where "read_bulk_len env c = Some (c', Go)" "qframe c c'" "mid_ok env c'" "multibulklen c' = multibulklen c"
       "argv c' = argv c" "reqtype c' = reqtype c" "bulklen c' = int (length ?a)" "unread_bytes c' @ fut = ?a @ CRLF @ resp_bulks (drop (Suc k) args) @ w"
      using r by (simp only: if_True) (elim exE conjE, rule that)
    then show ?thesis using k by (auto simp: at_arg_def)
  next
    case False
    then have "length (unread_bytes c) < length (resp_bulk ?a)" by (simp add: resp_bulk_def length_header)
    then have "length (resp_bulks (drop (Suc k) args) @ w) < length fut" by (rule waiting [OF u])
    then show ?thesis using r False by simp
  qed
qed

lemma multibulk_loop_resp:
  assumes a: "sendable env args"
  shows "mid_ok env c \<Longrightarrow> \<not> authRequired env c \<Longrightarrow> at_arg c args k fut w \<Longrightarrow>
    \<exists>c' k' ok. multibulk_loop env c = Some (c', ok) \<and> qframe c c' \<and> mid_ok env c' \<and> reqtype c' = reqtype c \<and> at_arg c' args k' fut w \<and>
      ok = (k' = length args) \<and> (\<not> ok \<longrightarrow> length w < length fut)"
proof (induction "length args - k" arbitrary: c k)
  case 0
  then have "k = length args" "multibulklen c = 0" by (auto simp: at_arg_def)
  then show ?case using 0 by (subst multibulk_loop.simps) auto
next
  case (Suc n)
  note k = Suc.prems(3)
  have kl: "k < length args" "multibulklen c \<noteq> 0" using Suc.hyps(2) k by (auto simp: at_arg_def)
  have pos: "multibulklen d \<noteq> 0" if "at_arg d args k fut w" for d using that kl by (auto simp: at_arg_def)
  consider (go) c1 where "(if bulklen c = - 1 then read_bulk_len env c else Some (c, Go)) = Some (c1, Go)" "qframe c c1" "mid_ok env c1"
      "reqtype c1 = reqtype c" "at_arg c1 args k fut w" "bulklen c1 \<noteq> - 1"
    | (wait) "(if bulklen c = - 1 then read_bulk_len env c else Some (c, Go)) = Some (c, Break)" "length w < length fut"
    using at_arg_len [OF Suc.prems(1,2) a k kl(1)] Suc.prems by (cases "bulklen c = - 1") auto
  then show ?case
  proof cases
    case wait
    then have "multibulk_loop env c = Some (c, False)" using kl(2) by (subst multibulk_loop.simps) simp
    then show ?thesis using Suc.prems wait kl(1) by (intro exI [of _ c] exI [of _ k] exI [of _ False]) simp
  next
    case go
    have na: "\<not> authRequired env c1" using Suc.prems(2) go(2) pframe_auth [of c c1] by (simp add: qframe_def)
    have b: "bulklen c1 + 2 \<le> LLONG_MAX" "qb_pos c1 \<le> length (querybuf c1)" using go(3) by (simp_all add: mid_ok_def)
    note r = at_arg_bulk [OF go(3) na a go(5) kl(1) go(6)]
    show ?thesis
    proof (cases "bulklen c1 + 2 \<le> int (length (unread_bytes c1))")
      case True
      then obtain c2 where x: "read_bulk c1 = Some c2" "qframe c1 c2" "mid_ok env c2" "reqtype c2 = reqtype c1" "at_arg c2 args (Suc k) fut w"
        using r by (simp only: if_True) (elim exE conjE, rule that)
      have na2: "\<not> authRequired env c2" using na x(2) pframe_auth [of c1 c2] by (simp add: qframe_def)
      have n: "n = length args - Suc k" using Suc.hyps(2) by simp
      obtain c3 k' ok where m: "multibulk_loop env c2 = Some (c3, ok)" "qframe c2 c3" "mid_ok env c3" "reqtype c3 = reqtype c2"
        "at_arg c3 args k' fut w" "ok = (k' = length args)" "\<not> ok \<longrightarrow> length w < length fut"
        using Suc.hyps(1) [OF n x(3) na2 x(5)] by (elim exE conjE) (rule that)
      have "multibulk_loop env c = multibulk_loop env c2"
        using True b x(1) kl(2) by (subst multibulk_loop.simps) (simp add: go(1))
      then show ?thesis using m x(4) go(4) qframe_trans [OF go(2) qframe_trans [OF x(2) m(2)]]
        by (intro exI [of _ c3] exI [of _ k'] exI [of _ ok]) simp
    next
      case False
      then have "multibulk_loop env c = Some (c1, False)"
        using b kl(2) pos [OF go(5)] by (subst multibulk_loop.simps) (simp add: go(1))
      then show ?thesis using go r False kl(1) by (intro exI [of _ c1] exI [of _ k] exI [of _ False]) simp
    qed
  qed
qed

section \<open>Streams of requests\<close>

definition resps :: "buffer list list \<Rightarrow> buffer" where
  "resps cmds = concat (map resp cmds)"

lemma resps_simps [simp]: "resps [] = []" "resps (a # cmds) = resp a @ resps cmds" "resps (xs @ ys) = resps xs @ resps ys"
  by (simp_all add: resps_def)

text \<open>The replication bookkeeping of a master: \<open>pend\<close> are the bytes of the commands of a transaction that were run but not
  passed on yet, and the bytes of \<open>todo\<close> follow them.\<close>

definition repl_ok :: "client \<Rightarrow> buffer \<Rightarrow> buffer list list \<Rightarrow> buffer \<Rightarrow> bool" where
  "repl_ok c pend todo fut \<longleftrightarrow> (CLIENT_MASTER c \<longrightarrow> repl_applied c \<le> qb_pos c \<and> drop (repl_applied c) (querybuf c) @ fut = pend @ resps todo \<and>
     read_reploff c = reploff c + int (length (querybuf c)) - int (repl_applied c))"

definition calm :: "proto_env \<Rightarrow> client \<Rightarrow> bool" where
  "calm env c \<longleftrightarrow> \<not> CLIENT_BLOCKED c \<and> \<not> CLIENT_PENDING_COMMAND c \<and> \<not> CLIENT_CLOSE_AFTER_REPLY c \<and> \<not> CLIENT_CLOSE_ASAP c \<and>
     \<not> authRequired env c"

text \<open>The commands \<open>todo\<close> are still to be run, the bytes \<open>fut\<close> still to come.\<close>

definition streaming :: "proto_env \<Rightarrow> client \<Rightarrow> buffer \<Rightarrow> buffer list list \<Rightarrow> buffer \<Rightarrow> bool" where
  "streaming env c pend todo fut \<longleftrightarrow> calm env c \<and> qb_pos c \<le> length (querybuf c) \<and> reqtype c \<noteq> PROTO_REQ_INLINE \<and> repl_ok c pend todo fut \<and>
     (if multibulklen c = 0 then argv c = [] \<and> bulklen c = - 1 \<and> unread_bytes c @ fut = resps todo
      else reqtype c = PROTO_REQ_MULTIBULK \<and> mid_ok env c \<and>
        (\<exists>args rest k. todo = args # rest \<and> k < length args \<and> at_arg c args k fut (resps rest)))"

text \<open>The first command to be run has not arrived completely.\<close>

definition incomplete :: "buffer list list \<Rightarrow> buffer \<Rightarrow> bool" where
  "incomplete todo fut = (case todo of [] \<Rightarrow> fut = [] | _ # rest \<Rightarrow> length (resps rest) < length fut)"

lemma calm_frame: "calm env c \<Longrightarrow> qframe c c' \<Longrightarrow> calm env c'"
  by (auto simp: calm_def qframe_def pframe_def authRequired_def)

lemma resp_start: "resp args = 42 # (dec (length args) @ CRLF @ resp_bulks args)"
  by (simp add: resp_def resp_header_def)

lemma resp_bulks_append: "resp_bulks (xs @ ys) = resp_bulks xs @ resp_bulks ys"
  by (simp add: resp_bulks_def)

lemma at_arg_shorter:
  assumes "at_arg c args k fut w"
  shows "length (unread_bytes c) + length fut \<le> length (resp args) + length w"
proof -
  have "resp_bulks args = resp_bulks (take k args) @ resp_bulks (drop k args)" by (simp add: resp_bulks_append [symmetric])
  then have e: "length (resp_bulks (drop k args)) \<le> length (resp args)" by (simp add: resp_def)
  consider "unread_bytes c @ fut = resp_bulks (drop k args) @ w"
    | "k < length args" "unread_bytes c @ fut = (args ! k @ CRLF) @ resp_bulks (drop (Suc k) args) @ w"
    using assms by (auto simp: at_arg_def)
  then show ?thesis
  proof cases
    case 1
    show ?thesis using arg_cong [OF 1, of length] e by simp
  next
    case 2
    show ?thesis using arg_cong [OF 2(2), of length] e 2(1) by (simp add: Cons_nth_drop_Suc [symmetric] resp_bulk_def)
  qed
qed

lemma repl_ok_frame:
  assumes "repl_ok c pend (args # rest) fut" "qframe c c'" "qb_pos c' \<le> length (querybuf c')" and l: "qb_pos c \<le> length (querybuf c)"
    and "length (unread_bytes c') + length fut \<le> length (resp args) + length (resps rest)"
  shows "repl_ok c' pend (args # rest) fut"
proof -
  have "repl_applied c \<le> qb_pos c'" if m: "CLIENT_MASTER c"
  proof -
    have q: "repl_applied c \<le> length (querybuf c)" "querybuf c' = querybuf c" "drop (repl_applied c) (querybuf c) @ fut = pend @ resp args @ resps rest"
      using assms(1,2) m l by (auto simp: repl_ok_def qframe_def)
    have "length (querybuf c) - repl_applied c + length fut = length pend + length (resp args) + length (resps rest)"
      using arg_cong [OF q(3), of length] by simp
    then show ?thesis using assms(3,5) q(1,2) by simp
  qed
  then show ?thesis using assms(1,2) by (auto simp: repl_ok_def qframe_def pframe_def)
qed

text \<open>One request: either it is there and gives its arguments, or the parser waits for the rest of it.\<close>

lemma multibulk_loop_streaming:
  assumes s: "streaming env c pend (args # rest) fut" and a: "sendable env args"
    and p: "mid_ok env d" "at_arg d args k fut (resps rest)" "qframe c d" "reqtype d = PROTO_REQ_MULTIBULK"
  shows "\<exists>c' ok. multibulk_loop env d = Some (c', ok) \<and> qframe c c' \<and> qb_pos c' \<le> length (querybuf c') \<and> repl_ok c' pend (args # rest) fut \<and>
    (if ok then argv c' = args \<and> unread_bytes c' @ fut = resps rest
     else streaming env c' pend (args # rest) fut \<and> length (resps rest) < length fut)"
proof -
  let ?w = "resps rest"
  have na: "\<not> authRequired env d" using p(3) s pframe_auth [of c d] by (simp add: qframe_def streaming_def calm_def)
  obtain c' k' ok where m: "multibulk_loop env d = Some (c', ok)" "qframe d c'" "mid_ok env c'" "reqtype c' = reqtype d"
    "at_arg c' args k' fut ?w" "ok = (k' = length args)" "\<not> ok \<longrightarrow> length ?w < length fut"
    using multibulk_loop_resp [OF a p(1) na p(2)] by (elim exE conjE) (rule that)
  note f = qframe_trans [OF p(3) m(2)]
  have q: "qb_pos c' \<le> length (querybuf c')" using m(3) by (simp add: mid_ok_def)
  have rep: "repl_ok c' pend (args # rest) fut"
    using s by (intro repl_ok_frame [OF _ f q _ at_arg_shorter [OF m(5)]]) (simp_all add: streaming_def)
  have cm: "calm env c'" using s calm_frame [OF _ f] by (simp add: streaming_def)
  have "argv c' = args \<and> unread_bytes c' @ fut = ?w" if "ok" using that m(5,6) by (auto simp: at_arg_def)
  moreover have "streaming env c' pend (args # rest) fut" if nok: "\<not> ok"
  proof -
    have k: "k' < length args" "multibulklen c' \<noteq> 0" using nok m(5,6) by (auto simp: at_arg_def)
    then show ?thesis using q rep cm m(3,4,5) p(4) by (auto simp: streaming_def)
  qed
  ultimately show ?thesis using m(1,7) f q rep by (intro exI [of _ c'] exI [of _ ok]) simp
qed

lemma processMultibulkBuffer_resp:
  assumes s: "streaming env c pend (args # rest) fut" "reqtype c = PROTO_REQ_MULTIBULK" "unread_bytes c \<noteq> []" and a: "sendable env args"
  shows "\<exists>c' ok. processMultibulkBuffer env c = Some (c', ok) \<and> qframe c c' \<and> qb_pos c' \<le> length (querybuf c') \<and> repl_ok c' pend (args # rest) fut \<and>
    (if ok then argv c' = args \<and> unread_bytes c' @ fut = resps rest
     else streaming env c' pend (args # rest) fut \<and> length (resps rest) < length fut)"
proof (cases "multibulklen c = 0")
  case False
  then obtain k where "mid_ok env c" "at_arg c args k fut (resps rest)" "0 < multibulklen c" using s by (auto simp: streaming_def mid_ok_def)
  then show ?thesis using multibulk_loop_streaming [OF s(1) a, of c k] s(2) by (simp add: processMultibulkBuffer_def)
next
  case True
  let ?n = "length (dec (length args)) + 3"
  have i: "qb_pos c \<le> length (querybuf c)" "argv c = []" "bulklen c = - 1" "unread_bytes c @ fut = resp args @ resps rest" "\<not> authRequired env c"
    "repl_ok c pend (args # rest) fut"
    using s(1) True by (auto simp: streaming_def calm_def)
  note r = read_multibulk_len_resp [OF i(1,2,5,4) s(3) a]
  show ?thesis
  proof (cases "?n \<le> length (unread_bytes c)")
    case whole: True
    let ?d = "c\<lparr>qb_pos := qb_pos c + ?n, multibulklen := int (length args), argv_len := min (int (length args)) 1024, argv_len_sum := 0\<rparr>"
    have h: "unread_bytes c @ fut = resp_header 42 (length args) @ (resp_bulks args @ resps rest)" using i(4) by (simp add: resp_def)
    have n: "0 < length args" "int (length args) \<le> INT_MAX" using a by (auto simp: sendable_def)
    have "at_arg ?d args 0 fut (resps rest)" using i header_whole(3) [OF h whole] by (simp add: at_arg_def add.commute)
    moreover have "qb_pos c + ?n \<le> length (querybuf c)" using whole i(1) by simp
    then have "mid_ok env ?d" using i n by (simp add: mid_ok_def Suc_le_eq)
    moreover have "qframe c ?d" by (simp add: qframe_def)
    ultimately show ?thesis using multibulk_loop_streaming [OF s(1) a, of ?d 0] s(2) r whole True n
      by (simp add: processMultibulkBuffer_def)
  next
    case False
    then have "length (unread_bytes c) < length (resp args)" by (simp add: resp_def length_header)
    then have "length (resps rest) < length fut" by (rule waiting [OF i(4)])
    then show ?thesis using r False True s(1) i by (intro exI [of _ c] exI [of _ False]) (simp add: processMultibulkBuffer_def)
  qed
qed

text \<open>What is asked of \<open>processCommand\<close> here, for the commands that are sent: it runs the arguments on the state of the server
  and may open or close a transaction (\<open>multi\<close>), but leaves the query buffer and the replication offsets alone, and
  the client able to go on: neither blocked nor closed, and authenticated.\<close>

definition runs :: "proto_env \<Rightarrow> buffer list list \<Rightarrow> (buffer list \<Rightarrow> 's \<Rightarrow> 's) \<Rightarrow> (buffer list \<Rightarrow> 's \<Rightarrow> bool \<Rightarrow> bool) \<Rightarrow>
    (client \<Rightarrow> 's \<Rightarrow> cmd_result \<times> 's) \<Rightarrow> bool" where
  "runs env cmds exec multi processCommand \<longleftrightarrow> (\<forall>c s. argv c \<in> set cmds \<and> calm env c \<longrightarrow>
     (\<exists>c'. processCommand c s = (C_OK c', exec (argv c) s) \<and> CLIENT_MULTI c' = multi (argv c) s (CLIENT_MULTI c) \<and> calm env c' \<and>
        querybuf c' = querybuf c \<and> qb_pos c' = qb_pos c \<and> CLIENT_MASTER c' = CLIENT_MASTER c \<and> reploff c' = reploff c \<and>
        read_reploff c' = read_reploff c \<and> repl_applied c' = repl_applied c))"

text \<open>The effect of a command on the server, on whether the client is inside a transaction, and on the bytes held back. Of a
  master, the bytes of a command are passed on to the replicas after it, those of a transaction when it is closed.\<close>

definition effect ::
  "bool \<Rightarrow> (buffer list \<Rightarrow> 's \<Rightarrow> 's) \<Rightarrow> (buffer list \<Rightarrow> 's \<Rightarrow> bool \<Rightarrow> bool) \<Rightarrow> (buffer \<Rightarrow> 's \<Rightarrow> 's) \<Rightarrow> buffer list \<Rightarrow>
     's \<times> bool \<times> buffer \<Rightarrow> 's \<times> bool \<times> buffer" where
  "effect master exec multi feed args x =
     (case x of (s, m, pend) \<Rightarrow>
        (let s' = exec args s; m' = multi args s m
         in if \<not> master then (s', m', pend)
            else if m' then (s', m', pend @ resp args)
            else (feed (pend @ resp args) s', m', [])))"

lemma processed_plain:
  assumes d: "proc c s = (C_OK d, s')" "\<not> CLIENT_BLOCKED d" "\<not> CLIENT_MASTER d \<or> CLIENT_MULTI d"
  shows "processCommandAndResetClient proc feed c s = Some (Some (resetClient d), s')"
  using assms by (auto simp: processCommandAndResetClient_def commandProcessed_def Let_def)

lemma processed_fed:
  assumes d: "proc c s = (C_OK d, s')" "\<not> CLIENT_BLOCKED d" "CLIENT_MASTER d" "\<not> CLIENT_MULTI d"
    and q: "qb_pos d \<le> length (querybuf d)" "repl_applied d \<le> qb_pos d"
      "read_reploff d = reploff d + int (length (querybuf d)) - int (repl_applied d)"
      "take (qb_pos d - repl_applied d) (drop (repl_applied d) (querybuf d)) = bytes" "bytes \<noteq> []"
  shows "processCommandAndResetClient proc feed c s =
    Some (Some ((resetClient d)\<lparr>reploff := reploff d + int (length bytes), repl_applied := qb_pos d\<rparr>), feed bytes s')"
proof -
  have n: "qb_pos d = repl_applied d + length bytes" "bytes = take (length bytes) (drop (repl_applied d) (querybuf d))" using q by auto
  then have p: "peek (querybuf d) (int (repl_applied d)) (length bytes) = Some bytes" using q(1) by (simp add: peek_def)
  show ?thesis using d p q(5) unfolding processCommandAndResetClient_def commandProcessed_def Let_def
    by (simp add: q(3) n(1))
qed

lemma processed_resp:
  assumes p: "runs env cmds exec multi proc" "args \<in> set cmds"
    and c: "qb_pos c \<le> length (querybuf c)" "argv c = args" "unread_bytes c @ fut = resps rest" "repl_ok c pend (args # rest) fut" "calm env c"
    and e: "effect (CLIENT_MASTER c) exec multi feed args (s, CLIENT_MULTI c, pend) = (s1, m1, pend1)"
  shows "\<exists>c'. processCommandAndResetClient proc feed c s = Some (Some c', s1) \<and> streaming env c' pend1 rest fut \<and>
    CLIENT_MASTER c' = CLIENT_MASTER c \<and> CLIENT_MULTI c' = m1"
proof -
  obtain d where d: "proc c s = (C_OK d, exec args s)" "CLIENT_MULTI d = multi args s (CLIENT_MULTI c)" "calm env d"
    "querybuf d = querybuf c" "qb_pos d = qb_pos c" "CLIENT_MASTER d = CLIENT_MASTER c" "reploff d = reploff c"
    "read_reploff d = read_reploff c" "repl_applied d = repl_applied c"
    using p c(2,5) unfolding runs_def by metis
  let ?r = "resetClient d"
  have cr: "calm env ?r" using d(3) by (simp add: calm_def authRequired_def)
  have nb: "\<not> CLIENT_BLOCKED d" using d(3) by (simp add: calm_def)
  show ?thesis
  proof (cases "CLIENT_MASTER c \<and> \<not> CLIENT_MULTI d")
    case False
    have st: "streaming env ?r pend1 rest fut"
      using cr c(1,3,4) d False e by (auto simp: streaming_def repl_ok_def effect_def Let_def split: if_splits)
    have "s1 = exec args s" "m1 = CLIENT_MULTI d" using e d(2) False d(6) by (auto simp: effect_def Let_def split: if_splits)
    then show ?thesis using processed_plain [of proc c s d "exec args s", OF d(1) nb] False d(6) st by auto
  next
    case True
    have m: "repl_applied c \<le> qb_pos c" "drop (repl_applied c) (querybuf c) @ fut = pend @ resp args @ resps rest"
      "read_reploff c = reploff c + int (length (querybuf c)) - int (repl_applied c)"
      using c(4) True by (simp_all add: repl_ok_def)
    let ?n = "qb_pos c - repl_applied c"
    have "drop (repl_applied c) (querybuf c) = take ?n (drop (repl_applied c) (querybuf c)) @ unread_bytes c"
      using m(1) append_take_drop_id [of ?n "drop (repl_applied c) (querybuf c)"] by simp
    then have fed: "take ?n (drop (repl_applied c) (querybuf c)) = pend @ resp args" using m(2) c(3) by (metis append.assoc append_same_eq)
    have x: "s1 = feed (pend @ resp args) (exec args s)" "m1 = CLIENT_MULTI d" "pend1 = []"
      using e True d(2) by (auto simp: effect_def Let_def)
    let ?c = "?r\<lparr>reploff := reploff d + int (length (pend @ resp args)), repl_applied := qb_pos d\<rparr>"
    have "processCommandAndResetClient proc feed c s = Some (Some ?c, s1)"
      unfolding x(1) by (rule processed_fed [of proc c s d "exec args s", OF d(1) nb]) (use True d c(1) m fed in \<open>simp_all add: resp_start\<close>)
    moreover have "length (pend @ resp args) = ?n" using arg_cong [OF fed, of length] c(1) by simp
    then have "streaming env ?c pend1 rest fut"
      using cr c(1,3) d m x(3) by (simp add: streaming_def repl_ok_def calm_def authRequired_def)
    ultimately show ?thesis using d(6) x(2) by auto
  qed
qed

lemma streaming_empty: "streaming env c pend todo fut \<Longrightarrow> unread_bytes c = [] \<Longrightarrow> incomplete todo fut"
proof -
  assume s: "streaming env c pend todo fut" and u: "unread_bytes c = []"
  show ?thesis
  proof (cases "multibulklen c = 0")
    case True
    then have "fut = resps todo" using s u by (simp add: streaming_def)
    then show ?thesis by (cases todo) (simp_all add: incomplete_def resp_start)
  next
    case False
    then obtain args rest k where k: "todo = args # rest" "k < length args" "at_arg c args k fut (resps rest)" using s by (auto simp: streaming_def)
    have "length (resps rest) < length fut"
      using k(2,3) u by (auto simp: at_arg_def Cons_nth_drop_Suc [symmetric] resp_bulk_def CRLF_def)
    then show ?thesis using k(1) by (simp add: incomplete_def)
  qed
qed

lemma streaming_cmd: "streaming env c pend todo fut \<Longrightarrow> unread_bytes c \<noteq> [] \<Longrightarrow> \<exists>args rest. todo = args # rest"
  by (cases todo) (auto simp: streaming_def split: if_splits)

lemma streaming_reqtype:
  assumes "streaming env c pend (args # rest) fut" "unread_bytes c \<noteq> []" "reqtype c = REQ_UNKNOWN"
  shows "querybuf c ! qb_pos c = 42"
proof -
  have "unread_bytes c @ fut = resp args @ resps rest" "qb_pos c < length (querybuf c)"
    using assms by (auto simp: streaming_def split: if_splits)
  then have "hd (unread_bytes c) = 42" using assms(2) by (metis hd_append2 resp_start append_Cons list.sel(1))
  then show ?thesis using \<open>qb_pos c < _\<close> by (simp add: hd_drop_conv_nth)
qed

text \<open>A prefix of the commands was run, with the effect that the state and the client show; the next one is not complete.\<close>

definition ran_prefix ::
  "proto_env \<Rightarrow> ('s \<times> bool \<times> buffer \<Rightarrow> buffer list \<Rightarrow> 's \<times> bool \<times> buffer) \<Rightarrow> buffer list list \<Rightarrow> buffer \<Rightarrow> 's \<times> bool \<times> buffer \<Rightarrow>
     bool \<Rightarrow> buffer list list \<Rightarrow> client \<Rightarrow> 's \<Rightarrow> bool" where
  "ran_prefix env step todo fut x master left c s \<longleftrightarrow>
     (\<exists>ran pend. todo = ran @ left \<and> foldl step x ran = (s, CLIENT_MULTI c, pend) \<and> streaming env c pend left fut \<and>
        incomplete left fut \<and> CLIENT_MASTER c = master)"

lemma ran_none:
  "streaming env c pend todo fut \<Longrightarrow> incomplete todo fut \<Longrightarrow> ran_prefix env step todo fut (s, CLIENT_MULTI c, pend) (CLIENT_MASTER c) todo c s"
  by (auto simp: ran_prefix_def)

lemma ran_more:
  "ran_prefix env step rest fut (step x args) master left c s \<Longrightarrow> ran_prefix env step (args # rest) fut x master left c s"
  unfolding ran_prefix_def by (metis append_Cons foldl_Cons)

lemma input_loop_resp:
  assumes e: "io_threads_op env = IO_THREADS_OP_IDLE" "\<not> insideYieldingLongCommand env" and p: "runs env cmds exec multi proc"
  shows "streaming env c pend todo fut \<Longrightarrow> \<forall>args \<in> set todo. sendable env args \<and> args \<in> set cmds \<Longrightarrow>
    \<exists>c' s' left. input_loop env proc feed c s = Some (Some c', s') \<and>
      ran_prefix env (\<lambda>x args. effect (CLIENT_MASTER c) exec multi feed args x) todo fut (s, CLIENT_MULTI c, pend) (CLIENT_MASTER c) left c' s'"
proof (induction todo arbitrary: c s pend)
  case Nil
  then have "unread_bytes c = []" by (auto simp: streaming_def split: if_splits)
  then have "input_loop env proc feed c s = Some (Some c, s)" by (subst input_loop.simps) simp
  then show ?case using Nil(1) streaming_empty [OF Nil(1) \<open>unread_bytes c = []\<close>]
    by (intro exI [of _ c] exI [of _ s] exI [of _ "[]"] conjI ran_none)
next
  case (Cons args rest)
  note s = Cons.prems(1)
  show ?case
  proof (cases "unread_bytes c = []")
    case True
    then have "input_loop env proc feed c s = Some (Some c, s)" by (subst input_loop.simps) simp
    then show ?thesis using s streaming_empty [OF s True]
      by (intro exI [of _ c] exI [of _ s] exI [of _ "args # rest"] conjI ran_none)
  next
    case False
    then have lt: "qb_pos c < length (querybuf c)" by simp
    define d where "d = (if reqtype c = REQ_UNKNOWN
       then c\<lparr>reqtype := if querybuf c ! qb_pos c = 42 then PROTO_REQ_MULTIBULK else PROTO_REQ_INLINE\<rparr> else c)"
    have rq: "reqtype d = PROTO_REQ_MULTIBULK"
      using s streaming_reqtype [OF s False] by (cases "reqtype c") (auto simp: d_def streaming_def)
    have "d = c\<lparr>reqtype := PROTO_REQ_MULTIBULK\<rparr>" using rq by (auto simp: d_def split: if_splits)
    then have sd: "streaming env d pend (args # rest) fut" "unread_bytes d \<noteq> []" "CLIENT_MASTER d = CLIENT_MASTER c" "CLIENT_MULTI d = CLIENT_MULTI c"
      using s False by (auto simp: streaming_def calm_def repl_ok_def at_arg_def mid_ok_def split: if_splits)
    obtain c1 ok where r: "processMultibulkBuffer env d = Some (c1, ok)" "qframe d c1" "qb_pos c1 \<le> length (querybuf c1)"
      "repl_ok c1 pend (args # rest) fut"
      "if ok then argv c1 = args \<and> unread_bytes c1 @ fut = resps rest
       else streaming env c1 pend (args # rest) fut \<and> length (resps rest) < length fut"
      using processMultibulkBuffer_resp [OF sd(1) rq sd(2)] Cons.prems(2) by auto
    have cm: "calm env c" "calm env c1" "CLIENT_MASTER c1 = CLIENT_MASTER c" "CLIENT_MULTI c1 = CLIENT_MULTI c"
      using s sd r(2) calm_frame [of env d c1] by (auto simp: streaming_def qframe_def pframe_def)
    have ne: "args \<noteq> []" "args \<in> set cmds" using Cons.prems(2) by (simp_all add: sendable_def)
    have loop: "input_loop env proc feed c s =
       (if \<not> ok then Some (Some c1, s) else if argc c1 = 0 then input_loop env proc feed (resetClient c1) s
        else do {
          (c, s) \<leftarrow> processCommandAndResetClient proc feed c1 s;
          case c of None \<Rightarrow> Some (None, s) | Some c \<Rightarrow> input_loop env proc feed c s
        })"
      using lt cm(1) e r(1) rq by (subst input_loop.simps) (simp add: calm_def d_def [symmetric] Let_def)
    show ?thesis
    proof (cases ok)
      case False
      then have "streaming env c1 pend (args # rest) fut" "incomplete (args # rest) fut" using r(5) by (simp_all add: incomplete_def)
      note ran_none [OF this, of "\<lambda>x args. effect (CLIENT_MASTER c) exec multi feed args x" s, unfolded cm(3,4)]
      then show ?thesis using loop False by simp blast
    next
      case True
      then have x: "argv c1 = args" "unread_bytes c1 @ fut = resps rest" using r(5) by simp_all
      obtain s1 m1 pend1 where y: "effect (CLIENT_MASTER c1) exec multi feed args (s, CLIENT_MULTI c1, pend) = (s1, m1, pend1)" by (metis surj_pair)
      obtain c2 where z: "processCommandAndResetClient proc feed c1 s = Some (Some c2, s1)" "streaming env c2 pend1 rest fut"
        "CLIENT_MASTER c2 = CLIENT_MASTER c" "CLIENT_MULTI c2 = m1"
        using processed_resp [OF p ne(2) r(3) x r(4) cm(2) y] cm(3) by auto
      have "\<forall>args \<in> set rest. sendable env args \<and> args \<in> set cmds" using Cons.prems(2) by simp
      from Cons.IH [OF z(2) this, of s1] obtain c' s' left where i: "input_loop env proc feed c2 s1 = Some (Some c', s')"
        "ran_prefix env (\<lambda>x args. effect (CLIENT_MASTER c) exec multi feed args x) rest fut (s1, m1, pend1) (CLIENT_MASTER c) left c' s'"
        unfolding z(3,4) by (elim exE conjE) (rule that)
      have "ran_prefix env (\<lambda>x args. effect (CLIENT_MASTER c) exec multi feed args x) (args # rest) fut (s, CLIENT_MULTI c, pend) (CLIENT_MASTER c) left c' s'"
        by (rule ran_more) (use i(2) y cm(3,4) in simp)
      then show ?thesis using loop True x(1) ne(1) z(1) i(1) by (intro exI [of _ c'] exI [of _ s'] exI [of _ left]) simp
    qed
  qed
qed

lemma streaming_trim: "streaming env c pend todo fut \<Longrightarrow> \<not> CLIENT_MASTER c \<Longrightarrow> streaming env (c\<lparr>querybuf := unread_bytes c, qb_pos := 0\<rparr>) pend todo fut"
  by (auto simp: streaming_def calm_def repl_ok_def at_arg_def mid_ok_def split: if_splits)

lemma streaming_trim_master:
  assumes "streaming env c pend todo fut" "CLIENT_MASTER c"
  shows "streaming env (c\<lparr>querybuf := drop (repl_applied c) (querybuf c), qb_pos := qb_pos c - repl_applied c, repl_applied := 0\<rparr>) pend todo fut"
proof -
  have q: "repl_applied c \<le> qb_pos c" "qb_pos c \<le> length (querybuf c)" using assms by (auto simp: streaming_def repl_ok_def)
  then have "drop (qb_pos c - repl_applied c) (drop (repl_applied c) (querybuf c)) = unread_bytes c"
    "qb_pos c - repl_applied c \<le> length (querybuf c) - repl_applied c" by simp_all
  then show ?thesis using assms q
    by (auto simp: streaming_def calm_def repl_ok_def at_arg_def mid_ok_def authRequired_def split: if_splits)
qed

lemma ran_trim:
  assumes "ran_prefix env step todo fut x master left d s"
  defines "c' \<equiv> (if CLIENT_MASTER d then (if repl_applied d \<noteq> 0
      then d\<lparr>querybuf := drop (repl_applied d) (querybuf d), qb_pos := qb_pos d - repl_applied d, repl_applied := 0\<rparr> else d)
    else if qb_pos d \<noteq> 0 then d\<lparr>querybuf := drop (qb_pos d) (querybuf d), qb_pos := 0\<rparr> else d)"
  shows "ran_prefix env step todo fut x master left c' s" "\<not> master \<longrightarrow> qb_pos c' = 0" "CLIENT_MASTER d \<longrightarrow> repl_applied d \<le> qb_pos d"
proof -
  obtain ran pend where r: "todo = ran @ left" "foldl step x ran = (s, CLIENT_MULTI d, pend)" "streaming env d pend left fut"
    "incomplete left fut" "CLIENT_MASTER d = master" using assms(1) unfolding ran_prefix_def by blast
  have "streaming env c' pend left fut" "CLIENT_MULTI c' = CLIENT_MULTI d" "CLIENT_MASTER c' = CLIENT_MASTER d"
    using r(3) streaming_trim [OF r(3)] streaming_trim_master [OF r(3)]
    by (cases "CLIENT_MASTER d"; cases "repl_applied d = 0"; cases "qb_pos d = 0"; simp add: c'_def)+
  then show "ran_prefix env step todo fut x master left c' s" using r unfolding ran_prefix_def
    by (intro exI [of _ ran] exI [of _ pend]) simp
  show "\<not> master \<longrightarrow> qb_pos c' = 0" using r(5) by (simp add: c'_def)
  show "CLIENT_MASTER d \<longrightarrow> repl_applied d \<le> qb_pos d" using r(3) by (simp add: streaming_def repl_ok_def)
qed

lemma processInputBuffer_resp:
  assumes e: "io_threads_op env = IO_THREADS_OP_IDLE" "\<not> insideYieldingLongCommand env" and p: "runs env cmds exec multi proc"
    and s: "streaming env c pend todo fut" "\<forall>args \<in> set todo. sendable env args \<and> args \<in> set cmds"
  shows "\<exists>c' s' left. processInputBuffer env proc feed c s = Some (Some c', s') \<and>
      ran_prefix env (\<lambda>x args. effect (CLIENT_MASTER c) exec multi feed args x) todo fut (s, CLIENT_MULTI c, pend) (CLIENT_MASTER c) left c' s' \<and>
      (\<not> CLIENT_MASTER c \<longrightarrow> qb_pos c' = 0)"
proof -
  obtain d s' left where l: "input_loop env proc feed c s = Some (Some d, s')"
    "ran_prefix env (\<lambda>x args. effect (CLIENT_MASTER c) exec multi feed args x) todo fut (s, CLIENT_MULTI c, pend) (CLIENT_MASTER c) left d s'"
    using input_loop_resp [OF e p s, of feed s] by (elim exE conjE) (rule that)
  note t = ran_trim [OF l(2)]
  show ?thesis using t(1,2)
    by (intro exI [of _ "if CLIENT_MASTER d then (if repl_applied d \<noteq> 0
      then d\<lparr>querybuf := drop (repl_applied d) (querybuf d), qb_pos := qb_pos d - repl_applied d, repl_applied := 0\<rparr> else d)
      else if qb_pos d \<noteq> 0 then d\<lparr>querybuf := drop (qb_pos d) (querybuf d), qb_pos := 0\<rparr> else d"] exI [of _ s'] exI [of _ left] conjI)
      (use l(1) t(3) in \<open>auto simp: processInputBuffer_def\<close>)
qed

lemma streaming_more:
  assumes "streaming env c pend todo (b @ fut)"
  shows "streaming env (if CLIENT_MASTER c then c\<lparr>querybuf := querybuf c @ b, read_reploff := read_reploff c + int (length b)\<rparr> else c\<lparr>querybuf := querybuf c @ b\<rparr>) pend todo fut"
  using assms by (auto simp: streaming_def calm_def repl_ok_def at_arg_def mid_ok_def authRequired_def split: if_splits)

lemma streaming_length: "streaming env c pend todo fut \<Longrightarrow> length (unread_bytes c) + length fut \<le> length (resps todo)"
proof (cases "multibulklen c = 0")
  case True
  assume "streaming env c pend todo fut"
  then have "unread_bytes c @ fut = resps todo" using True by (simp add: streaming_def)
  from arg_cong [OF this, of length] show ?thesis by simp
next
  case False
  assume "streaming env c pend todo fut"
  then obtain args rest k where "todo = args # rest" "at_arg c args k fut (resps rest)" using False by (auto simp: streaming_def)
  then show ?thesis using at_arg_shorter [of c args k fut "resps rest"] by simp
qed

lemma ran_then:
  assumes "ran_prefix env step todo fut x master left c s" "ran_prefix env step left fut' (s, CLIENT_MULTI c, pend) master left' c' s'"
    "\<And>ran. todo = ran @ left \<Longrightarrow> foldl step x ran = (s, CLIENT_MULTI c, pend)"
  shows "ran_prefix env step todo fut' x master left' c' s'"
proof -
  obtain ran where r: "todo = ran @ left" using assms(1) unfolding ran_prefix_def by blast
  obtain ran' pend' where r': "left = ran' @ left'" "foldl step (s, CLIENT_MULTI c, pend) ran' = (s', CLIENT_MULTI c', pend')"
    "streaming env c' pend' left' fut'" "incomplete left' fut'" "CLIENT_MASTER c' = master"
    using assms(2) unfolding ran_prefix_def by blast
  have "foldl step x (ran @ ran') = (s', CLIENT_MULTI c', pend')" using assms(3) [OF r] r'(2) by simp
  then show ?thesis using r r'(1,3-5) unfolding ran_prefix_def by (metis append.assoc)
qed

lemma reads_resp:
  assumes e: "io_threads_op env = IO_THREADS_OP_IDLE" "\<not> insideYieldingLongCommand env" and p: "runs env cmds exec multi proc"
  shows "streaming env c pend todo (concat bs @ fut) \<Longrightarrow> \<forall>args \<in> set todo. sendable env args \<and> args \<in> set cmds \<Longrightarrow>
    \<not> CLIENT_MASTER c \<longrightarrow> length (resps todo) \<le> maxlen \<Longrightarrow> incomplete todo (concat bs @ fut) \<Longrightarrow> \<not> CLIENT_MASTER c \<longrightarrow> qb_pos c = 0 \<Longrightarrow>
    \<exists>c' s' left. reads env maxlen proc feed bs c s = Some (Some c', s') \<and>
      ran_prefix env (\<lambda>x args. effect (CLIENT_MASTER c) exec multi feed args x) todo fut (s, CLIENT_MULTI c, pend) (CLIENT_MASTER c) left c' s'"
proof (induction bs arbitrary: c todo s pend)
  case Nil
  then have "streaming env c pend todo fut" "incomplete todo fut" by simp_all
  note ran_none [OF this]
  then show ?case by (intro exI [of _ c] exI [of _ s] exI [of _ todo]) simp
next
  case (Cons b bs)
  let ?c = "if CLIENT_MASTER c then c\<lparr>querybuf := querybuf c @ b, read_reploff := read_reploff c + int (length b)\<rparr> else c\<lparr>querybuf := querybuf c @ b\<rparr>"
  let ?step = "\<lambda>x args. effect (CLIENT_MASTER c) exec multi feed args x"
  have st: "streaming env ?c pend todo (concat bs @ fut)" using streaming_more [of env c pend todo b "concat bs @ fut"] Cons.prems(1) by simp
  have "length (querybuf c @ b) \<le> maxlen" if "\<not> CLIENT_MASTER c"
    using that streaming_length [OF Cons.prems(1)] Cons.prems(3,5) by simp
  then have rq: "readQuery env maxlen proc feed b c s = processInputBuffer env proc feed ?c s" by (auto simp: readQuery_def Let_def)
  have mm: "CLIENT_MASTER ?c = CLIENT_MASTER c" "CLIENT_MULTI ?c = CLIENT_MULTI c" by simp_all
  obtain c1 s1 left where r: "processInputBuffer env proc feed ?c s = Some (Some c1, s1)"
    "ran_prefix env ?step todo (concat bs @ fut) (s, CLIENT_MULTI c, pend) (CLIENT_MASTER c) left c1 s1" "\<not> CLIENT_MASTER c \<longrightarrow> qb_pos c1 = 0"
    using processInputBuffer_resp [OF e p st Cons.prems(2), of feed s, unfolded mm] by (elim exE conjE) (rule that)
  obtain ran pend1 where q: "todo = ran @ left" "foldl ?step (s, CLIENT_MULTI c, pend) ran = (s1, CLIENT_MULTI c1, pend1)"
    "streaming env c1 pend1 left (concat bs @ fut)" "incomplete left (concat bs @ fut)" "CLIENT_MASTER c1 = CLIENT_MASTER c"
    using r(2) unfolding ran_prefix_def by blast
  have h: "\<forall>args \<in> set left. sendable env args \<and> args \<in> set cmds" "\<not> CLIENT_MASTER c \<longrightarrow> length (resps left) \<le> maxlen"
    using Cons.prems(2,3) q(1) by auto
  obtain c2 s2 left' where i: "reads env maxlen proc feed bs c1 s1 = Some (Some c2, s2)"
    "ran_prefix env ?step left fut (s1, CLIENT_MULTI c1, pend1) (CLIENT_MASTER c) left' c2 s2"
    using Cons.IH [OF q(3) h(1) _ q(4), of s1, unfolded q(5), OF h(2) r(3)] by (elim exE conjE) (rule that)
  have "ran_prefix env ?step todo fut (s, CLIENT_MULTI c, pend) (CLIENT_MASTER c) left' c2 s2"
    by (rule ran_then [OF r(2) i(2)]) (use q(1,2) in simp)
  then show ?case using i(1) r(1) rq by (intro exI [of _ c2] exI [of _ s2] exI [of _ left']) simp
qed

text \<open>A client between two requests.\<close>

definition idle :: "proto_env \<Rightarrow> client \<Rightarrow> bool" where
  "idle env c \<longleftrightarrow> calm env c \<and> querybuf c = [] \<and> qb_pos c = 0 \<and> argv c = [] \<and> reqtype c = REQ_UNKNOWN \<and> multibulklen c = 0 \<and>
     bulklen c = - 1 \<and> repl_applied c = 0 \<and> read_reploff c = reploff c"

lemma idle_streaming: "idle env c \<Longrightarrow> streaming env c [] cmds (resps cmds)"
  by (simp add: idle_def streaming_def repl_ok_def)

text \<open>The stream of commands as \<open>catAppendOnlyGenericCommand\<close> writes it.\<close>

fun write_commands :: "buffer \<Rightarrow> buffer list list \<Rightarrow> buffer \<Rightarrow> buffer option" where
  "write_commands stack [] dst = Some dst"
| "write_commands stack (args # cmds) dst = do {
     dst \<leftarrow> catAppendOnlyGenericCommand stack dst args;
     write_commands stack cmds dst
   }"

lemma write_commands_spec:
  assumes "32 \<le> length stack"
  shows "\<forall>args \<in> set cmds. sendable env args \<Longrightarrow> write_commands stack cmds dst = Some (dst @ resps cmds)"
proof (induction cmds arbitrary: dst)
  case (Cons args cmds)
  have "\<forall>a \<in> set args. int (length a) \<le> LLONG_MAX" "int (length args) \<le> LLONG_MAX"
    using Cons.prems by (fastforce simp: sendable_def INT_MAX_def)+
  then show ?case using Cons catAppendOnlyGenericCommand_spec [OF assms, of args] by simp
qed simp

text \<open>C28: A sequence of commands written by \<open>catAppendOnlyGenericCommand\<close> and received over a connection, cut into reads in any
  way, is parsed back: after the reads \<open>bs\<close>, with the bytes \<open>fut\<close> still to come, exactly the commands whose bytes
  have all arrived have been run, once each and in order, with their arguments unchanged whatever bytes they hold. When the
  client is the master, the bytes of each command have been passed on to the replicas right after it was run, except inside a
  transaction, whose bytes are held back and passed on in one piece when it ends. The commands may open and close transactions, but
  must leave the client authenticated and neither blocked nor closed; no I/O thread and no long-running script is active; and the
  bytes that a client other than the master sends fit its limit \<open>maxlen\<close>.\<close>

theorem requests_round_trip:
  assumes "32 \<le> length stack" "write_commands stack cmds [] = Some (concat bs @ fut)" "\<forall>args \<in> set cmds. sendable env args"
    "idle env c" "io_threads_op env = IO_THREADS_OP_IDLE" "\<not> insideYieldingLongCommand env" "runs env cmds exec multi proc"
    "\<not> CLIENT_MASTER c \<longrightarrow> length (concat bs @ fut) \<le> maxlen"
  shows "\<exists>c' s' pend ran left. cmds = ran @ left \<and> reads env maxlen proc feed bs c s = Some (Some c', s') \<and>
    fold (effect (CLIENT_MASTER c) exec multi feed) ran (s, CLIENT_MULTI c, []) = (s', CLIENT_MULTI c', pend) \<and>
    (case left of [] \<Rightarrow> fut = [] | _ # rest \<Rightarrow> length (resps rest) < length fut)"
proof -
  have w: "resps cmds = concat bs @ fut" using write_commands_spec [OF assms(1,3), of "[]"] assms(2) by simp
  have s0: "streaming env c [] cmds (concat bs @ fut)" using idle_streaming [OF assms(4), of cmds] w by simp
  have u: "unread_bytes c = []" "\<not> CLIENT_MASTER c \<longrightarrow> qb_pos c = 0" using assms(4) by (simp_all add: idle_def)
  have l: "\<not> CLIENT_MASTER c \<longrightarrow> length (resps cmds) \<le> maxlen" "\<forall>args \<in> set cmds. sendable env args \<and> args \<in> set cmds"
    using assms(3,8) w by simp_all
  obtain c' s' left where r: "reads env maxlen proc feed bs c s = Some (Some c', s')"
    "ran_prefix env (\<lambda>x args. effect (CLIENT_MASTER c) exec multi feed args x) cmds fut (s, CLIENT_MULTI c, []) (CLIENT_MASTER c) left c' s'"
    using reads_resp [OF assms(5-7) s0 l(2,1) streaming_empty [OF s0 u(1)] u(2), of feed s] by (elim exE conjE) (rule that)
  then obtain ran pend where "cmds = ran @ left" "foldl (\<lambda>x args. effect (CLIENT_MASTER c) exec multi feed args x) (s, CLIENT_MULTI c, []) ran = (s', CLIENT_MULTI c', pend)"
    "incomplete left fut" unfolding ran_prefix_def by blast
  then show ?thesis using r(1) unfolding incomplete_def foldl_conv_fold by blast
qed

text \<open>A replica whose commands MULTI (the byte 77) and EXEC (69) open and close a transaction. It records the commands it runs and the
  bytes it passes on.\<close>

definition demo_multi :: "buffer list \<Rightarrow> bool \<Rightarrow> bool" where
  "demo_multi args m = (if args = [[77]] then True else if args = [[69]] then False else m)"

definition demo_command :: "client \<Rightarrow> buffer list list \<times> buffer list \<Rightarrow> cmd_result \<times> (buffer list list \<times> buffer list)" where
  "demo_command c s = (C_OK (c\<lparr>CLIENT_MULTI := demo_multi (argv c) (CLIENT_MULTI c)\<rparr>), (fst s @ [argv c], snd s))"

definition demo_feed :: "buffer \<Rightarrow> buffer list list \<times> buffer list \<Rightarrow> buffer list list \<times> buffer list" where
  "demo_feed b s = (fst s, snd s @ [b])"

lemma runs_demo: "runs env cmds (\<lambda>args s. (fst s @ [args], snd s)) (\<lambda>args s m. demo_multi args m) demo_command"
  by (simp add: runs_def demo_command_def calm_def authRequired_def)

definition demo_reads :: "buffer list" where
  "demo_reads = [[42, 49, 13, 10, 36], [49, 13, 10, 77, 13, 10, 42, 49, 13, 10, 36, 49, 13, 10, 69, 13, 10, 42, 49, 13, 10, 36, 50, 13, 10, 0]]"

text \<open>A transaction and the start of a third command from the master, in two reads: the bytes of the transaction are passed
  on in one piece.\<close>

theorem requests_round_trip_witness:
  "\<exists>c'. reads demo_proto_env 10 demo_command demo_feed demo_reads ((new_client True)\<lparr>authenticated := True\<rparr>) ([], []) =
     Some (Some c', ([[[77]], [[69]]], [resp [[77]] @ resp [[69]]]))"
proof -
  let ?cmds = "[[[77]], [[69]], [[0, 13]]] :: buffer list list" and ?c = "(new_client True)\<lparr>authenticated := True\<rparr>"
  have w: "write_commands (replicate 32 0) ?cmds [] = Some (concat demo_reads @ [13, 13, 10])"
    by (subst write_commands_spec [where env = demo_proto_env])
      (simp_all add: sendable_def demo_proto_env_def INT_MAX_def resp_def resp_bulk_def resp_header_def CRLF_def dec_small demo_reads_def)
  have a: "\<forall>args \<in> set ?cmds. sendable demo_proto_env args"
    by (simp add: sendable_def demo_proto_env_def INT_MAX_def)
  have i: "idle demo_proto_env ?c" by (simp add: idle_def calm_def new_client_def authRequired_def)
  have m: "CLIENT_MASTER ?c" "\<not> CLIENT_MULTI ?c" by (simp_all add: new_client_def)
  obtain c' s' pend ran left where r: "?cmds = ran @ left" "reads demo_proto_env 10 demo_command demo_feed demo_reads ?c ([], []) = Some (Some c', s')"
    "fold (effect True (\<lambda>args s. (fst s @ [args], snd s)) (\<lambda>args s m. demo_multi args m) demo_feed) ran (([], []), False, []) = (s', CLIENT_MULTI c', pend)"
    "case left of [] \<Rightarrow> [13, 13, 10 :: byte] = [] | _ # rest \<Rightarrow> length (resps rest) < length [13, 13, 10 :: byte]"
    using requests_round_trip [OF _ w a i _ _ runs_demo, of 10 demo_feed "([], [])"] m by (auto simp: demo_proto_env_def)
  have "ran = [[[77]], [[69]]]"
    using r(1,4) by (cases ran; cases "tl ran"; cases "tl (tl ran)")
      (auto simp: Cons_eq_append_conv resp_def resp_bulk_def resp_header_def CRLF_def dec_small)
  then show ?thesis using r(2,3) by (auto simp: effect_def demo_multi_def demo_feed_def)
qed

section \<open>Lengths near the limit\<close>

lemma read_bulk_len_huge:
  assumes c: "qb_pos c \<le> length (querybuf c)" "\<not> authRequired env c" "multibulklen c \<noteq> 0" "bulklen c = - 1"
    and u: "unread_bytes c = resp_header 36 n" and n: "LLONG_MAX - 2 < int n" "int n \<le> LLONG_MAX"
    and lim: "CLIENT_MASTER c \<or> int n \<le> proto_max_bulk_len env"
  shows "multibulk_loop env c = None"
proof -
  have h: "unread_bytes c @ [] = resp_header 36 n @ []" using u by simp
  have l: "length (dec n) + 3 \<le> length (unread_bytes c)" using u by (simp add: length_header)
  note w = header_whole [OF h l] header_scan [OF h]
  define c1 where "c1 = c\<lparr>qb_pos := qb_pos c + (length (dec n) + 1) + 2\<rparr>"
  define c2 where "c2 = (if \<not> CLIENT_MASTER c1 \<and> int n \<ge> PROTO_MBULK_BIG_ARG \<and> int (length (querybuf c1)) - int (qb_pos c1) \<le> int n + 2
                           then c1\<lparr>querybuf := drop (qb_pos c1) (querybuf c1), qb_pos := 0\<rparr> else c1)"
  have "\<not> (int n < 0 \<or> (\<not> CLIENT_MASTER c \<and> int n > proto_max_bulk_len env))" using lim by auto
  then have "read_bulk_len env c = Some (c2\<lparr>bulklen := int n\<rparr>, Go)"
    using w l c(1,2) string2ll_dec [OF n(2)] by (simp add: read_bulk_len_def unread_some Let_def c1_def c2_def)
  then show ?thesis using c(3,4) n(1) by (subst multibulk_loop.simps) simp
qed

text \<open>C29: The length of an argument is not checked against an overflow: when an authenticated client, between two requests, sends a
  request of one argument whose length is \<open>LLONG_MAX\<close> or \<open>LLONG_MAX - 1\<close>, and this length is accepted because the client is the
  master or \<open>proto_max_bulk_len\<close> is as large, the sum \<open>bulklen + 2\<close> overflows the signed type.\<close>

theorem bulk_length_overflow:
  assumes "idle env c" "LLONG_MAX - 2 < int n" "int n \<le> LLONG_MAX"
    "if CLIENT_MASTER c then \<not> insideYieldingLongCommand env else int n \<le> proto_max_bulk_len env \<and> 26 \<le> maxlen"
  shows "readQuery env maxlen proc feed (resp_header 42 1 @ resp_header 36 n) c s = None"
proof -
  let ?b = "resp_header 42 1 @ resp_header 36 n"
  define c1 where "c1 = (if CLIENT_MASTER c then c\<lparr>querybuf := ?b, read_reploff := read_reploff c + int (length ?b)\<rparr> else c\<lparr>querybuf := ?b\<rparr>)"
  have i: "calm env c" "querybuf c = []" "qb_pos c = 0" "argv c = []" "reqtype c = REQ_UNKNOWN" "multibulklen c = 0" "bulklen c = - 1"
    using assms(1) by (simp_all add: idle_def)
  have "length ?b \<le> 26" using length_dec_bound [OF assms(3)] by (simp add: length_header dec_small)
  then have rq: "readQuery env maxlen proc feed ?b c s = processInputBuffer env proc feed c1 s"
    using i(2) assms(4) by (auto simp: readQuery_def Let_def c1_def)
  let ?d = "c1\<lparr>reqtype := PROTO_REQ_MULTIBULK\<rparr>"
  have d: "querybuf ?d = ?b" "qb_pos ?d = 0" "argv ?d = []" "multibulklen ?d = 0" "bulklen ?d = - 1" "calm env c1" "CLIENT_MASTER ?d = CLIENT_MASTER c"
    using i by (auto simp: c1_def calm_def authRequired_def)
  have na: "\<not> authRequired env ?d" using d(6) by (simp add: calm_def authRequired_def)
  let ?e = "?d\<lparr>qb_pos := 4, multibulklen := 1, argv_len := 1, argv_len_sum := 0\<rparr>"
  have "read_multibulk_len env ?d = Some (?e, Go)"
    using read_multibulk_len_header [of ?d env "[]" 1 "resp_header 36 n"] d na by (simp add: length_header dec_small INT_MAX_def)
  moreover have "unread_bytes ?e = resp_header 36 n"
    using d(1) by (simp add: resp_header_def [of 42] CRLF_def dec_small)
  then have "multibulk_loop env ?e = None"
    using d na assms(2-4) by (intro read_bulk_len_huge [of _ _ n]) (auto simp: length_header split: if_splits)
  ultimately have "processMultibulkBuffer env ?d = None" using d(4) by (simp add: processMultibulkBuffer_def)
  moreover have "reqtype c1 = REQ_UNKNOWN" "qb_pos c1 < length (querybuf c1)" "querybuf c1 ! qb_pos c1 = 42"
    using i by (auto simp: c1_def resp_header_def)
  ultimately have "input_loop env proc feed c1 s = None"
    using d(6,7) assms(4) by (subst input_loop.simps) (auto simp: calm_def Let_def)
  then show ?thesis unfolding rq by (simp add: processInputBuffer_def)
qed

theorem bulk_length_overflow_witness:
  "readQuery demo_proto_env 0 demo_command demo_feed (resp_header 42 1 @ resp_header 36 (nat LLONG_MAX))
     ((new_client True)\<lparr>authenticated := True\<rparr>) ([], []) = None"
  by (rule bulk_length_overflow) (simp_all add: idle_def calm_def new_client_def authRequired_def demo_proto_env_def)

end
