(* ===== verification/Spec2Isabelle.thy ===== *)
theory Spec2Isabelle
  imports RedisUtil RedisGlob RedisDictScanProofs RedisIntsetProofs RedisSetCommands RedisAdlist RedisProtocolProofs
begin

text \<open>
  Placeholder header.
\<close>

end
